(* ===== verification/Prelude.thy ===== *)
theory Prelude
  imports Complex_Main "HOL-Library.Word" "HOL-Library.AList" "HOL-Library.Log_Nat"
    "HOL-Library.Code_Target_Nat"
begin

text \<open>
  The shared vocabulary of the development: the machine integers of the C++ code, the
  fixed-size character arrays it uses for instrument symbols, the hash maps it keeps per
  symbol, and the generic facts on lists, words and powers of two that the component
  theories use.

  \<^item> \<open>u8\<close>, \<open>u64\<close>: \<open>std::uint8_t\<close>, \<open>uint64_t\<close> and \<open>std::size_t\<close> (64 bit targets); arithmetic
    wraps. \<open>i64\<close>: \<open>int64_t\<close>, the same bits read with \<^const>\<open>sint\<close>, so that the casts between the
    two types are the identity, as in C++20.
  \<^item> \<open>symbol8\<close>: \<open>std::array<char, 8>\<close>, a character list whose length is 8 in every
    well-formed state.
  \<^item> \<open>umap\<close>: \<open>std::unordered_map\<close>, an association list with distinct keys. The order of its
    entries is never observed by the code.
\<close>

unbundle bit_operations_syntax

named_theorems ring_simps \<open>rewrites of the ring buffer operations\<close>
named_theorems stage_simps \<open>rewrites of the pipeline stages\<close>
named_theorems book_simps \<open>rewrites of the order book operations\<close>

type_synonym u8 = "8 word"
type_synonym u64 = "64 word"
type_synonym i64 = "64 word"
type_synonym symbol8 = "char list"
type_synonym ('k, 'v) umap = "('k \<times> 'v) list"

text \<open>
  The result of code that may have undefined behaviour, such as the conversion of a
  floating-point number that does not fit the integer type.
\<close>

datatype 'a cpp = Undefined | Value 'a

fun cpp_bind :: "'a cpp \<Rightarrow> ('a \<Rightarrow> 'b cpp) \<Rightarrow> 'b cpp" where
  "cpp_bind Undefined f = Undefined"
| "cpp_bind (Value x) f = f x"

section \<open>Character arrays\<close>

abbreviation NUL :: char where
  "NUL \<equiv> CHR 0x00"

text \<open>\<open>::strnlen(s, n)\<close> on an array and the string made of the characters before the first NUL.\<close>

definition strnlen :: "char list \<Rightarrow> nat \<Rightarrow> nat" where
  "strnlen s n = length (takeWhile (\<lambda>c. c \<noteq> NUL) (take n s))"

definition sym_string :: "symbol8 \<Rightarrow> string" where
  "sym_string s = take (strnlen s (length s)) s"

text \<open>
  \<open>std::strncpy(dst, src, n)\<close> where \<open>dst\<close> is an array whose first \<open>n\<close> characters are
  overwritten: the source up to its NUL, padded with NUL to \<open>n\<close> characters.
\<close>

definition strncpy :: "char list \<Rightarrow> char list \<Rightarrow> nat \<Rightarrow> char list" where
  "strncpy dst src n =
     (let s = take n (takeWhile (\<lambda>c. c \<noteq> NUL) src)
      in s @ replicate (n - length s) NUL @ drop n dst)"

section \<open>Hash maps\<close>

definition um_find :: "('k, 'v) umap \<Rightarrow> 'k \<Rightarrow> 'v option" where
  "um_find m k = map_of m k"

definition um_put :: "('k, 'v) umap \<Rightarrow> 'k \<Rightarrow> 'v \<Rightarrow> ('k, 'v) umap" where
  "um_put m k v = AList.update k v m"

definition um_wf :: "('k, 'v) umap \<Rightarrow> bool" where
  "um_wf m \<longleftrightarrow> distinct (map fst m)"

lemma um_find_empty [simp]: "um_find [] k = None"
  by (simp add: um_find_def)

lemma um_find_put [simp]: "um_find (um_put m k v) k' = (if k' = k then Some v else um_find m k')"
  by (simp add: um_find_def um_put_def update_conv')

lemma um_wf_empty [simp]: "um_wf []"
  by (simp add: um_wf_def)

lemma um_wf_put [simp]: "um_wf m \<Longrightarrow> um_wf (um_put m k v)"
  by (simp add: um_wf_def um_put_def distinct_update)

lemma length_um_put: "length (um_put m k v) = (if um_find m k = None then Suc (length m) else length m)"
  by (induction m) (auto simp: um_find_def um_put_def split: if_splits)

lemma um_find_None_iff: "um_find m k = None \<longleftrightarrow> k \<notin> fst ` set m"
  by (auto simp: um_find_def map_of_eq_None_iff)

section \<open>Lists\<close>

lemma takeWhile_take_length: "takeWhile P (take (length s) s) = takeWhile P s"
  by simp

lemma sym_string_takeWhile: "sym_string s = takeWhile (\<lambda>c. c \<noteq> NUL) s"
  unfolding sym_string_def strnlen_def takeWhile_take_length by (metis takeWhile_eq_take)

lemma length_sym_string: "length (sym_string s) \<le> length s"
  by (simp add: sym_string_takeWhile length_takeWhile_le)

lemma length_strncpy: "length (strncpy dst src n) = max n (length dst)"
  by (simp add: strncpy_def Let_def)

lemma NUL_notin_sym_string: "NUL \<notin> set (sym_string s)"
  by (auto simp: sym_string_takeWhile dest: set_takeWhileD)

lemma takeWhile_id: "NUL \<notin> set s \<Longrightarrow> takeWhile (\<lambda>c. c \<noteq> NUL) s = s"
  by (auto simp: takeWhile_eq_all_conv)

end
