(* ===== verification/RingBuffer.thy ===== *)
theory RingBuffer
  imports Prelude
begin

text \<open>
  The single-producer single-consumer ring buffer of \<open>core/RingBuffer.hpp\<close>: one definition
  per member function, on the array and the two 64 bit counters, which wrap. The lemmas
  show that it refines a bounded first-in first-out queue, for every position of the
  counters, and the locale \<open>bounded_fifo\<close> is the contract the pipeline stages rely on.
  The interleaved executions of the two threads are in the theory \<open>Spsc\<close>.
\<close>

record 'a ring =
  buffer :: "'a list"
  head :: u64
  tail :: u64

text \<open>The concept \<open>PowerOfTwo<N>\<close>; the template parameter \<open>N\<close> is the length of the array.\<close>

definition PowerOfTwo :: "u64 \<Rightarrow> bool" where
  "PowerOfTwo n \<longleftrightarrow> 0 < n \<and> n AND (n - 1) = 0"

definition ring_N :: "'a ring \<Rightarrow> u64" where
  "ring_N rb = of_nat (length (buffer rb))"

definition new_ring :: "nat \<Rightarrow> 'a \<Rightarrow> 'a ring" where
  "new_ring n d = \<lparr>buffer = replicate n d, head = 0, tail = 0\<rparr>"

definition slot :: "'a ring \<Rightarrow> u64 \<Rightarrow> nat" where
  "slot rb i = unat (i AND (ring_N rb - 1))"

definition try_push :: "'a ring \<Rightarrow> 'a \<Rightarrow> bool \<times> 'a ring" where
  "try_push rb item =
     (if head rb - tail rb = ring_N rb then (False, rb)
      else (True, rb\<lparr>buffer := (buffer rb)[slot rb (head rb) := item], head := head rb + 1\<rparr>))"

text \<open>\<open>try_pop(out)\<close>: \<open>None\<close> is the result \<open>false\<close>, which leaves \<open>out\<close> alone.\<close>

definition try_pop :: "'a ring \<Rightarrow> 'a option \<times> 'a ring" where
  "try_pop rb =
     (if head rb = tail rb then (None, rb)
      else (Some (buffer rb ! slot rb (tail rb)), rb\<lparr>tail := tail rb + 1\<rparr>))"

definition ring_empty :: "'a ring \<Rightarrow> bool" where
  "ring_empty rb \<longleftrightarrow> head rb = tail rb"

definition ring_full :: "'a ring \<Rightarrow> bool" where
  "ring_full rb \<longleftrightarrow> head rb - tail rb = ring_N rb"

definition ring_size :: "'a ring \<Rightarrow> u64" where
  "ring_size rb = head rb - tail rb"

definition capacity :: "'a ring \<Rightarrow> u64" where
  "capacity rb = ring_N rb"

section \<open>Abstraction\<close>

definition ring_items :: "'a ring \<Rightarrow> 'a list" where
  "ring_items rb = map (\<lambda>i. buffer rb ! slot rb (tail rb + of_nat i)) [0..<unat (head rb - tail rb)]"

definition ring_cap :: "'a ring \<Rightarrow> nat" where
  "ring_cap rb = length (buffer rb)"

definition ring_ok :: "'a ring \<Rightarrow> bool" where
  "ring_ok rb \<longleftrightarrow> length (buffer rb) < 2 ^ 64 \<and> PowerOfTwo (ring_N rb) \<and>
     unat (head rb - tail rb) \<le> length (buffer rb)"

section \<open>Loops over a ring\<close>

text \<open>
  The measure of a drain loop \<open>while (input.try_pop(x)) body(x);\<close>: each successful pop decreases
  the distance of the counters.
\<close>

definition ring_load :: "'a ring \<Rightarrow> nat" where
  "ring_load rb = unat (head rb - tail rb)"

lemma try_pop_load: "(Some x, rb') = try_pop rb \<Longrightarrow> ring_load rb' < ring_load rb"
  by (auto simp: ring_load_def try_pop_def unat_minus_one word_gt_0 unat_gt_0 simp flip: diff_diff_eq
      intro!: diff_less split: if_splits)

text \<open>
  What another thread does to a ring between two accesses of the modelled thread: the
  producer of the ring pushes a list of elements, the consumer pops some.
\<close>

definition env_push :: "'a list \<Rightarrow> 'a ring \<Rightarrow> 'a ring" where
  "env_push xs rb = fold (\<lambda>x r. snd (try_push r x)) xs rb"

primrec env_pop :: "nat \<Rightarrow> 'a ring \<Rightarrow> 'a ring" where
  "env_pop 0 rb = rb"
| "env_pop (Suc n) rb = env_pop n (snd (try_pop rb))"

text \<open>A sequence of operations on a queue, with the elements it accepted and returned.\<close>

datatype 'a fifo_op = Push 'a | Pop

fun drive :: "('q \<Rightarrow> 'a \<Rightarrow> bool \<times> 'q) \<Rightarrow> ('q \<Rightarrow> 'a option \<times> 'q) \<Rightarrow> 'a fifo_op list \<Rightarrow> 'q
    \<Rightarrow> 'a list \<times> 'a list \<times> 'q" where
  "drive push pop [] q = ([], [], q)"
| "drive push pop (Push x # ops) q =
     (case push q x of (b, q1) \<Rightarrow> (case drive push pop ops q1 of (acc, out, q2) \<Rightarrow>
        (if b then x # acc else acc, out, q2)))"
| "drive push pop (Pop # ops) q =
     (case pop q of (r, q1) \<Rightarrow> (case drive push pop ops q1 of (acc, out, q2) \<Rightarrow>
        (acc, (case r of None \<Rightarrow> out | Some x \<Rightarrow> x # out), q2)))"

section \<open>Powers of two\<close>

lemma pow2_64 [simp]: "(2::nat) ^ k < 18446744073709551616 \<longleftrightarrow> k < 64"
  using power_strict_increasing_iff [of "2::nat" k 64] by simp

lemma unat_of_nat_64: "n < 2 ^ 64 \<Longrightarrow> unat (of_nat n :: u64) = n"
  by (simp add: unsigned_of_nat take_bit_nat_eq_self)

text \<open>The bit trick of the concept characterises the powers of two below the word size.\<close>

lemma PowerOfTwo_exp: "k < 64 \<Longrightarrow> PowerOfTwo (2 ^ k)"
  using and_exp_eq_0_iff_not_bit [of "mask k :: u64" k]
  by (simp add: PowerOfTwo_def word_gt_0 bit_mask_iff and.commute flip: mask_eq_exp_minus_1)

lemma and_minus_1_power:
  fixes n :: nat
  assumes "0 < n" and "n AND (n - 1) = 0"
  shows "\<exists>k. n = 2 ^ k"
  using assms
proof (induction n rule: less_induct)
  case (less n)
  show ?case
  proof (cases "even n")
    case True
    then obtain m where m: "n = 2 * m" by blast
    with less.prems have "0 < m" by simp
    then have e: "n - 1 = 2 * (m - 1) + 1" using m by simp
    have "(m AND (m - 1)) = (n AND (n - 1)) div 2"
      unfolding e unfolding m by (simp add: and_nat_rec [of "2 * m"])
    then have "m AND (m - 1) = 0" using less.prems by simp
    with less.IH [of m] m \<open>0 < m\<close> obtain k where "m = 2 ^ k" by auto
    with m have "n = 2 ^ Suc k" by simp
    then show ?thesis by blast
  next
    case False
    show ?thesis
    proof (cases "n = 1")
      case True
      then have "n = 2 ^ 0" by simp
      then show ?thesis by blast
    next
      case 1: False
      with False have "even (n - 1)" "n div 2 = (n - 1) div 2" "n div 2 > 0" by (auto elim!: oddE)
      then have "n AND (n - 1) = 2 * (n div 2)"
        using False by (simp add: and_nat_rec [of n])
      with less.prems \<open>n div 2 > 0\<close> show ?thesis by simp
    qed
  qed
qed

lemma PowerOfTwo_unat:
  assumes "PowerOfTwo n" obtains k where "k < 64" "unat n = 2 ^ k" "n = 2 ^ k"
proof -
  have n: "0 < n" "n AND (n - 1) = 0" using assms by (auto simp: PowerOfTwo_def)
  have "unat n AND (unat n - 1) = unat (n AND (n - 1))"
    using n(1) by (simp add: unsigned_and_eq unat_minus_one word_gt_0)
  then obtain k where k: "unat n = 2 ^ k"
    using and_minus_1_power [of "unat n"] n by (auto simp: word_less_nat_alt)
  have "k < 64"
    using unsigned_less [of n, where 'a = nat] k by (simp del: unsigned_less)
  moreover have "of_nat (unat n) = (of_nat (2 ^ k) :: u64)" using k by (simp only:)
  then have "n = 2 ^ k" by simp
  ultimately show ?thesis using that k by blast
qed

lemma ring_okD:
  assumes "ring_ok rb"
  obtains k where "k < 64" "length (buffer rb) = 2 ^ k" "ring_N rb = 2 ^ k"
    "unat (ring_N rb) = length (buffer rb)"
proof -
  have u: "unat (ring_N rb) = length (buffer rb)"
    using assms by (simp add: ring_ok_def ring_N_def unat_of_nat_64)
  obtain k where "k < 64" "unat (ring_N rb) = 2 ^ k" "ring_N rb = 2 ^ k"
    using assms PowerOfTwo_unat unfolding ring_ok_def by metis
  then show ?thesis using that u by metis
qed

text \<open>Masking with \<open>N - 1\<close> is the remainder modulo \<open>N\<close>.\<close>

lemma slot_mod: "ring_ok rb \<Longrightarrow> slot rb i = unat i mod length (buffer rb)"
proof (elim ring_okD)
  fix k assume k: "k < 64" "length (buffer rb) = 2 ^ k" "ring_N rb = 2 ^ k"
  have "i AND (ring_N rb - 1) = take_bit k i"
    by (simp add: k(3) take_bit_eq_mask mask_eq_exp_minus_1)
  then show ?thesis by (simp add: slot_def unsigned_take_bit_eq k(2)) (simp add: take_bit_eq_mod)
qed

lemma slot_less: "ring_ok rb \<Longrightarrow> slot rb i < length (buffer rb)"
  by (frule slot_mod [of _ i]) (auto elim: ring_okD)

lemma slot_add: 
  assumes "ring_ok rb" shows "slot rb (i + of_nat n) = (unat i + n) mod length (buffer rb)"
proof -
  obtain k where k: "k < 64" "length (buffer rb) = 2 ^ k" using assms by (rule ring_okD)
  then have dvd: "(2::nat) ^ k dvd 2 ^ 64" by (intro le_imp_power_dvd) simp
  have "unat (i + of_nat n) mod 2 ^ k = (unat i + n) mod 2 ^ k"
    using dvd by (simp add: unat_word_ariths unsigned_of_nat take_bit_eq_mod mod_mod_cancel mod_add_right_eq)
  then show ?thesis using assms k by (simp add: slot_mod)
qed

lemma dvd_imp_eq_0: "(n::nat) dvd m \<Longrightarrow> m < n \<Longrightarrow> m = 0"
  by (metis dvd_imp_le leD neq0_conv)

lemma mod_add_inj:
  fixes a i j n :: nat
  assumes "i < n" "j < n" "(a + i) mod n = (a + j) mod n" shows "i = j"
proof -
  have "u = v" if "u \<le> v" "v < n" "(a + u) mod n = (a + v) mod n" for u v
  proof -
    have "n dvd (a + v) - (a + u)" using that mod_eq_dvd_iff_nat [of "a + u" "a + v" n] by simp
    then have "v - u = 0" using that by (intro dvd_imp_eq_0) auto
    then show ?thesis using that by simp
  qed
  from this [of i j] this [of j i] show ?thesis using assms by (metis nat_le_linear)
qed

section \<open>Refinement of a bounded queue\<close>

lemma length_ring_items [simp]: "length (ring_items rb) = unat (head rb - tail rb)"
  by (simp add: ring_items_def)

lemma ring_items_nth:
  "ring_ok rb \<Longrightarrow> i < length (ring_items rb) \<Longrightarrow>
     ring_items rb ! i = buffer rb ! ((unat (tail rb) + i) mod length (buffer rb))"
  by (simp add: ring_items_def slot_add)

lemma ring_items_le_cap: "ring_ok rb \<Longrightarrow> length (ring_items rb) \<le> ring_cap rb"
  by (simp add: ring_ok_def ring_cap_def)

lemma ring_full_iff: "ring_ok rb \<Longrightarrow> ring_full rb \<longleftrightarrow> length (ring_items rb) = ring_cap rb"
  by (elim ring_okD) (auto simp: ring_full_def ring_cap_def word_unat_eq_iff)

lemma ring_empty_iff: "ring_empty rb \<longleftrightarrow> ring_items rb = []"
  by (simp add: ring_empty_def ring_items_def unat_eq_0)

lemma ring_new_ok: "k < 64 \<Longrightarrow> ring_ok (new_ring (2 ^ k) d)"
  by (simp add: ring_ok_def new_ring_def ring_N_def PowerOfTwo_exp)

lemma ring_new_items [simp]: "ring_items (new_ring n d) = []"
  by (simp add: ring_items_def new_ring_def)

lemma unat_Suc_diff: "(h::u64) - t \<noteq> -1 \<Longrightarrow> unat (h + 1 - t) = Suc (unat (h - t))"
  using unatSuc [of "h - t"] by (simp add: algebra_simps eq_neg_iff_add_eq_0)

lemma head_eq: "head rb = tail rb + of_nat (unat (head rb - tail rb))"
  by simp

lemma try_push_refines:
  assumes ok: "ring_ok rb" and room: "length (ring_items rb) < ring_cap rb"
  obtains rb' where "try_push rb x = (True, rb')" "ring_items rb' = ring_items rb @ [x]"
    "ring_ok rb'" "ring_cap rb' = ring_cap rb"
proof -
  let ?n = "unat (head rb - tail rb)" and ?N = "length (buffer rb)"
  define rb' where "rb' = rb\<lparr>buffer := (buffer rb)[slot rb (head rb) := x], head := head rb + 1\<rparr>"
  have N: "unat (ring_N rb) = ?N" "?N < 2 ^ 64" using ok by (auto elim: ring_okD)
  have "\<not> ring_full rb" using ring_full_iff [OF ok] room by simp
  then have push: "try_push rb x = (True, rb')" by (simp add: try_push_def ring_full_def rb'_def)
  have n1: "unat (head rb + 1 - tail rb) = Suc ?n"
  proof (rule unat_Suc_diff)
    show "head rb - tail rb \<noteq> -1" using room N by (auto simp: ring_cap_def unsigned_minus_1_eq_mask mask_eq_exp_minus_1)
  qed
  have ok': "ring_ok rb'" using ok room n1 by (simp add: ring_ok_def rb'_def ring_N_def ring_cap_def)
  have sl: "slot rb (head rb) = (unat (tail rb) + ?n) mod ?N" using slot_add [OF ok, of "tail rb" ?n] by simp
  have "ring_items rb' = ring_items rb @ [x]"
  proof (rule nth_equalityI)
    show "length (ring_items rb') = length (ring_items rb @ [x])" using n1 by (simp add: rb'_def)
    fix i assume "i < length (ring_items rb')"
    then have i: "i \<le> ?n" using n1 by (simp add: rb'_def)
    have L: "ring_items rb' ! i = (buffer rb)[slot rb (head rb) := x] ! ((unat (tail rb) + i) mod ?N)"
      using ring_items_nth [OF ok', of i] i n1 by (simp add: rb'_def)
    show "ring_items rb' ! i = (ring_items rb @ [x]) ! i"
    proof (cases "i = ?n")
      case True
      then show ?thesis using L sl slot_less [OF ok, of "head rb"] by (simp add: nth_append)
    next
      case False
      with i have "i < ?n" by simp
      moreover have "(unat (tail rb) + i) mod ?N \<noteq> slot rb (head rb)"
        using mod_add_inj [of i ?N ?n "unat (tail rb)"] room \<open>i < ?n\<close> sl by (auto simp: ring_cap_def)
      ultimately show ?thesis using L ring_items_nth [OF ok, of i] by (simp add: nth_append)
    qed
  qed
  then show ?thesis using that push ok' by (simp add: rb'_def ring_cap_def)
qed

lemma try_push_full: "ring_ok rb \<Longrightarrow> length (ring_items rb) = ring_cap rb \<Longrightarrow> try_push rb x = (False, rb)"
  using ring_full_iff [of rb] by (simp add: try_push_def ring_full_def)

lemma try_pop_empty: "ring_items rb = [] \<Longrightarrow> try_pop rb = (None, rb)"
  using ring_empty_iff [of rb] by (simp add: try_pop_def ring_empty_def)

lemma try_pop_refines:
  assumes ok: "ring_ok rb" and ne: "ring_items rb = x # xs"
  obtains rb' where "try_pop rb = (Some x, rb')" "ring_items rb' = xs" "ring_ok rb'" "ring_cap rb' = ring_cap rb"
proof -
  let ?n = "unat (head rb - tail rb)" and ?N = "length (buffer rb)"
  define rb' where "rb' = rb\<lparr>tail := tail rb + 1\<rparr>"
  have ht: "head rb \<noteq> tail rb" using ne ring_empty_iff [of rb] by (auto simp: ring_empty_def)
  have pop: "try_pop rb = (Some (buffer rb ! slot rb (tail rb)), rb')"
    using ht by (simp add: try_pop_def rb'_def)
  have "ring_items rb ! 0 = buffer rb ! slot rb (tail rb)"
    using ne length_ring_items [of rb] by (subst ring_items_def) (simp add: upt_conv_Cons)
  then have hd: "buffer rb ! slot rb (tail rb) = x" using ne by simp
  have n1: "unat (head rb - (tail rb + 1)) = ?n - 1"
    using ht by (simp add: unat_minus_one flip: diff_diff_eq)
  have ok': "ring_ok rb'" using ok n1 by (auto simp: ring_ok_def rb'_def ring_N_def)
  have "ring_items rb' = xs"
  proof (rule nth_equalityI)
    show len: "length (ring_items rb') = length xs"
      using ne length_ring_items [of rb] n1 by (simp add: rb'_def)
    fix i assume i: "i < length (ring_items rb')"
    then have "Suc i < length (ring_items rb)" using n1 by (simp add: rb'_def)
    then have "ring_items rb' ! i = ring_items rb ! Suc i"
      using i by (simp add: ring_items_def rb'_def slot_def ring_N_def n1 ac_simps)
    then show "ring_items rb' ! i = xs ! i" using ne by simp
  qed
  then show ?thesis using that pop hd ok' by (simp add: rb'_def ring_cap_def)
qed

section \<open>The queue interface\<close>

text \<open>
  The contract of a bounded queue: a full queue refuses and keeps its contents, a queue with
  room appends, an empty queue returns nothing, a non-empty one its oldest element.
\<close>

locale bounded_fifo =
  fixes push :: "'q \<Rightarrow> 'a \<Rightarrow> bool \<times> 'q" and pop :: "'q \<Rightarrow> 'a option \<times> 'q"
    and items :: "'q \<Rightarrow> 'a list" and cap :: "'q \<Rightarrow> nat" and inv :: "'q \<Rightarrow> bool"
  assumes bounded: "inv q \<Longrightarrow> length (items q) \<le> cap q"
    and push_full: "inv q \<Longrightarrow> length (items q) = cap q \<Longrightarrow> push q x = (False, q)"
    and push_room: "inv q \<Longrightarrow> length (items q) < cap q \<Longrightarrow>
      \<exists>q'. push q x = (True, q') \<and> items q' = items q @ [x] \<and> inv q' \<and> cap q' = cap q"
    and pop_empty: "inv q \<Longrightarrow> items q = [] \<Longrightarrow> pop q = (None, q)"
    and pop_some: "inv q \<Longrightarrow> items q = x # xs \<Longrightarrow>
      \<exists>q'. pop q = (Some x, q') \<and> items q' = xs \<and> inv q' \<and> cap q' = cap q"
begin

lemma push_cases:
  assumes "inv q"
  obtains (full) "length (items q) = cap q" "push q x = (False, q)"
  | (room) q' where "length (items q) < cap q" "push q x = (True, q')" "items q' = items q @ [x]"
      "inv q'" "cap q' = cap q"
  using bounded [OF assms] push_full [OF assms] push_room [OF assms] by (metis nat_less_le)

lemma pop_cases:
  assumes "inv q"
  obtains (none) "items q = []" "pop q = (None, q)"
  | (some) x xs q' where "items q = x # xs" "pop q = (Some x, q')" "items q' = xs" "inv q'" "cap q' = cap q"
  using pop_empty [OF assms] pop_some [OF assms] by (metis list.exhaust)

lemma push_result:
  assumes "inv q"
  obtains b q' where "push q x = (b, q')" "inv q'" "cap q' = cap q" "items q' = items q @ (if b then [x] else [])"
    "b \<longleftrightarrow> length (items q) < cap q"
  using assms
proof (cases rule: push_cases [of _ x])
  case full
  with assms that [of False q] show ?thesis by simp
next
  case (room q')
  with that [of True q'] show ?thesis by simp
qed

text \<open>Nothing is lost, duplicated or reordered over any sequence of operations.\<close>

lemma drive_fifo:
  "inv q \<Longrightarrow> drive push pop ops q = (acc, out, q') \<Longrightarrow>
     items q @ acc = out @ items q' \<and> inv q' \<and> cap q' = cap q"
proof (induction ops arbitrary: q acc out)
  case (Cons op ops)
  show ?case
  proof (cases op)
    case (Push x)
    show ?thesis
      using Cons.prems(1)
    proof (cases rule: push_cases [of _ x])
      case full
      with Push Cons.prems Cons.IH [of q] show ?thesis by (auto split: prod.splits)
    next
      case (room q1)
      with Push Cons.prems Cons.IH [of q1] show ?thesis by (auto split: prod.splits)
    qed
  next
    case Pop
    show ?thesis
      using Cons.prems(1)
    proof (cases rule: pop_cases)
      case none
      with Pop Cons.prems Cons.IH [of q] show ?thesis by (auto split: prod.splits)
    next
      case (some x xs q1)
      with Pop Cons.prems Cons.IH [of q1] show ?thesis by (auto split: prod.splits)
    qed
  qed
qed auto

end

interpretation rb: bounded_fifo try_push try_pop ring_items ring_cap ring_ok
proof unfold_locales
  fix q :: "'a ring" and x
  assume "ring_ok q" and "length (ring_items q) < ring_cap q"
  then show "\<exists>q'. try_push q x = (True, q') \<and> ring_items q' = ring_items q @ [x] \<and> ring_ok q' \<and>
      ring_cap q' = ring_cap q"
    by (metis try_push_refines)
next
  fix q :: "'a ring" and x xs
  assume "ring_ok q" and "ring_items q = x # xs"
  then show "\<exists>q'. try_pop q = (Some x, q') \<and> ring_items q' = xs \<and> ring_ok q' \<and> ring_cap q' = ring_cap q"
    by (metis try_pop_refines)
qed (auto simp: ring_items_le_cap try_push_full try_pop_empty simp del: length_ring_items)

section \<open>Loops, through the interface\<close>

lemma env_push_ok: "ring_ok rb \<Longrightarrow> ring_ok (env_push xs rb) \<and> ring_cap (env_push xs rb) = ring_cap rb \<and>
    (\<exists>ys. ring_items (env_push xs rb) = ring_items rb @ ys \<and> set ys \<subseteq> set xs)"
proof (induction xs arbitrary: rb)
  case (Cons x xs)
  show ?case
    using Cons.prems
  proof (cases rule: rb.push_cases [of _ x])
    case full
    then show ?thesis using Cons.IH [OF Cons.prems] by (auto simp: env_push_def)
  next
    case (room q')
    then obtain ys where "ring_items (env_push xs q') = ring_items q' @ ys" "set ys \<subseteq> set xs"
      using Cons.IH [of q'] by auto
    then show ?thesis using room Cons.IH [of q'] by (auto simp: env_push_def intro!: exI [of _ "x # ys"])
  qed
qed (simp add: env_push_def)

lemma env_push_room:
  "ring_ok rb \<Longrightarrow> length (ring_items rb) + length xs \<le> ring_cap rb \<Longrightarrow>
     ring_items (env_push xs rb) = ring_items rb @ xs"
proof (induction xs arbitrary: rb)
  case (Cons x xs)
  from Cons.prems(1) show ?case
  proof (cases rule: rb.push_cases [of _ x])
    case full
    with Cons.prems(2) show ?thesis by simp
  next
    case (room q)
    moreover have "length (ring_items q) + length xs \<le> ring_cap q"
      using Cons.prems(2) room by (simp del: length_ring_items)
    ultimately show ?thesis using Cons.IH [of q] by (simp add: env_push_def)
  qed
qed (simp add: env_push_def)

text \<open>A ring of capacity \<open>2 ^ k\<close> with given contents.\<close>

definition filled_ring :: "nat \<Rightarrow> 'a \<Rightarrow> 'a list \<Rightarrow> 'a ring" where
  "filled_ring k d xs = env_push xs (new_ring (2 ^ k) d)"

lemma filled_ring_ok [simp]:
  "k < 64 \<Longrightarrow> ring_ok (filled_ring k d xs)" "k < 64 \<Longrightarrow> ring_cap (filled_ring k d xs) = 2 ^ k"
  using env_push_ok [OF ring_new_ok [of k d], of xs] by (simp_all add: filled_ring_def ring_cap_def new_ring_def)

lemma filled_ring_items [simp]:
  "k < 64 \<Longrightarrow> length xs \<le> 2 ^ k \<Longrightarrow> ring_items (filled_ring k d xs) = xs"
  using env_push_room [OF ring_new_ok [of k d], of xs]
  by (simp add: filled_ring_def del: length_ring_items) (simp add: ring_cap_def new_ring_def)

lemma env_pop_ok: "ring_ok rb \<Longrightarrow> ring_ok (env_pop n rb) \<and> ring_cap (env_pop n rb) = ring_cap rb \<and>
    ring_items (env_pop n rb) = drop n (ring_items rb)"
proof (induction n arbitrary: rb)
  case (Suc n)
  show ?case
    using Suc.prems
  proof (cases rule: rb.pop_cases)
    case none
    then show ?thesis using Suc.IH [OF Suc.prems] by auto
  next
    case (some x xs q')
    then show ?thesis using Suc.IH [of q'] by auto
  qed
qed simp

section \<open>Properties\<close>

text \<open>
  C7. Over any sequence of pushes and pops, from any position of the 64 bit counters (wrap-around
  included), the elements that were in the ring followed by the accepted ones are the
  returned ones followed by the elements still in it: nothing is lost, duplicated or
  reordered.
\<close>

theorem ring_fifo:
  assumes "ring_ok rb" and "drive try_push try_pop ops rb = (acc, out, rb')"
  shows "ring_items rb @ acc = out @ ring_items rb' \<and> ring_ok rb' \<and> ring_cap rb' = ring_cap rb"
  using rb.drive_fifo [OF assms] .

text \<open>A ring of two slots whose \<open>head_\<close> counter is about to wrap.\<close>

definition wrapping_ring :: "nat ring" where
  "wrapping_ring = \<lparr>buffer = [8, 9], head = - 1, tail = - 2\<rparr>"

theorem ring_fifo_witness:
  "case drive try_push try_pop [Push 5, Push 6, Pop, Push 7] wrapping_ring of (acc, out, rb') \<Rightarrow>
     acc = [5, 7] \<and> out = [8] \<and> head rb' = 1 \<and> ring_items wrapping_ring @ acc = out @ ring_items rb'"
proof -
  have ok: "ring_ok wrapping_ring"
    by (simp add: ring_ok_def wrapping_ring_def ring_N_def PowerOfTwo_def)
  obtain acc out rb' where d: "drive try_push try_pop [Push 5, Push 6, Pop, Push 7] wrapping_ring = (acc, out, rb')"
    by (metis prod_cases3)
  moreover have "acc = [5, 7] \<and> out = [8] \<and> head rb' = 1"
    using d by (simp add: wrapping_ring_def try_push_def try_pop_def ring_N_def slot_def) auto
  ultimately show ?thesis using ring_fifo [OF ok d] by simp
qed

text \<open>
  \<open>try_push\<close> and \<open>try_pop\<close> on every branch: a push fails exactly when the ring holds \<open>N\<close>
  elements and then changes nothing, and otherwise appends; a pop fails exactly when the
  ring is empty and then changes nothing, and otherwise removes the oldest element. \<open>full\<close>,
  \<open>empty\<close> and \<open>size\<close> agree with the contents.
\<close>

theorem ring_operations:
  assumes "ring_ok rb"
  shows "(length (ring_items rb) = ring_cap rb \<longrightarrow> try_push rb x = (False, rb))
    \<and> (length (ring_items rb) < ring_cap rb \<longrightarrow> (\<exists>rb'. try_push rb x = (True, rb') \<and>
          ring_items rb' = ring_items rb @ [x] \<and> ring_ok rb'))
    \<and> (ring_items rb = [] \<longrightarrow> try_pop rb = (None, rb))
    \<and> (ring_items rb \<noteq> [] \<longrightarrow> (\<exists>rb'. try_pop rb = (Some (hd (ring_items rb)), rb') \<and>
          ring_items rb' = tl (ring_items rb) \<and> ring_ok rb'))
    \<and> (ring_full rb \<longleftrightarrow> length (ring_items rb) = ring_cap rb) \<and> (ring_empty rb \<longleftrightarrow> ring_items rb = [])
    \<and> unat (ring_size rb) = length (ring_items rb) \<and> unat (capacity rb) = ring_cap rb"
proof -
  have "\<exists>rb'. try_pop rb = (Some (hd (ring_items rb)), rb') \<and> ring_items rb' = tl (ring_items rb) \<and> ring_ok rb'"
    if "ring_items rb \<noteq> []"
    using rb.pop_some [OF assms, of "hd (ring_items rb)" "tl (ring_items rb)"] that by auto
  moreover have "unat (capacity rb) = ring_cap rb"
    using assms by (auto elim: ring_okD simp: capacity_def ring_cap_def)
  ultimately show ?thesis
    using rb.push_full [OF assms] rb.push_room [OF assms] rb.pop_empty [OF assms]
      ring_full_iff [OF assms] ring_empty_iff [of rb]
    by (auto simp: ring_size_def)
qed

theorem ring_operations_witness:
  "unat (ring_size wrapping_ring) = length (ring_items wrapping_ring) \<and> ring_items wrapping_ring = [8]
   \<and> (\<exists>rb'. try_push wrapping_ring 5 = (True, rb') \<and> ring_items rb' = [8, 5])"
proof -
  have ok: "ring_ok wrapping_ring"
    by (simp add: ring_ok_def wrapping_ring_def ring_N_def PowerOfTwo_def)
  have "ring_items wrapping_ring = [8]" "ring_cap wrapping_ring = 2"
    by (simp_all add: ring_items_def wrapping_ring_def slot_def ring_N_def ring_cap_def)
  then show ?thesis using ring_operations [OF ok, of 5] by (auto simp del: length_ring_items)
qed

text \<open>
  The concept \<open>PowerOfTwo<N>\<close> accepts exactly the powers of two, and for those the bit mask
  \<open>i & (N - 1)\<close> of the slot index is \<open>i mod N\<close>, so every index is inside the array.
\<close>

theorem power_of_two_mask:
  "(PowerOfTwo n \<longleftrightarrow> (\<exists>k<64. n = 2 ^ k)) \<and> (PowerOfTwo n \<longrightarrow> unat (i AND (n - 1)) = unat i mod unat n)"
proof -
  have "unat (i AND (n - 1)) = unat i mod unat n" if pow: "PowerOfTwo n"
  proof -
    obtain k where k: "k < 64" "unat n = 2 ^ k" "n = 2 ^ k" using PowerOfTwo_unat [OF pow] .
    then have "i AND (n - 1) = take_bit k i" by (simp add: take_bit_eq_mask mask_eq_exp_minus_1)
    then show ?thesis using k by (simp add: unsigned_take_bit_eq) (simp add: take_bit_eq_mod)
  qed
  then show ?thesis using PowerOfTwo_unat PowerOfTwo_exp by blast
qed

theorem power_of_two_mask_witness:
  "PowerOfTwo 4096 \<and> unat ((5000 :: u64) AND (4096 - 1)) = 5000 mod 4096"
  using power_of_two_mask [of 4096 5000] by (simp add: PowerOfTwo_def)

end
