(* ===== verification/Spsc.thy ===== *)
theory Spsc
  imports RingBuffer
begin

text \<open>
  The ring buffer under two concurrent threads, at the granularity of its memory accesses:
  every load, store and slot access of \<open>try_push\<close> and \<open>try_pop\<close> (\<open>core/RingBuffer.hpp\<close>) is
  one step, and the steps of producer, consumer and a monitoring thread interleave freely.

  The acquire load of the other thread's index may return any value of its modification
  order that is not older than the last one this thread has read; \<open>p_seen\<close> and \<open>c_seen\<close> count
  how far each thread has read. The buffer slots are plain memory: the theorems show that
  no two threads access a slot at once and that every slot access is ordered by a
  release/acquire pair, which is what makes reading the last written value right.
  \<open>pushed\<close> and \<open>popped\<close> are the histories of the two threads.
\<close>

datatype 'a producer_pc =
    P_idle
  | P_head 'a u64      \<comment> \<open>own index loaded\<close>
  | P_tail 'a u64 u64  \<comment> \<open>other index loaded\<close>
  | P_written 'a u64   \<comment> \<open>slot written, index not yet stored\<close>

datatype 'a consumer_pc =
    C_idle
  | C_tail u64
  | C_head u64 u64
  | C_read u64 'a

datatype monitor_pc = M_idle | M_head u64 | M_done u64

record 'a spsc =
  mem :: "'a ring"
  p_pc :: "'a producer_pc"
  c_pc :: "'a consumer_pc"
  m_pc :: monitor_pc
  pushed :: "'a list"
  popped :: "'a list"
  p_seen :: nat
  c_seen :: nat

definition spsc_init :: "nat \<Rightarrow> 'a \<Rightarrow> 'a spsc" where
  "spsc_init n d = \<lparr>mem = new_ring n d, p_pc = P_idle, c_pc = C_idle, m_pc = M_idle,
     pushed = [], popped = [], p_seen = 0, c_seen = 0\<rparr>"

inductive producer_step :: "'a spsc \<Rightarrow> 'a spsc \<Rightarrow> bool" where
  push_load_head: "p_pc s = P_idle \<Longrightarrow>
     producer_step s (s\<lparr>p_pc := P_head x (head (mem s))\<rparr>)"
| push_load_tail: "p_pc s = P_head x h \<Longrightarrow> p_seen s \<le> n \<Longrightarrow> n \<le> length (popped s) \<Longrightarrow>
     producer_step s (s\<lparr>p_pc := P_tail x h (of_nat n), p_seen := n\<rparr>)"
| push_full: "p_pc s = P_tail x h t \<Longrightarrow> h - t = ring_N (mem s) \<Longrightarrow>
     producer_step s (s\<lparr>p_pc := P_idle\<rparr>)"
| push_write: "p_pc s = P_tail x h t \<Longrightarrow> h - t \<noteq> ring_N (mem s) \<Longrightarrow>
     producer_step s (s\<lparr>mem := (mem s)\<lparr>buffer := (buffer (mem s))[slot (mem s) h := x]\<rparr>,
       p_pc := P_written x h\<rparr>)"
| push_store_head: "p_pc s = P_written x h \<Longrightarrow>
     producer_step s (s\<lparr>mem := (mem s)\<lparr>head := h + 1\<rparr>, p_pc := P_idle, pushed := pushed s @ [x]\<rparr>)"

inductive consumer_step :: "'a spsc \<Rightarrow> 'a spsc \<Rightarrow> bool" where
  pop_load_tail: "c_pc s = C_idle \<Longrightarrow>
     consumer_step s (s\<lparr>c_pc := C_tail (tail (mem s))\<rparr>)"
| pop_load_head: "c_pc s = C_tail t \<Longrightarrow> c_seen s \<le> n \<Longrightarrow> n \<le> length (pushed s) \<Longrightarrow>
     consumer_step s (s\<lparr>c_pc := C_head t (of_nat n), c_seen := n\<rparr>)"
| pop_none: "c_pc s = C_head t h \<Longrightarrow> h = t \<Longrightarrow>
     consumer_step s (s\<lparr>c_pc := C_idle\<rparr>)"
| pop_read: "c_pc s = C_head t h \<Longrightarrow> h \<noteq> t \<Longrightarrow>
     consumer_step s (s\<lparr>c_pc := C_read t (buffer (mem s) ! slot (mem s) t)\<rparr>)"
| pop_store_tail: "c_pc s = C_read t x \<Longrightarrow>
     consumer_step s (s\<lparr>mem := (mem s)\<lparr>tail := t + 1\<rparr>, c_pc := C_idle, popped := popped s @ [x]\<rparr>)"

text \<open>\<open>size()\<close> from a third thread: two sequentially consistent loads, one after the other.\<close>

inductive monitor_step :: "'a spsc \<Rightarrow> 'a spsc \<Rightarrow> bool" where
  size_load_head: "m_pc s = M_idle \<Longrightarrow> monitor_step s (s\<lparr>m_pc := M_head (head (mem s))\<rparr>)"
| size_load_tail: "m_pc s = M_head h \<Longrightarrow> monitor_step s (s\<lparr>m_pc := M_done (h - tail (mem s))\<rparr>)"
| size_return: "m_pc s = M_done w \<Longrightarrow> monitor_step s (s\<lparr>m_pc := M_idle\<rparr>)"

definition spsc_step :: "'a spsc \<Rightarrow> 'a spsc \<Rightarrow> bool" where
  "spsc_step s s' \<longleftrightarrow> producer_step s s' \<or> consumer_step s s' \<or> monitor_step s s'"

inductive spsc_reachable :: "nat \<Rightarrow> 'a \<Rightarrow> 'a spsc \<Rightarrow> bool" for n d where
  init: "spsc_reachable n d (spsc_init n d)"
| step: "spsc_reachable n d s \<Longrightarrow> spsc_step s s' \<Longrightarrow> spsc_reachable n d s'"

inductive_cases producer_stepE: "producer_step s s'"
inductive_cases consumer_stepE: "consumer_step s s'"
inductive_cases monitor_stepE: "monitor_step s s'"

section \<open>An executable scheduler\<close>

text \<open>
  One step of the named thread, with the freshest index value, for evaluating concrete
  interleavings. Every execution of it is an execution of the step relation.
\<close>

datatype 'a act = Producer 'a | Consumer | Monitor

fun producer_exec :: "'a \<Rightarrow> 'a spsc \<Rightarrow> 'a spsc" where
  "producer_exec x s = (case p_pc s of
      P_idle \<Rightarrow> s\<lparr>p_pc := P_head x (head (mem s))\<rparr>
    | P_head y h \<Rightarrow> s\<lparr>p_pc := P_tail y h (of_nat (length (popped s))), p_seen := length (popped s)\<rparr>
    | P_tail y h t \<Rightarrow> (if h - t = ring_N (mem s) then s\<lparr>p_pc := P_idle\<rparr>
        else s\<lparr>mem := (mem s)\<lparr>buffer := (buffer (mem s))[slot (mem s) h := y]\<rparr>, p_pc := P_written y h\<rparr>)
    | P_written y h \<Rightarrow> s\<lparr>mem := (mem s)\<lparr>head := h + 1\<rparr>, p_pc := P_idle, pushed := pushed s @ [y]\<rparr>)"

fun consumer_exec :: "'a spsc \<Rightarrow> 'a spsc" where
  "consumer_exec s = (case c_pc s of
      C_idle \<Rightarrow> s\<lparr>c_pc := C_tail (tail (mem s))\<rparr>
    | C_tail t \<Rightarrow> s\<lparr>c_pc := C_head t (of_nat (length (pushed s))), c_seen := length (pushed s)\<rparr>
    | C_head t h \<Rightarrow> (if h = t then s\<lparr>c_pc := C_idle\<rparr>
        else s\<lparr>c_pc := C_read t (buffer (mem s) ! slot (mem s) t)\<rparr>)
    | C_read t y \<Rightarrow> s\<lparr>mem := (mem s)\<lparr>tail := t + 1\<rparr>, c_pc := C_idle, popped := popped s @ [y]\<rparr>)"

fun monitor_exec :: "'a spsc \<Rightarrow> 'a spsc" where
  "monitor_exec s = (case m_pc s of
      M_idle \<Rightarrow> s\<lparr>m_pc := M_head (head (mem s))\<rparr>
    | M_head h \<Rightarrow> s\<lparr>m_pc := M_done (h - tail (mem s))\<rparr>
    | M_done w \<Rightarrow> s\<lparr>m_pc := M_idle\<rparr>)"

fun exec :: "'a act \<Rightarrow> 'a spsc \<Rightarrow> 'a spsc" where
  "exec (Producer x) s = producer_exec x s"
| "exec Consumer s = consumer_exec s"
| "exec Monitor s = monitor_exec s"

section \<open>The invariant\<close>

abbreviation slots :: "'a spsc \<Rightarrow> nat" where
  "slots s \<equiv> length (buffer (mem s))"

fun p_inv :: "'a spsc \<Rightarrow> 'a producer_pc \<Rightarrow> bool" where
  "p_inv s P_idle = True"
| "p_inv s (P_head x h) = (h = of_nat (length (pushed s)))"
| "p_inv s (P_tail x h t) = (h = of_nat (length (pushed s)) \<and> t = of_nat (p_seen s))"
| "p_inv s (P_written x h) = (h = of_nat (length (pushed s)) \<and>
     length (pushed s) < p_seen s + slots s \<and> buffer (mem s) ! (length (pushed s) mod slots s) = x)"

fun c_inv :: "'a spsc \<Rightarrow> 'a consumer_pc \<Rightarrow> bool" where
  "c_inv s C_idle = True"
| "c_inv s (C_tail t) = (t = of_nat (length (popped s)))"
| "c_inv s (C_head t h) = (t = of_nat (length (popped s)) \<and> h = of_nat (c_seen s))"
| "c_inv s (C_read t x) = (t = of_nat (length (popped s)) \<and> length (popped s) < c_seen s \<and>
     x = pushed s ! length (popped s))"

definition counters_ok :: "'a spsc \<Rightarrow> bool" where
  "counters_ok s \<longleftrightarrow> slots s < 2 ^ 64 \<and> PowerOfTwo (ring_N (mem s)) \<and>
     head (mem s) = of_nat (length (pushed s)) \<and> tail (mem s) = of_nat (length (popped s)) \<and>
     length (popped s) \<le> c_seen s \<and> c_seen s \<le> length (pushed s) \<and>
     p_seen s \<le> length (popped s) \<and> length (pushed s) \<le> p_seen s + slots s"

definition contents_ok :: "'a spsc \<Rightarrow> bool" where
  "contents_ok s \<longleftrightarrow> popped s = take (length (popped s)) (pushed s) \<and>
     (\<forall>i. length (popped s) \<le> i \<and> i < length (pushed s) \<longrightarrow>
        buffer (mem s) ! (i mod slots s) = pushed s ! i)"

definition spsc_inv :: "'a spsc \<Rightarrow> bool" where
  "spsc_inv s \<longleftrightarrow> counters_ok s \<and> contents_ok s \<and> p_inv s (p_pc s) \<and> c_inv s (c_pc s)"

lemma counters_okD:
  assumes "counters_ok s"
  shows "slots s < 2 ^ 64" "0 < slots s" "head (mem s) = of_nat (length (pushed s))"
    "tail (mem s) = of_nat (length (popped s))" "length (popped s) \<le> c_seen s"
    "c_seen s \<le> length (pushed s)" "p_seen s \<le> length (popped s)"
    "length (pushed s) \<le> p_seen s + slots s"
  using assms by (auto simp: counters_ok_def PowerOfTwo_def ring_N_def intro!: Nat.gr0I)

lemma of_nat_diff_64:
  assumes "b \<le> a" "a - b \<le> n" "n < 2 ^ 64"
  shows "unat ((of_nat a :: u64) - of_nat b) = a - b"
  using assms by (simp add: unat_of_nat_64 flip: of_nat_diff)

lemma counters_ring_ok:
  assumes c: "counters_ok s" shows "ring_ok (mem s)"
  using counters_okD [OF c] of_nat_diff_64 [of "length (popped s)" "length (pushed s)" "slots s"] c
  by (simp add: ring_ok_def counters_ok_def)

lemma counters_slot: "counters_ok s \<Longrightarrow> slot (mem s) (of_nat i) = i mod slots s"
  using slot_add [OF counters_ring_ok, of s 0 i] by simp

text \<open>The word comparisons of the code decide the comparisons of the counts.\<close>

lemma full_test:
  assumes "counters_ok s"
  shows "(of_nat (length (pushed s)) :: u64) - of_nat (p_seen s) = ring_N (mem s) \<longleftrightarrow>
    length (pushed s) = p_seen s + slots s"
proof -
  note c = counters_okD [OF assms]
  have "unat ((of_nat (length (pushed s)) :: u64) - of_nat (p_seen s)) = length (pushed s) - p_seen s"
    using c by (intro of_nat_diff_64) auto
  moreover have "unat (ring_N (mem s)) = slots s" using c by (simp add: ring_N_def unat_of_nat_64)
  ultimately show ?thesis using c by (auto simp: word_unat_eq_iff)
qed

lemma empty_test:
  assumes "counters_ok s"
  shows "(of_nat (c_seen s) :: u64) = of_nat (length (popped s)) \<longleftrightarrow> c_seen s = length (popped s)"
proof -
  note c = counters_okD [OF assms]
  have "unat ((of_nat (c_seen s) :: u64) - of_nat (length (popped s))) = c_seen s - length (popped s)"
    using c by (intro of_nat_diff_64) auto
  then show ?thesis using c by (metis diff_is_0_eq' eq_iff_diff_eq_0 le_antisym unsigned_0 diff_self diff_is_0_eq)
qed

lemma mod_neq: "(c::nat) \<le> i \<Longrightarrow> i < p \<Longrightarrow> p < c + n \<Longrightarrow> i mod n \<noteq> p mod n"
  using mod_add_inj [of "i - c" n "p - c" c] by auto linarith

text \<open>Each kind of step keeps the invariant.\<close>

lemma spsc_inv_init: "k < 64 \<Longrightarrow> spsc_inv (spsc_init (2 ^ k) d)"
  using ring_new_ok [of k d]
  by (simp add: spsc_inv_def counters_ok_def contents_ok_def spsc_init_def new_ring_def ring_ok_def)

lemma c_inv_frame:
  "c_inv s c \<Longrightarrow> popped t = popped s \<Longrightarrow> c_seen t = c_seen s \<Longrightarrow> c_seen s \<le> length (pushed s) \<Longrightarrow>
     \<exists>ys. pushed t = pushed s @ ys \<Longrightarrow> c_inv t c"
  by (cases c) (auto simp: nth_append)

lemma p_inv_frame:
  "p_inv s p \<Longrightarrow> pushed t = pushed s \<Longrightarrow> p_seen t = p_seen s \<Longrightarrow> buffer (mem t) = buffer (mem s) \<Longrightarrow> p_inv t p"
  by (cases p) auto

lemma push_write_inv:
  assumes inv: "spsc_inv s" and pc: "p_pc s = P_tail x h t" "h - t \<noteq> ring_N (mem s)"
  shows "spsc_inv (s\<lparr>mem := (mem s)\<lparr>buffer := (buffer (mem s))[slot (mem s) h := x]\<rparr>, p_pc := P_written x h\<rparr>)"
proof -
  have c: "counters_ok s" and k: "contents_ok s" and p: "h = of_nat (length (pushed s))"
    "t = of_nat (p_seen s)" and ci: "c_inv s (c_pc s)" using inv pc by (auto simp: spsc_inv_def)
  note cs = counters_okD [OF c]
  have room: "length (pushed s) < p_seen s + slots s" using full_test [OF c] pc(2) p cs by auto
  have sl: "slot (mem s) h = length (pushed s) mod slots s" using counters_slot [OF c] p by simp
  let ?b = "(buffer (mem s))[slot (mem s) h := x]"
  have old: "?b ! (i mod slots s) = buffer (mem s) ! (i mod slots s)"
    if "length (popped s) \<le> i" "i < length (pushed s)" for i
    using mod_neq [of "length (popped s)" i "length (pushed s)" "slots s"] that room cs
    by (simp add: sl nth_list_update_neq)
  have new: "?b ! (length (pushed s) mod slots s) = x" using cs by (simp add: sl)
  show ?thesis
    using c k p ci cs room old new
    by (simp add: spsc_inv_def counters_ok_def contents_ok_def ring_N_def) (auto intro: c_inv_frame)
qed

lemma push_store_inv:
  assumes inv: "spsc_inv s" and pc: "p_pc s = P_written x h"
  shows "spsc_inv (s\<lparr>mem := (mem s)\<lparr>head := h + 1\<rparr>, p_pc := P_idle, pushed := pushed s @ [x]\<rparr>)"
proof -
  let ?s = "s\<lparr>mem := (mem s)\<lparr>head := h + 1\<rparr>, p_pc := P_idle, pushed := pushed s @ [x]\<rparr>"
  have c: "counters_ok s" and k: "contents_ok s" and p: "h = of_nat (length (pushed s))"
    "length (pushed s) < p_seen s + slots s" "buffer (mem s) ! (length (pushed s) mod slots s) = x"
    and ci: "c_inv s (c_pc s)" using inv pc by (auto simp: spsc_inv_def)
  note cs = counters_okD [OF c]
  have "counters_ok ?s" using c p by (auto simp: counters_ok_def ring_N_def)
  moreover have "contents_ok ?s" using k p cs by (auto simp: contents_ok_def nth_append less_Suc_eq)
  moreover have "c_inv ?s (c_pc s)" using ci cs by (auto intro: c_inv_frame)
  ultimately show ?thesis by (simp add: spsc_inv_def)
qed

lemma producer_step_inv: "producer_step s s' \<Longrightarrow> spsc_inv s \<Longrightarrow> spsc_inv s'"
  by (induction rule: producer_step.induct)
    (simp_all add: push_write_inv push_store_inv, auto simp: spsc_inv_def counters_ok_def contents_ok_def intro: c_inv_frame)

lemma consumer_step_inv: "consumer_step s s' \<Longrightarrow> spsc_inv s \<Longrightarrow> spsc_inv s'"
proof (induction rule: consumer_step.induct)
  case (pop_load_tail s)
  then show ?case
    by (auto simp: spsc_inv_def counters_ok_def contents_ok_def intro: p_inv_frame)
next
  case (pop_load_head s t n)
  then show ?case
    by (auto simp: spsc_inv_def counters_ok_def contents_ok_def intro: p_inv_frame)
next
  case (pop_none s t h)
  then show ?case
    by (auto simp: spsc_inv_def counters_ok_def contents_ok_def intro: p_inv_frame)
next
  case (pop_read s t h)
  then have c: "counters_ok s" and k: "contents_ok s" and p: "t = of_nat (length (popped s))"
    "h = of_nat (c_seen s)" and pi: "p_inv s (p_pc s)" by (auto simp: spsc_inv_def)
  note cs = counters_okD [OF c]
  have "c_seen s \<noteq> length (popped s)" using empty_test [OF c] pop_read.hyps(2) p by simp
  then have lt: "length (popped s) < c_seen s" using cs by simp
  have "slot (mem s) t = length (popped s) mod slots s" using counters_slot [OF c] p by simp
  then have "buffer (mem s) ! slot (mem s) t = pushed s ! length (popped s)"
    using k lt cs by (simp add: contents_ok_def)
  then show ?case
    using c k p pi lt by (auto simp: spsc_inv_def counters_ok_def contents_ok_def intro: p_inv_frame)
next
  case (pop_store_tail s t x)
  let ?s' = "s\<lparr>mem := (mem s)\<lparr>tail := t + 1\<rparr>, c_pc := C_idle, popped := popped s @ [x]\<rparr>"
  from pop_store_tail have c: "counters_ok s" and k: "contents_ok s"
    and p: "t = of_nat (length (popped s))" "length (popped s) < c_seen s" "x = pushed s ! length (popped s)"
    and pi: "p_inv s (p_pc s)" by (auto simp: spsc_inv_def)
  note cs = counters_okD [OF c]
  have "counters_ok ?s'" using c p by (auto simp: counters_ok_def ring_N_def)
  moreover have "contents_ok ?s'"
    using k p cs by (auto simp: contents_ok_def take_Suc_conv_app_nth)
  moreover have "p_inv ?s' (p_pc s)" using pi by (rule p_inv_frame) auto
  ultimately show ?case by (simp add: spsc_inv_def)
qed

lemma monitor_step_inv: "monitor_step s s' \<Longrightarrow> spsc_inv s \<Longrightarrow> spsc_inv s'"
  by (induction rule: monitor_step.induct)
    (auto simp: spsc_inv_def counters_ok_def contents_ok_def intro: p_inv_frame c_inv_frame)

lemma reachable_inv: "spsc_reachable (2 ^ k) d s \<Longrightarrow> k < 64 \<Longrightarrow> spsc_inv s"
  by (induction rule: spsc_reachable.induct)
    (auto simp: spsc_step_def intro: spsc_inv_init producer_step_inv consumer_step_inv monitor_step_inv)

lemma reachable_counters: "spsc_reachable (2 ^ k) d s \<Longrightarrow> k < 64 \<Longrightarrow> counters_ok s"
  using reachable_inv [of k d s] by (auto simp: spsc_inv_def)

lemma producer_exec_step: "counters_ok s \<Longrightarrow> producer_step s (producer_exec x s)"
  by (cases "p_pc s") (auto intro: producer_step.intros dest: counters_okD)

lemma consumer_exec_step: "counters_ok s \<Longrightarrow> consumer_step s (consumer_exec s)"
  by (cases "c_pc s") (auto intro: consumer_step.intros dest: counters_okD)

lemma monitor_exec_step: "monitor_step s (monitor_exec s)"
  by (cases "m_pc s") (auto intro: monitor_step.intros)

lemma exec_step: "counters_ok s \<Longrightarrow> spsc_step s (exec a s)"
  by (cases a) (simp_all add: spsc_step_def producer_exec_step consumer_exec_step monitor_exec_step
      del: producer_exec.simps consumer_exec.simps monitor_exec.simps)

lemma fold_exec_reachable:
  "spsc_reachable (2 ^ k) d s \<Longrightarrow> k < 64 \<Longrightarrow> spsc_reachable (2 ^ k) d (fold exec acts s)"
proof (induction acts arbitrary: s)
  case (Cons a acts)
  have "spsc_reachable (2 ^ k) d (exec a s)"
    using Cons.prems by (meson exec_step reachable_counters spsc_reachable.step)
  then show ?case using Cons.IH Cons.prems by simp
qed simp

lemma exec_reachable: "k < 64 \<Longrightarrow> spsc_reachable (2 ^ k) d (fold exec acts (spsc_init (2 ^ k) d))"
  by (rule fold_exec_reachable [OF spsc_reachable.init])

section \<open>Properties\<close>

lemma inv_items:
  assumes "spsc_inv s" shows "pushed s = popped s @ ring_items (mem s)"
proof -
  have c: "counters_ok s" and k: "contents_ok s" using assms by (auto simp: spsc_inv_def)
  note cs = counters_okD [OF c]
  have len: "length (ring_items (mem s)) = length (pushed s) - length (popped s)"
    using cs of_nat_diff_64 [of "length (popped s)" "length (pushed s)" "slots s"] by simp
  have "ring_items (mem s) = drop (length (popped s)) (pushed s)"
  proof (rule nth_equalityI)
    fix i assume i: "i < length (ring_items (mem s))"
    have "ring_items (mem s) ! i = buffer (mem s) ! ((length (popped s) + i) mod slots s)"
      using i len counters_slot [OF c, of "length (popped s) + i"] cs
      by (simp add: ring_items_def)
    then show "ring_items (mem s) ! i = drop (length (popped s)) (pushed s) ! i"
      using k i len cs by (simp add: contents_ok_def)
  qed (simp add: len del: length_ring_items)
  then show ?thesis using k append_take_drop_id [of "length (popped s)" "pushed s"]
    by (simp add: contents_ok_def)
qed

text \<open>
  In every interleaving of the two threads, with every choice of stale index values, the
  consumer has received exactly the oldest elements the producer published, in order, and
  the rest are the elements in the buffer, never more than its capacity.
\<close>

theorem spsc_fifo:
  assumes "spsc_reachable (2 ^ k) d s" and "k < 64"
  shows "pushed s = popped s @ ring_items (mem s) \<and> length (ring_items (mem s)) \<le> slots s"
  using reachable_inv [OF assms] inv_items ring_items_le_cap [OF counters_ring_ok]
  by (auto simp: spsc_inv_def ring_cap_def simp del: length_ring_items)

text \<open>Two pushes and one pop, interleaved.\<close>

definition demo_acts :: "nat act list" where
  "demo_acts = [Producer 7, Producer 7, Consumer, Producer 7, Producer 7, Consumer, Producer 8, Consumer, Producer 8, Producer 8, Consumer, Producer 8]"

theorem spsc_fifo_witness:
  "pushed (fold exec demo_acts (spsc_init (2 ^ 1) 0)) =
     popped (fold exec demo_acts (spsc_init (2 ^ 1) 0)) @
     ring_items (mem (fold exec demo_acts (spsc_init (2 ^ 1) 0)))
   \<and> pushed (fold exec demo_acts (spsc_init (2 ^ 1) 0)) = [7, 8]
   \<and> popped (fold exec demo_acts (spsc_init (2 ^ 1) 0)) = [7]"
  using spsc_fifo [OF exec_reachable [of 1 0 demo_acts]]
  by (simp add: demo_acts_def spsc_init_def new_ring_def ring_N_def slot_def)

text \<open>
  The threads never touch the same slot at once: when the producer is about to write its
  slot and the consumer about to read its own, the slots differ.
\<close>

theorem spsc_race_free:
  assumes "spsc_reachable (2 ^ k) d s" and "k < 64"
    and "p_pc s = P_tail x h t" and "h - t \<noteq> ring_N (mem s)"
    and "c_pc s = C_head t' h'" and "h' \<noteq> t'"
  shows "slot (mem s) h \<noteq> slot (mem s) t'"
proof -
  have inv: "spsc_inv s" using reachable_inv assms(1,2) .
  then have c: "counters_ok s" and p: "h = of_nat (length (pushed s))" "t = of_nat (p_seen s)"
    "t' = of_nat (length (popped s))" "h' = of_nat (c_seen s)" using assms(3,5) by (auto simp: spsc_inv_def)
  note cs = counters_okD [OF c]
  have "length (pushed s) \<noteq> p_seen s + slots s" "c_seen s \<noteq> length (popped s)"
    using full_test [OF c] empty_test [OF c] assms(4,6) p by auto
  then have "length (popped s) < length (pushed s)" "length (pushed s) < length (popped s) + slots s"
    using cs by auto
  then have "length (popped s) mod slots s \<noteq> length (pushed s) mod slots s"
    by (intro mod_neq [of "length (popped s)"]) auto
  then show ?thesis using p counters_slot [OF c] by metis
qed

theorem spsc_race_free_witness:
  "let s = fold exec [Producer 1, Producer 1, Producer 1, Producer 1, Consumer, Consumer, Producer 2, Producer 2] (spsc_init (2 ^ 1) (0::nat))
   in slot (mem s) 1 \<noteq> slot (mem s) 0"
proof -
  let ?acts = "[Producer 1, Producer 1, Producer 1, Producer 1, Consumer, Consumer, Producer 2, Producer 2] :: nat act list"
  have r: "spsc_reachable (2 ^ 1) 0 (fold exec ?acts (spsc_init (2 ^ 1) (0::nat)))"
    by (rule exec_reachable) simp
  show ?thesis unfolding Let_def
    by (rule spsc_race_free [OF r, where x = 2 and t = 0 and h' = 1])
      (simp_all add: spsc_init_def new_ring_def ring_N_def slot_def)
qed



text \<open>The accesses a call still has to make.\<close>

fun p_rank :: "'a producer_pc \<Rightarrow> nat" where
  "p_rank P_idle = 0"
| "p_rank (P_head x h) = 3"
| "p_rank (P_tail x h t) = 2"
| "p_rank (P_written x h) = 1"

fun c_rank :: "'a consumer_pc \<Rightarrow> nat" where
  "c_rank C_idle = 0"
| "c_rank (C_tail t) = 3"
| "c_rank (C_head t h) = 2"
| "c_rank (C_read t x) = 1"

text \<open>
  Both operations are wait-free: a call in progress can always take its next step, whatever
  the other threads have done, and every own step brings it closer to its return, at most
  three after the first load; the other threads' steps do not set it back.
\<close>

theorem spsc_wait_free:
  assumes "spsc_reachable (2 ^ k) d s" and "k < 64"
  shows "(p_pc s \<noteq> P_idle \<longrightarrow> (\<exists>s'. producer_step s s') \<and>
            (\<forall>s'. producer_step s s' \<longrightarrow> p_rank (p_pc s') < p_rank (p_pc s)))
    \<and> (c_pc s \<noteq> C_idle \<longrightarrow> (\<exists>s'. consumer_step s s') \<and>
            (\<forall>s'. consumer_step s s' \<longrightarrow> c_rank (c_pc s') < c_rank (c_pc s)))
    \<and> (\<forall>s'. consumer_step s s' \<or> monitor_step s s' \<longrightarrow> p_pc s' = p_pc s)
    \<and> (\<forall>s'. producer_step s s' \<or> monitor_step s s' \<longrightarrow> c_pc s' = c_pc s)"
proof -
  have c: "counters_ok s" using reachable_counters assms(1,2) .
  note cs = counters_okD [OF c]
  have "\<exists>s'. producer_step s s'" using producer_exec_step [OF c] by blast
  moreover have "\<exists>s'. consumer_step s s'" using consumer_exec_step [OF c] by blast
  moreover have "p_pc s \<noteq> P_idle \<longrightarrow> p_rank (p_pc s') < p_rank (p_pc s)" if "producer_step s s'" for s'
    using that by (cases rule: producer_step.cases) auto
  moreover have "c_pc s \<noteq> C_idle \<longrightarrow> c_rank (c_pc s') < c_rank (c_pc s)" if "consumer_step s s'" for s'
    using that by (cases rule: consumer_step.cases) auto
  moreover have "p_pc s' = p_pc s" if "consumer_step s s' \<or> monitor_step s s'" for s'
    using that by (auto elim!: consumer_stepE monitor_stepE)
  moreover have "c_pc s' = c_pc s" if "producer_step s s' \<or> monitor_step s s'" for s'
    using that by (auto elim!: producer_stepE monitor_stepE)
  ultimately show ?thesis by blast
qed

theorem spsc_wait_free_witness:
  "\<exists>s'. producer_step (fold exec [Producer 5] (spsc_init (2 ^ 2) (0::nat))) s'"
proof -
  have "spsc_reachable (2 ^ 2) 0 (fold exec [Producer 5] (spsc_init (2 ^ 2) (0::nat)))"
    by (rule exec_reachable) simp
  from spsc_wait_free [OF this] show ?thesis by (simp add: spsc_init_def)
qed

text \<open>
  A call that runs without interference is the sequential operation: from an idle producer,
  three steps of a full buffer or four of a buffer with room change the memory exactly as
  \<open>try_push\<close> does, and likewise for the consumer and \<open>try_pop\<close>.
\<close>

theorem spsc_solo:
  assumes "spsc_reachable (2 ^ k) d s" and "k < 64" and "p_pc s = P_idle" and "c_pc s = C_idle"
  shows "mem (fold exec (replicate (if fst (try_push (mem s) x) then 4 else 3) (Producer x)) s)
           = snd (try_push (mem s) x)
    \<and> mem (fold exec (replicate (if fst (try_pop (mem s)) = None then 3 else 4) Consumer) s)
           = snd (try_pop (mem s))"
proof -
  have c: "counters_ok s" using reachable_counters assms(1,2) .
  note cs = counters_okD [OF c]
  show ?thesis
    using assms(3,4) cs(3,4)
    by (simp add: try_push_def try_pop_def numeral_eq_Suc slot_def ring_N_def)
qed

theorem spsc_solo_witness:
  "mem (fold exec (replicate 4 (Producer 9)) (spsc_init (2 ^ 1) (0::nat)))
     = snd (try_push (new_ring (2 ^ 1) 0) 9)"
proof -
  have "spsc_reachable (2 ^ 1) 0 (spsc_init (2 ^ 1) (0::nat))" by (rule spsc_reachable.init)
  from spsc_solo [OF this, of 9] show ?thesis
    by (simp add: spsc_init_def new_ring_def try_push_def ring_N_def)
qed

text \<open>
  The monitoring functions are not snapshots: \<open>size()\<close> reads \<open>head_\<close> and then \<open>tail_\<close>, so a push
  and a pop between the two loads make it return a value near \<open>2 ^ 64\<close>, far above the
  capacity, although the buffer never holds more than \<open>N\<close> elements.
\<close>

theorem spsc_size_exceeds_capacity:
  "\<exists>s w. spsc_reachable 4 (0::nat) s \<and> m_pc s = M_done w \<and> ring_N (mem s) = 4 \<and> 4 < w"
proof -
  let ?acts = "[Monitor, Producer 1, Producer 1, Producer 1, Producer 1,
    Consumer, Consumer, Consumer, Consumer, Monitor] :: nat act list"
  have "spsc_reachable (2 ^ 2) 0 (fold exec ?acts (spsc_init (2 ^ 2) (0::nat)))"
    by (rule exec_reachable) simp
  moreover have "m_pc (fold exec ?acts (spsc_init (2 ^ 2) (0::nat))) = M_done (- 1)"
    "ring_N (mem (fold exec ?acts (spsc_init (2 ^ 2) (0::nat)))) = 4"
    by (simp_all add: spsc_init_def new_ring_def ring_N_def slot_def)
  moreover have "(4::u64) < - 1" by simp
  moreover have "(2::nat) ^ 2 = 4" by simp
  ultimately show ?thesis by metis
qed

end
