(* ===== verification/SpscLinear.thy ===== *)
theory SpscLinear
  imports Spsc
begin

text \<open>
  The fine-grained ring of \<open>Spsc\<close> refines the sequential ring of \<open>RingBuffer\<close>. Every call takes effect at one of its own accesses: a
  push that succeeds at its store of \<open>head_\<close>, a pop that succeeds at its store of \<open>tail_\<close>, and a call that finds the ring full or
  empty at its load of the other index. The sequence of these effects, replayed with the sequential \<open>try_push\<close> and \<open>try_pop\<close>, gives the
  results that the calls return. If a load returns an old value of the other index, a call may fail although there is room or an
  element, but then, too, the ring contains what the successful calls put there.
\<close>

section \<open>Effects and results\<close>

datatype 'a call = PushOk 'a | PushFull 'a | PopSome 'a | PopNone

fun is_push :: "'a call \<Rightarrow> bool" where
  "is_push (PushOk x) = True"
| "is_push (PushFull x) = True"
| "is_push _ = False"

text \<open>The effect of a step, if it has one, and the call that returns with it.\<close>

definition effect :: "'a spsc \<Rightarrow> 'a spsc \<Rightarrow> 'a call list" where
  "effect s s' =
     (case (p_pc s, p_pc s') of
        (P_head _ _, P_tail x h t) \<Rightarrow> (if h - t = ring_N (mem s) then [PushFull x] else [])
      | (P_written x h, P_idle) \<Rightarrow> [PushOk x]
      | _ \<Rightarrow> []) @
     (case (c_pc s, c_pc s') of
        (C_tail _, C_head t h) \<Rightarrow> (if h = t then [PopNone] else [])
      | (C_read t x, C_idle) \<Rightarrow> [PopSome x]
      | _ \<Rightarrow> [])"

definition returned :: "'a spsc \<Rightarrow> 'a spsc \<Rightarrow> 'a call list" where
  "returned s s' =
     (case (p_pc s, p_pc s') of
        (P_tail x h t, P_idle) \<Rightarrow> [PushFull x]
      | (P_written x h, P_idle) \<Rightarrow> [PushOk x]
      | _ \<Rightarrow> []) @
     (case (c_pc s, c_pc s') of
        (C_head t h, C_idle) \<Rightarrow> [PopNone]
      | (C_read t x, C_idle) \<Rightarrow> [PopSome x]
      | _ \<Rightarrow> [])"

text \<open>A step in which a load of the other index, if it makes one, returns its latest value.\<close>

definition fresh_loads :: "'a spsc \<Rightarrow> 'a spsc \<Rightarrow> bool" where
  "fresh_loads s s' \<longleftrightarrow>
     (\<forall>x h. p_pc s = P_head x h \<and> p_pc s' \<noteq> p_pc s \<longrightarrow> p_seen s' = length (popped s)) \<and>
     (\<forall>t. c_pc s = C_tail t \<and> c_pc s' \<noteq> c_pc s \<longrightarrow> c_seen s' = length (pushed s))"

text \<open>Executions with the effects and the results so far, with fresh loads only if \<open>fresh\<close> is set.\<close>

inductive spsc_trace :: "bool \<Rightarrow> nat \<Rightarrow> 'a \<Rightarrow> 'a call list \<Rightarrow> 'a call list \<Rightarrow> 'a spsc \<Rightarrow> bool" for fresh n d where
  trace_init: "spsc_trace fresh n d [] [] (spsc_init n d)"
| trace_step: "spsc_trace fresh n d es rs s \<Longrightarrow> spsc_step s s' \<Longrightarrow> (fresh \<longrightarrow> fresh_loads s s') \<Longrightarrow>
     spsc_trace fresh n d (es @ effect s s') (rs @ returned s s') s'"

section \<open>The specification\<close>

text \<open>
  A sequence of calls on the sequential ring, with the results they should have; \<open>None\<close> if a result differs. With \<open>strict\<close> unset a
  call may fail without a reason.
\<close>

fun replay :: "bool \<Rightarrow> 'a call list \<Rightarrow> 'a ring \<Rightarrow> 'a ring option" where
  "replay strict [] r = Some r"
| "replay strict (PushOk x # es) r = (case try_push r x of (True, q) \<Rightarrow> replay strict es q | _ \<Rightarrow> None)"
| "replay strict (PushFull x # es) r = (if strict \<and> fst (try_push r x) then None else replay strict es r)"
| "replay strict (PopSome x # es) r = (case try_pop r of (Some y, q) \<Rightarrow> if y = x then replay strict es q else None | _ \<Rightarrow> None)"
| "replay strict (PopNone # es) r = (if strict \<and> fst (try_pop r) \<noteq> None then None else replay strict es r)"

lemma replay_append: "replay strict (es @ fs) r = (case replay strict es r of None \<Rightarrow> None | Some q \<Rightarrow> replay strict fs q)"
  by (induction strict es r rule: replay.induct) (auto split: prod.splits option.splits bool.splits)

section \<open>The simulation\<close>

definition same_queue :: "'a ring \<Rightarrow> 'a spsc \<Rightarrow> bool" where
  "same_queue r s \<longleftrightarrow> ring_ok r \<and> ring_cap r = slots s \<and> ring_items r = ring_items (mem s)"

lemma trace_reachable: "spsc_trace fresh n d es rs s \<Longrightarrow> spsc_reachable n d s"
  by (induction rule: spsc_trace.induct) (auto intro: spsc_reachable.intros)

lemma step_idle:
  assumes "spsc_inv s" "spsc_inv s'" "pushed s' = pushed s" "popped s' = popped s" "slots s' = slots s" "same_queue r s"
  shows "same_queue r s'"
  using assms inv_items [OF assms(1)] inv_items [OF assms(2)] by (simp add: same_queue_def)

lemma producer_simulated:
  assumes inv: "spsc_inv s" and st: "producer_step s s'" and q: "same_queue r s" and f: "strict \<longrightarrow> fresh_loads s s'"
  shows "\<exists>r'. replay strict (effect s s') r = Some r' \<and> same_queue r' s'"
proof -
  have inv': "spsc_inv s'" using producer_step_inv [OF st inv] .
  note idle = step_idle [OF inv inv' _ _ _ q]
  from st show ?thesis
  proof cases
    case (push_load_tail x h n)
    have c: "counters_ok s'" "h = of_nat (length (pushed s))" using inv' inv push_load_tail by (auto simp: spsc_inv_def)
    have "strict \<longrightarrow> n = length (popped s)" using f push_load_tail by (auto simp: fresh_loads_def)
    then have "h - of_nat n = ring_N (mem s) \<Longrightarrow> strict \<Longrightarrow> length (ring_items r) = ring_cap r"
      using full_test [OF c(1)] c(2) push_load_tail(1) q inv_items [OF inv]
      by (auto simp: same_queue_def simp del: length_ring_items dest!: arg_cong [of "pushed s" _ length])
    then have "h - of_nat n = ring_N (mem s) \<Longrightarrow> strict \<Longrightarrow> \<not> fst (try_push r x)"
      using rb.push_full [of r x] q by (simp add: same_queue_def)
    then show ?thesis using push_load_tail idle by (auto simp: effect_def split: consumer_pc.splits)
  next
    case (push_store_head x h)
    have c: "counters_ok s" "length (pushed s) < p_seen s + slots s" using inv push_store_head by (auto simp: spsc_inv_def)
    have i: "ring_items (mem s') = ring_items (mem s) @ [x]"
      using inv_items [OF inv] inv_items [OF inv'] push_store_head by simp
    have "length (ring_items r) < ring_cap r"
      using c(2) counters_okD [OF c(1)] arg_cong [OF inv_items [OF inv], of length] q by (simp add: same_queue_def del: length_ring_items)
    then obtain r' where "try_push r x = (True, r')" "ring_items r' = ring_items r @ [x]" "ring_ok r'" "ring_cap r' = ring_cap r"
      using rb.push_room [of r x] q by (auto simp: same_queue_def)
    then show ?thesis using push_store_head i q by (auto simp: effect_def same_queue_def split: consumer_pc.splits)
  qed (use idle in \<open>auto simp: effect_def split: consumer_pc.splits\<close>)
qed

lemma consumer_simulated:
  assumes inv: "spsc_inv s" and st: "consumer_step s s'" and q: "same_queue r s" and f: "strict \<longrightarrow> fresh_loads s s'"
  shows "\<exists>r'. replay strict (effect s s') r = Some r' \<and> same_queue r' s'"
proof -
  have inv': "spsc_inv s'" using consumer_step_inv [OF st inv] .
  note idle = step_idle [OF inv inv' _ _ _ q]
  from st show ?thesis
  proof cases
    case (pop_load_head t n)
    have c: "counters_ok s'" "t = of_nat (length (popped s))" using inv' inv pop_load_head by (auto simp: spsc_inv_def)
    have "strict \<longrightarrow> n = length (pushed s)" using f pop_load_head by (auto simp: fresh_loads_def)
    then have "of_nat n = t \<Longrightarrow> strict \<Longrightarrow> ring_items r = []"
      using empty_test [OF c(1)] c(2) pop_load_head(1) q inv_items [OF inv]
      by (auto simp: same_queue_def simp del: length_ring_items dest!: arg_cong [of "pushed s" _ length])
    then have "of_nat n = t \<Longrightarrow> strict \<Longrightarrow> fst (try_pop r) = None"
      using rb.pop_empty [of r] q by (simp add: same_queue_def)
    then show ?thesis using pop_load_head idle by (auto simp: effect_def split: producer_pc.splits)
  next
    case (pop_store_tail t x)
    have c: "counters_ok s" "length (popped s) < c_seen s" "x = pushed s ! length (popped s)"
      using inv pop_store_tail by (auto simp: spsc_inv_def)
    have "pushed s = popped s @ x # ring_items (mem s')" using inv_items [OF inv'] pop_store_tail by simp
    then have "ring_items r = x # ring_items (mem s')" using inv_items [OF inv] q by (simp add: same_queue_def)
    then obtain r' where "try_pop r = (Some x, r')" "ring_items r' = ring_items (mem s')" "ring_ok r'" "ring_cap r' = ring_cap r"
      using rb.pop_some [of r x] q by (auto simp: same_queue_def)
    then show ?thesis using pop_store_tail q by (auto simp: effect_def same_queue_def split: producer_pc.splits)
  qed (use idle in \<open>auto simp: effect_def split: producer_pc.splits\<close>)
qed

lemma monitor_simulated:
  assumes inv: "spsc_inv s" and st: "monitor_step s s'" and q: "same_queue r s"
  shows "effect s s' = [] \<and> same_queue r s'"
  using st step_idle [OF inv monitor_step_inv [OF st inv] _ _ _ q]
  by (cases rule: monitor_step.cases) (auto simp: effect_def split: producer_pc.splits consumer_pc.splits)

lemma trace_simulated:
  assumes "spsc_trace strict (2 ^ k) d es rs s" and "k < 64"
  shows "\<exists>r. replay strict es (new_ring (2 ^ k) d) = Some r \<and> same_queue r s"
  using assms(1)
proof (induction rule: spsc_trace.induct)
  case trace_init
  show ?case using ring_new_ok [OF assms(2), of d] by (simp add: same_queue_def spsc_init_def ring_cap_def)
next
  case (trace_step es rs s s')
  obtain r where r: "replay strict es (new_ring (2 ^ k) d) = Some r" "same_queue r s" using trace_step.IH by blast
  have inv: "spsc_inv s" using reachable_inv [OF trace_reachable [OF trace_step.hyps(1)] assms(2)] .
  from trace_step.hyps(2) consider "producer_step s s'" | "consumer_step s s'" | "monitor_step s s'" by (auto simp: spsc_step_def)
  then have "\<exists>r'. replay strict (effect s s') r = Some r' \<and> same_queue r' s'"
    using producer_simulated [OF inv _ r(2)] consumer_simulated [OF inv _ r(2)] monitor_simulated [OF inv _ r(2)] trace_step.hyps(3)
    by cases auto
  then show ?case using r(1) by (auto simp: replay_append)
qed

section \<open>The results\<close>

text \<open>The effect that has happened in a call that has not returned yet.\<close>

definition p_pending :: "'a spsc \<Rightarrow> 'a call list" where
  "p_pending s = (case p_pc s of P_tail x h t \<Rightarrow> (if h - t = ring_N (mem s) then [PushFull x] else []) | _ \<Rightarrow> [])"

definition c_pending :: "'a spsc \<Rightarrow> 'a call list" where
  "c_pending s = (case c_pc s of C_head t h \<Rightarrow> (if h = t then [PopNone] else []) | _ \<Rightarrow> [])"

lemma producer_results:
  assumes "producer_step s s'"
  shows "p_pending s @ filter is_push (effect s s') = filter is_push (returned s s') @ p_pending s' \<and>
    filter (\<lambda>c. \<not> is_push c) (effect s s') = [] \<and> filter (\<lambda>c. \<not> is_push c) (returned s s') = [] \<and> c_pending s' = c_pending s"
  using assms
  by (cases rule: producer_step.cases)
    (cases "c_pc s"; simp add: effect_def returned_def p_pending_def c_pending_def ring_N_def)+

lemma consumer_results:
  assumes "consumer_step s s'"
  shows "c_pending s @ filter (\<lambda>c. \<not> is_push c) (effect s s') = filter (\<lambda>c. \<not> is_push c) (returned s s') @ c_pending s' \<and>
    filter is_push (effect s s') = [] \<and> filter is_push (returned s s') = [] \<and> p_pending s' = p_pending s"
  using assms
  by (cases rule: consumer_step.cases)
    (cases "p_pc s"; simp add: effect_def returned_def p_pending_def c_pending_def ring_N_def)+

lemma monitor_results:
  assumes "monitor_step s s'"
  shows "effect s s' = [] \<and> returned s s' = [] \<and> p_pending s' = p_pending s \<and> c_pending s' = c_pending s"
  using assms
  by (cases rule: monitor_step.cases)
    (cases "p_pc s"; cases "c_pc s"; simp add: effect_def returned_def p_pending_def c_pending_def)+

lemma step_results:
  assumes "spsc_step s s'"
  shows "p_pending s @ filter is_push (effect s s') = filter is_push (returned s s') @ p_pending s'"
    and "c_pending s @ filter (\<lambda>c. \<not> is_push c) (effect s s') = filter (\<lambda>c. \<not> is_push c) (returned s s') @ c_pending s'"
  using assms producer_results [of s s'] consumer_results [of s s'] monitor_results [of s s'] unfolding spsc_step_def
  by (elim disjE; simp)+

lemma trace_results:
  "spsc_trace fresh n d es rs s \<Longrightarrow> filter is_push es = filter is_push rs @ p_pending s \<and>
     filter (\<lambda>c. \<not> is_push c) es = filter (\<lambda>c. \<not> is_push c) rs @ c_pending s"
proof (induction rule: spsc_trace.induct)
  case (trace_step es rs s s')
  then show ?case using step_results [OF trace_step.hyps(2)] by simp
qed (simp add: p_pending_def c_pending_def spsc_init_def)

section \<open>Property\<close>

text \<open>
  C3. The concurrent ring refines the sequential one. In every interleaving of the accesses of the two threads, if the loads of the other
  index are fresh, the effects of the calls in the order in which they happen are a run of the sequential \<open>try_push\<close> and \<open>try_pop\<close> on
  a new ring with exactly these results, failures included, and its contents are those of the concurrent ring. With stale loads the same holds
  but a call may fail although it need not. In both cases each thread has returned the results of its effects in order, up to
  one effect of a call that is about to return; so every effect lies between the start and the return of its call.
\<close>

theorem spsc_refines_sequential:
  assumes "spsc_trace fresh (2 ^ k) d es rs s" and "k < 64"
  shows "\<exists>r. replay fresh es (new_ring (2 ^ k) d) = Some r \<and> ring_items r = ring_items (mem s) \<and>
     filter is_push es = filter is_push rs @ p_pending s \<and>
     filter (\<lambda>c. \<not> is_push c) es = filter (\<lambda>c. \<not> is_push c) rs @ c_pending s"
  using trace_simulated [OF assms] trace_results [OF assms(1)] by (auto simp: same_queue_def)

text \<open>A concrete execution: a pop that finds nothing overlaps a push that succeeds.\<close>

lemma exec_trace:
  assumes "spsc_trace fresh (2 ^ k) d es rs s" and "k < 64"
  shows "spsc_trace fresh (2 ^ k) d (es @ effect s (exec a s)) (rs @ returned s (exec a s)) (exec a s)"
proof -
  have "spsc_step s (exec a s)" using exec_step [OF reachable_counters [OF trace_reachable [OF assms(1)] assms(2)]] .
  moreover have "fresh_loads s (exec a s)"
    by (cases a) (auto simp: fresh_loads_def split: producer_pc.splits consumer_pc.splits monitor_pc.splits)
  ultimately show ?thesis using trace_step [OF assms(1)] by blast
qed

fun exec_effects :: "'a act list \<Rightarrow> 'a spsc \<Rightarrow> 'a call list" where
  "exec_effects [] s = []"
| "exec_effects (a # as) s = effect s (exec a s) @ exec_effects as (exec a s)"

fun exec_results :: "'a act list \<Rightarrow> 'a spsc \<Rightarrow> 'a call list" where
  "exec_results [] s = []"
| "exec_results (a # as) s = returned s (exec a s) @ exec_results as (exec a s)"

lemma fold_exec_trace:
  "spsc_trace fresh (2 ^ k) d es rs s \<Longrightarrow> k < 64 \<Longrightarrow>
     spsc_trace fresh (2 ^ k) d (es @ exec_effects as s) (rs @ exec_results as s) (fold exec as s)"
proof (induction as arbitrary: es rs s)
  case (Cons a as)
  from Cons.IH [OF exec_trace [OF Cons.prems, of a] Cons.prems(2)] show ?case by simp
qed simp

definition overlap_acts :: "nat act list" where
  "overlap_acts = [Consumer, Producer 7, Consumer, Producer 7, Producer 7, Producer 7, Consumer, Producer 8]"

theorem spsc_refines_sequential_witness:
  "exec_effects overlap_acts (spsc_init (2 ^ 1) (0::nat)) = [PopNone, PushOk 7] \<and>
   exec_results overlap_acts (spsc_init (2 ^ 1) 0) = [PushOk 7, PopNone] \<and>
   (\<exists>r. replay True [PopNone, PushOk 7] (new_ring (2 ^ 1) (0::nat)) = Some r \<and> ring_items r = [7])"
proof -
  have e: "exec_effects overlap_acts (spsc_init (2 ^ 1) 0) = [PopNone, PushOk 7]"
    "exec_results overlap_acts (spsc_init (2 ^ 1) 0) = [PushOk 7, PopNone]"
    by (simp_all add: overlap_acts_def spsc_init_def new_ring_def ring_N_def slot_def effect_def returned_def)
  have m: "ring_items (mem (fold exec overlap_acts (spsc_init (2 ^ 1) 0))) = [7]"
    by (simp add: overlap_acts_def spsc_init_def new_ring_def ring_N_def slot_def ring_items_def)
  have "spsc_trace True (2 ^ 1) 0 ([] @ exec_effects overlap_acts (spsc_init (2 ^ 1) 0)) ([] @ exec_results overlap_acts (spsc_init (2 ^ 1) 0))
     (fold exec overlap_acts (spsc_init (2 ^ 1) 0))" by (rule fold_exec_trace [OF trace_init]) simp
  from spsc_refines_sequential [OF this] show ?thesis unfolding append_Nil e m using e by fastforce
qed

end
