(* ===== verification/Stage.thy ===== *)
theory Stage
  imports RingBuffer "HOL-Library.Sublist"
begin

text \<open>
  What the worker threads of the pipeline have in common. A stage runs on its own thread
  (\<open>ThreadBase::start\<close>) and shares its rings with the neighbouring stages and its stop flag
  with the controlling thread. The model of a stage is sequential; what the other threads
  do is a schedule: a list of observations, one for each time the stage reads the stop
  flag. An observation says what that read returns, which elements the upstream producer
  pushed into the input ring since the last one, and how many elements the downstream
  consumer took from the output ring. A loop that is still running when the schedule is
  used up has no result (\<open>None\<close>).
\<close>

record 'i obs =
  ob_stop :: bool
  ob_in :: "'i list"
  ob_out :: nat

text \<open>
  \<open>while (!stop.stop_requested()) { if (output.try_push(x)) { pushed = true; break; } yield; }\<close>,
  the back-pressure loop of \<open>TickParser::process_tick\<close> and \<open>Normalizer::process_tick\<close>. The
  result says whether the element was pushed.
\<close>

fun push_spin :: "('i, 'z) obs_scheme list \<Rightarrow> 'i ring \<Rightarrow> 'o ring \<Rightarrow> 'o \<Rightarrow> (bool \<times> 'i ring \<times> 'o ring \<times> ('i, 'z) obs_scheme list) option" where
  "push_spin [] inq outq x = None"
| "push_spin (ob # obs) inq outq x =
     (let inq1 = env_push (ob_in ob) inq; outq1 = env_pop (ob_out ob) outq
      in if ob_stop ob then Some (False, inq1, outq1, obs)
         else (case try_push outq1 x of
                 (True, outq2) \<Rightarrow> Some (True, inq1, outq2, obs)
               | (False, outq2) \<Rightarrow> push_spin obs inq1 outq2 x))"

text \<open>
  \<open>while (!output.try_push(x) && !stop.stop_requested()) yield;\<close>, the variant of \<open>SignalEngine::run\<close>
  that tries before it reads the stop flag.
\<close>

fun push_first :: "('i, 'z) obs_scheme list \<Rightarrow> 'i ring \<Rightarrow> 'o ring \<Rightarrow> 'o
    \<Rightarrow> (bool \<times> 'i ring \<times> 'o ring \<times> ('i, 'z) obs_scheme list) option" where
  "push_first [] inq outq x = (case try_push outq x of
      (True, outq2) \<Rightarrow> Some (True, inq, outq2, [])
    | (False, outq2) \<Rightarrow> None)"
| "push_first (ob # obs) inq outq x = (case try_push outq x of
      (True, outq2) \<Rightarrow> Some (True, inq, outq2, ob # obs)
    | (False, outq2) \<Rightarrow>
        (let inq1 = env_push (ob_in ob) inq; outq1 = env_pop (ob_out ob) outq2
         in if ob_stop ob then Some (False, inq1, outq1, obs) else push_first obs inq1 outq1 x))"

text \<open>
  \<open>while (!stop.stop_requested()) body;\<close>, the outer loop of every stage. The body gets the
  rest of the schedule, because it may read the stop flag itself, and returns what it has
  not used; the test on the lengths only serves the termination of the definition.
\<close>

function stage_loop :: "(('i, 'z) obs_scheme \<Rightarrow> 's \<Rightarrow> 's) \<Rightarrow> (('i, 'z) obs_scheme list \<Rightarrow> 's \<Rightarrow> ('s \<times> ('i, 'z) obs_scheme list) option)
    \<Rightarrow> ('i, 'z) obs_scheme list \<Rightarrow> 's \<Rightarrow> ('s \<times> ('i, 'z) obs_scheme list) option" where
  "stage_loop env body [] s = None"
| "stage_loop env body (ob # obs) s =
     (let s1 = env ob s
      in if ob_stop ob then Some (s1, obs)
         else (case body obs s1 of
                 None \<Rightarrow> None
               | Some (s2, rest) \<Rightarrow>
                   (if length rest \<le> length obs then stage_loop env body rest s2 else None)))"
  by pat_completeness auto
termination
  by (relation "measure (\<lambda>(env, body, obs, s). length obs)") auto

text \<open>How often a schedule shows the stop flag set, and that it stays set once it is.\<close>

definition stops :: "('i, 'z) obs_scheme list \<Rightarrow> nat" where
  "stops obs = length (filter ob_stop obs)"

definition stop_persists :: "('i, 'z) obs_scheme list \<Rightarrow> bool" where
  "stop_persists obs \<longleftrightarrow> sorted_wrt (\<lambda>a b. ob_stop a \<longrightarrow> ob_stop b) obs"

text \<open>Every element the upstream thread pushes has a property.\<close>

definition obs_ok :: "('i \<Rightarrow> bool) \<Rightarrow> ('i, 'z) obs_scheme list \<Rightarrow> bool" where
  "obs_ok ok obs \<longleftrightarrow> (\<forall>ob \<in> set obs. \<forall>x \<in> set (ob_in ob). ok x)"

section \<open>Schedules\<close>

text \<open>
  Generic facts on a schedule \<open>obs\<close> whose observations may show a set flag \<open>P\<close>: how often it does, that the flag
  persists, and what a construct leaves of the schedule: it has met no set flag, or at most \<open>k\<close>
  and everything that follows shows the flag set.
\<close>

definition flags :: "('o \<Rightarrow> bool) \<Rightarrow> 'o list \<Rightarrow> nat" where
  "flags P obs = length (filter P obs)"

definition persists :: "('o \<Rightarrow> bool) \<Rightarrow> 'o list \<Rightarrow> bool" where
  "persists P obs \<longleftrightarrow> sorted_wrt (\<lambda>a b. P a \<longrightarrow> P b) obs"

definition leaves :: "('o \<Rightarrow> bool) \<Rightarrow> nat \<Rightarrow> 'o list \<Rightarrow> 'o list \<Rightarrow> bool" where
  "leaves P k obs rest \<longleftrightarrow> suffix rest obs \<and>
     (flags P rest = flags P obs \<or> flags P obs \<le> flags P rest + k \<and> (\<forall>ob \<in> set rest. P ob))"

lemma flags_simps [simp]: "flags P [] = 0" "flags P (ob # obs) = (if P ob then Suc (flags P obs) else flags P obs)"
  "flags P (xs @ ys) = flags P xs + flags P ys"
  by (simp_all add: flags_def)

lemma persists_Cons [simp]: "persists P (ob # obs) \<longleftrightarrow> (P ob \<longrightarrow> (\<forall>o' \<in> set obs. P o')) \<and> persists P obs"
  by (auto simp: persists_def)

lemma persists_suffix: "persists P obs \<Longrightarrow> suffix rest obs \<Longrightarrow> persists P rest"
  by (auto simp: persists_def suffix_def sorted_wrt_append)

lemma leaves_refl: "leaves P k obs obs"
  by (simp add: leaves_def)

lemma leaves_stop: "persists P (ob # obs) \<Longrightarrow> P ob \<Longrightarrow> leaves P (Suc k) (ob # obs) obs"
  by (simp add: leaves_def suffix_ConsI)

lemma leaves_Cons: "\<not> P ob \<Longrightarrow> leaves P k obs rest \<Longrightarrow> leaves P k (ob # obs) rest"
  by (auto simp: leaves_def suffix_ConsI)

lemma leaves_trans: "leaves P j obs r \<Longrightarrow> leaves P k r rest \<Longrightarrow> leaves P (j + k) obs rest"
  by (auto simp: leaves_def intro: suffix_order.trans dest: set_mono_suffix)

lemma leaves_mono: "leaves P j obs rest \<Longrightarrow> j \<le> k \<Longrightarrow> leaves P k obs rest"
  by (auto simp: leaves_def)

lemma leaves_length: "leaves P k obs rest \<Longrightarrow> length rest \<le> length obs"
  by (auto simp: leaves_def dest: suffix_length_le)

text \<open>An outer loop that goes on with the rest: its next reading of the flag, or as many set flags as before.\<close>

lemma leaves_again:
  assumes "persists P obs" and "k < flags P obs" and "leaves P k obs rest"
  shows "persists P rest" "length rest \<le> length obs"
    "flags P rest = flags P obs \<or> (\<exists>ob r. rest = ob # r \<and> P ob \<and> leaves P (Suc k) obs r)"
proof -
  show "persists P rest" using assms(1,3) persists_suffix by (auto simp: leaves_def)
  show "length rest \<le> length obs" using leaves_length [OF assms(3)] .
  show "flags P rest = flags P obs \<or> (\<exists>ob r. rest = ob # r \<and> P ob \<and> leaves P (Suc k) obs r)"
    using assms(2,3) by (cases rest) (auto simp: leaves_def dest: suffix_ConsD)
qed

section \<open>The back-pressure loop\<close>

lemma obs_ok_Cons [simp]: "obs_ok ok (ob # obs) \<longleftrightarrow> (\<forall>x \<in> set (ob_in ob). ok x) \<and> obs_ok ok obs"
  by (simp add: obs_ok_def)

lemma obs_ok_Nil [simp]: "obs_ok ok []"
  by (simp add: obs_ok_def)

lemma obs_ok_suffix: "obs_ok ok obs \<Longrightarrow> suffix rest obs \<Longrightarrow> obs_ok ok rest"
  by (auto simp: obs_ok_def suffix_def)

lemma stops_simps [simp]: "stops [] = 0" "stops (ob # obs) = (if ob_stop ob then Suc (stops obs) else stops obs)"
  "stops (xs @ ys) = stops xs + stops ys"
  by (simp_all add: stops_def)

lemma stops_pos: "0 < stops obs \<longleftrightarrow> (\<exists>ob \<in> set obs. ob_stop ob)"
  by (auto simp: stops_def filter_empty_conv)

lemma stop_persists_suffix: "stop_persists obs \<Longrightarrow> suffix rest obs \<Longrightarrow> stop_persists rest"
  by (auto simp: stop_persists_def suffix_def sorted_wrt_append)

lemma stop_persists_all: "stop_persists (ob # obs) \<Longrightarrow> ob_stop ob \<Longrightarrow> \<forall>o' \<in> set obs. ob_stop o'"
  by (simp add: stop_persists_def)

lemma push_spin_rest:
  "push_spin obs inq outq x = Some (b, inq', outq', rest) \<Longrightarrow>
     suffix rest obs \<and> stops obs \<le> Suc (stops rest)"
proof (induction obs arbitrary: inq outq)
  case (Cons ob obs)
  show ?case
  proof (cases "ob_stop ob")
    case True
    with Cons.prems show ?thesis by (auto simp: suffix_ConsI)
  next
    case False
    with Cons show ?thesis
      by (auto simp: Let_def split: prod.splits bool.splits intro: suffix_ConsI)
  qed
qed simp

lemma push_spin_returns: "0 < stops obs \<Longrightarrow> push_spin obs inq outq x \<noteq> None"
  by (induction obs inq outq x rule: push_spin.induct) (auto simp: Let_def split: prod.splits bool.splits)

text \<open>The loop gives up only because a stop was requested.\<close>

lemma push_spin_stop: "push_spin obs inq outq x = Some (False, inq', outq', rest) \<Longrightarrow> 0 < stops obs"
  by (induction obs inq outq x rule: push_spin.induct)
    (auto simp: Let_def split: if_splits prod.splits bool.splits)

lemma push_spin_ok:
  assumes "ring_ok inq" and "ring_ok outq" and "push_spin obs inq outq x = Some (b, inq', outq', rest)"
  shows "ring_ok inq' \<and> ring_ok outq' \<and> ring_cap inq' = ring_cap inq \<and> ring_cap outq' = ring_cap outq \<and>
    (\<exists>n. ring_items outq' = drop n (ring_items outq) @ (if b then [x] else []))"
  using assms
proof (induction obs inq outq x rule: push_spin.induct)
  case (2 ob obs inq outq x)
  define inq1 outq1 where "inq1 = env_push (ob_in ob) inq" and "outq1 = env_pop (ob_out ob) outq"
  have i: "ring_ok inq1" "ring_cap inq1 = ring_cap inq" using env_push_ok [OF "2.prems"(1)] by (auto simp: inq1_def)
  have o: "ring_ok outq1" "ring_cap outq1 = ring_cap outq" "ring_items outq1 = drop (ob_out ob) (ring_items outq)"
    using env_pop_ok [OF "2.prems"(2)] by (auto simp: outq1_def)
  show ?case
  proof (cases "ob_stop ob")
    case True
    with "2.prems" i o show ?thesis by (auto simp: inq1_def outq1_def)
  next
    case False
    show ?thesis
      using o(1)
    proof (cases rule: rb.push_cases [of _ x])
      case full
      then have "push_spin obs inq1 outq1 x = Some (b, inq', outq', rest)"
        using "2.prems"(3) False by (simp add: inq1_def outq1_def)
      then obtain n where "ring_items outq' = drop n (ring_items outq1) @ (if b then [x] else [])"
        "ring_ok inq'" "ring_ok outq'" "ring_cap inq' = ring_cap inq1" "ring_cap outq' = ring_cap outq1"
        using "2.IH" [OF inq1_def outq1_def False full(2) [symmetric] refl i(1) o(1)] by auto
      then show ?thesis using i o by (auto intro!: exI [of _ "n + ob_out ob"])
    next
      case (room q')
      then show ?thesis using "2.prems"(3) False i o by (auto simp: inq1_def outq1_def)
    qed
  qed
qed simp

lemma env_push_set: "ring_ok rb \<Longrightarrow> set (ring_items (env_push xs rb)) \<subseteq> set (ring_items rb) \<union> set xs"
  using env_push_ok [of rb xs] by auto

lemma push_spin_input:
  "ring_ok inq \<Longrightarrow> push_spin obs inq outq x = Some (b, inq', outq', rest) \<Longrightarrow> obs_ok P obs \<Longrightarrow>
     \<forall>y \<in> set (ring_items inq). P y \<Longrightarrow> \<forall>y \<in> set (ring_items inq'). P y"
proof (induction obs arbitrary: inq outq)
  case (Cons ob obs)
  have ok: "ring_ok (env_push (ob_in ob) inq)" using env_push_ok [OF Cons.prems(1)] by blast
  have "\<forall>y \<in> set (ring_items (env_push (ob_in ob) inq)). P y"
    using env_push_set [OF Cons.prems(1), of "ob_in ob"] Cons.prems(3,4) by auto
  then show ?case using Cons.prems(2,3) Cons.IH [OF ok]
    by (auto simp: Let_def split: if_splits prod.splits bool.splits)
qed simp

subsection \<open>The variant that tries first\<close>

lemma push_first_rest:
  "push_first obs inq outq x = Some (b, inq', outq', rest) \<Longrightarrow>
     suffix rest obs \<and> stops obs \<le> Suc (stops rest)"
proof (induction obs inq outq x rule: push_first.induct)
  case (2 ob obs inq outq x)
  then show ?case
    by (cases "ob_stop ob") (auto simp: Let_def split: prod.splits bool.splits intro: suffix_ConsI)
qed (auto split: prod.splits bool.splits)

lemma push_first_returns: "0 < stops obs \<Longrightarrow> push_first obs inq outq x \<noteq> None"
  by (induction obs inq outq x rule: push_first.induct) (auto simp: Let_def split: prod.splits bool.splits)

lemma push_first_stop: "push_first obs inq outq x = Some (False, inq', outq', rest) \<Longrightarrow> 0 < stops obs"
  by (induction obs inq outq x rule: push_first.induct)
    (auto simp: Let_def split: if_splits prod.splits bool.splits)

lemma push_first_ok:
  assumes "ring_ok inq" and "ring_ok outq" and "push_first obs inq outq x = Some (b, inq', outq', rest)"
    and "obs_ok P obs" and "\<forall>y \<in> set (ring_items inq). P y"
  shows "ring_ok inq' \<and> ring_ok outq' \<and> (\<forall>y \<in> set (ring_items inq'). P y) \<and>
    (\<exists>n. ring_items outq' = drop n (ring_items outq) @ (if b then [x] else []))"
  using assms
proof (induction obs arbitrary: inq outq)
  case Nil
  from Nil.prems(2) show ?case
    by (cases rule: rb.push_cases [of _ x]) (use Nil.prems in \<open>auto intro!: exI [of _ 0]\<close>)
next
  case (Cons ob obs)
  from Cons.prems(2) show ?case
  proof (cases rule: rb.push_cases [of _ x])
    case (room q')
    then show ?thesis using Cons.prems by (auto intro!: exI [of _ 0])
  next
    case full
    define inq1 outq1 where "inq1 = env_push (ob_in ob) inq" and "outq1 = env_pop (ob_out ob) outq"
    have i: "ring_ok inq1" "\<forall>y \<in> set (ring_items inq1). P y"
      using env_push_ok [OF Cons.prems(1), of "ob_in ob"] env_push_set [OF Cons.prems(1), of "ob_in ob"] Cons.prems(4,5)
      by (auto simp: inq1_def)
    have o: "ring_ok outq1" "ring_items outq1 = drop (ob_out ob) (ring_items outq)"
      using env_pop_ok [OF Cons.prems(2)] by (auto simp: outq1_def)
    show ?thesis
    proof (cases "ob_stop ob")
      case True
      then show ?thesis using Cons.prems(3) full(2) i o by (auto simp: Let_def inq1_def outq1_def)
    next
      case False
      then have "push_first obs inq1 outq1 x = Some (b, inq', outq', rest)"
        using Cons.prems(3) full(2) by (simp add: Let_def inq1_def outq1_def)
      then obtain n where "ring_items outq' = drop n (ring_items outq1) @ (if b then [x] else [])"
        "ring_ok inq'" "ring_ok outq'" "\<forall>y \<in> set (ring_items inq'). P y"
        using Cons.IH [OF i(1) o(1)] Cons.prems(4) i(2) by auto
      then show ?thesis using o(2) by (auto intro!: exI [of _ "n + ob_out ob"])
    qed
  qed
qed

section \<open>The stage interface\<close>

text \<open>
  The contract of a stage: what other threads do and one round of its loop keep the stage's
  invariant; the round reads ahead in the schedule, past at most one observation of a set
  stop flag; and it returns if the flag is set in the schedule at all.
\<close>

locale stage =
  fixes env :: "('i, 'z) obs_scheme \<Rightarrow> 's \<Rightarrow> 's" and body :: "('i, 'z) obs_scheme list \<Rightarrow> 's \<Rightarrow> ('s \<times> ('i, 'z) obs_scheme list) option"
    and I :: "'s \<Rightarrow> bool" and ok :: "'i \<Rightarrow> bool"
  assumes env_inv: "I s \<Longrightarrow> \<forall>x \<in> set (ob_in ob). ok x \<Longrightarrow> I (env ob s)"
    and body_inv: "I s \<Longrightarrow> obs_ok ok obs \<Longrightarrow> body obs s = Some (s', rest) \<Longrightarrow> I s'"
    and body_rest: "body obs s = Some (s', rest) \<Longrightarrow> suffix rest obs \<and> stops obs \<le> Suc (stops rest)"
    and body_returns: "0 < stops obs \<Longrightarrow> body obs s \<noteq> None"
begin

lemma loop_inv: "I s \<Longrightarrow> obs_ok ok obs \<Longrightarrow> stage_loop env body obs s = Some (s', rest) \<Longrightarrow> I s'"
proof (induction "length obs" arbitrary: obs s rule: less_induct)
  case less
  show ?case
  proof (cases obs)
    case (Cons ob os)
    then have ok: "\<forall>x \<in> set (ob_in ob). ok x" "obs_ok ok os" using less.prems by auto
    show ?thesis
    proof (cases "ob_stop ob")
      case True
      with less.prems Cons ok show ?thesis by (auto intro: env_inv)
    next
      case False
      with less.prems Cons obtain s2 r where b: "body os (env ob s) = Some (s2, r)"
        "length r \<le> length os" "stage_loop env body r s2 = Some (s', rest)"
        by (auto simp: Let_def split: option.splits if_splits)
      have "I s2" using body_inv [OF env_inv ok(2) b(1)] less.prems ok by blast
      then show ?thesis using less.hyps [of r s2] b Cons obs_ok_suffix [OF ok(2)] body_rest [OF b(1)] by simp
    qed
  qed (use less.prems in simp)
qed

lemma loop_rest: "stage_loop env body obs s = Some (s', rest) \<Longrightarrow> suffix rest obs"
proof (induction "length obs" arbitrary: obs s rule: less_induct)
  case less
  show ?case
  proof (cases obs)
    case (Cons ob os)
    show ?thesis
    proof (cases "ob_stop ob")
      case False
      with less.prems Cons obtain s2 r where b: "body os (env ob s) = Some (s2, r)"
        "length r \<le> length os" "stage_loop env body r s2 = Some (s', rest)"
        by (auto simp: Let_def split: option.splits if_splits)
      then have "suffix rest r" "suffix r os" using less.hyps [of r s2] body_rest [OF b(1)] Cons by auto
      then show ?thesis using Cons by (auto intro: suffix_ConsI suffix_order.trans)
    qed (use less.prems Cons in \<open>auto simp: suffix_ConsI\<close>)
  qed (use less.prems in simp)
qed

text \<open>The loop stops once the flag stays set for two reads.\<close>

lemma loop_returns:
  "stop_persists obs \<Longrightarrow> 2 \<le> stops obs \<or> (0 < stops obs \<and> ob_stop (hd obs)) \<Longrightarrow>
     \<exists>r. stage_loop env body obs s = Some r"
proof (induction "length obs" arbitrary: obs s rule: less_induct)
  case less
  obtain ob os where obs: "obs = ob # os" using less.prems(2) by (cases obs) auto
  show ?case
  proof (cases "ob_stop ob")
    case False
    then have two: "2 \<le> stops os" using less.prems(2) obs by simp
    then obtain s2 rest where b: "body os (env ob s) = Some (s2, rest)"
      using body_returns [of os] by fastforce
    have rest: "suffix rest os" "stops os \<le> Suc (stops rest)" using body_rest [OF b] by auto
    then obtain used where used: "os = used @ rest" by (auto simp: suffix_def)
    have per: "stop_persists os" "stop_persists rest"
      using less.prems(1) rest obs stop_persists_suffix by (auto simp: stop_persists_def)
    have "2 \<le> stops rest \<or> (0 < stops rest \<and> ob_stop (hd rest))"
    proof (cases "stops used = 0")
      case False
      then obtain u where "u \<in> set used" "ob_stop u" using stops_pos [of used] by auto
      then have "\<forall>o' \<in> set rest. ob_stop o'" using per(1) used by (auto simp: stop_persists_def sorted_wrt_append)
      moreover have "rest \<noteq> []" using two rest by auto
      ultimately show ?thesis using two rest by auto
    qed (use two used in simp)
    moreover have "length rest < length obs" using rest obs suffix_length_le by fastforce
    ultimately obtain r where "stage_loop env body rest s2 = Some r" using less.hyps per(2) by blast
    then show ?thesis using False obs b rest suffix_length_le [of rest os] by simp
  qed (simp add: obs)
qed

end

end
