(* ===== verification/ThreadBase.thy ===== *)
theory ThreadBase
  imports Stage
begin

text \<open>
  The life cycle of a stage's thread, \<open>core/ThreadBase.hpp\<close>, as a transition system of the
  controlling thread (which calls \<open>start\<close>, \<open>stop\<close> and finally the destructor) and of every worker
  it has launched. Each access to \<open>stop_flag_\<close>, \<open>running_\<close> and \<open>thread_\<close> is a step. The body
  \<open>run()\<close> is opaque: it may return or throw at any time, which look the same from outside. The
  parameter \<open>contract\<close> says whether the subclass has the destructor the class comment asks
  for, one that calls \<open>stop()\<close>.
\<close>

datatype worker_pc =
    W_spawned   \<comment> \<open>launched, the lambda has not started\<close>
  | W_running   \<comment> \<open>\<open>running_\<close> is set, inside \<open>run()\<close>\<close>
  | W_returned  \<comment> \<open>\<open>run()\<close> has returned or thrown, the guard has not run\<close>
  | W_done      \<comment> \<open>the lambda has finished\<close>

datatype control_pc =
    K_idle
  | K_starting        \<comment> \<open>\<open>start()\<close>: the stop flag is cleared\<close>
  | K_stopping        \<comment> \<open>\<open>stop()\<close>: the stop flag is set, about to join\<close>
  | K_dtor_stopping   \<comment> \<open>the same, called by the destructor of the subclass\<close>
  | K_members_gone    \<comment> \<open>the members of the subclass are destroyed, \<open>~ThreadBase\<close> starts\<close>
  | K_destroyed
  | K_abort           \<comment> \<open>the assertion of \<open>~ThreadBase\<close> fails\<close>

record tbase =
  control :: control_pc
  joinable :: bool
  running :: bool
  stop_flag :: bool
  workers :: "worker_pc list"

definition tbase_init :: tbase where
  "tbase_init = \<lparr>control = K_idle, joinable = False, running = False, stop_flag = False, workers = []\<rparr>"

inductive control_step :: "bool \<Rightarrow> tbase \<Rightarrow> tbase \<Rightarrow> bool" for contract where
  start_noop: "control s = K_idle \<Longrightarrow> joinable s \<Longrightarrow> control_step contract s s"
| start_clear: "control s = K_idle \<Longrightarrow> \<not> joinable s \<Longrightarrow>
    control_step contract s (s\<lparr>control := K_starting, stop_flag := False\<rparr>)"
| start_spawn: "control s = K_starting \<Longrightarrow>
    control_step contract s (s\<lparr>control := K_idle, joinable := True, workers := workers s @ [W_spawned]\<rparr>)"
| stop_request: "control s = K_idle \<Longrightarrow>
    control_step contract s (s\<lparr>control := K_stopping, stop_flag := True\<rparr>)"
| stop_none: "control s = K_stopping \<Longrightarrow> \<not> joinable s \<Longrightarrow>
    control_step contract s (s\<lparr>control := K_idle\<rparr>)"
| stop_join: "control s = K_stopping \<Longrightarrow> joinable s \<Longrightarrow> workers s = ws @ [W_done] \<Longrightarrow>
    control_step contract s (s\<lparr>control := K_idle, joinable := False, workers := ws\<rparr>)"
| dtor_stop: "contract \<Longrightarrow> control s = K_idle \<Longrightarrow>
    control_step contract s (s\<lparr>control := K_dtor_stopping, stop_flag := True\<rparr>)"
| dtor_none: "control s = K_dtor_stopping \<Longrightarrow> \<not> joinable s \<Longrightarrow>
    control_step contract s (s\<lparr>control := K_members_gone\<rparr>)"
| dtor_join: "control s = K_dtor_stopping \<Longrightarrow> joinable s \<Longrightarrow> workers s = ws @ [W_done] \<Longrightarrow>
    control_step contract s (s\<lparr>control := K_members_gone, joinable := False, workers := ws\<rparr>)"
| dtor_default: "\<not> contract \<Longrightarrow> control s = K_idle \<Longrightarrow>
    control_step contract s (s\<lparr>control := K_members_gone\<rparr>)"
| dtor_ok: "control s = K_members_gone \<Longrightarrow> \<not> joinable s \<Longrightarrow>
    control_step contract s (s\<lparr>control := K_destroyed\<rparr>)"
| dtor_assert: "control s = K_members_gone \<Longrightarrow> joinable s \<Longrightarrow>
    control_step contract s (s\<lparr>control := K_abort\<rparr>)"

inductive worker_step :: "tbase \<Rightarrow> tbase \<Rightarrow> bool" where
  worker_begin: "i < length (workers s) \<Longrightarrow> workers s ! i = W_spawned \<Longrightarrow>
    worker_step s (s\<lparr>running := True, workers := (workers s)[i := W_running]\<rparr>)"
| worker_return: "i < length (workers s) \<Longrightarrow> workers s ! i = W_running \<Longrightarrow>
    worker_step s (s\<lparr>workers := (workers s)[i := W_returned]\<rparr>)"
| worker_guard: "i < length (workers s) \<Longrightarrow> workers s ! i = W_returned \<Longrightarrow>
    worker_step s (s\<lparr>running := False, workers := (workers s)[i := W_done]\<rparr>)"

definition thread_step :: "bool \<Rightarrow> tbase \<Rightarrow> tbase \<Rightarrow> bool" where
  "thread_step contract s s' \<longleftrightarrow> control_step contract s s' \<or> worker_step s s'"

inductive thread_reachable :: "bool \<Rightarrow> tbase \<Rightarrow> bool" for contract where
  init: "thread_reachable contract tbase_init"
| step: "thread_reachable contract s \<Longrightarrow> thread_step contract s s' \<Longrightarrow> thread_reachable contract s'"

inductive_cases control_stepE: "control_step contract s s'"
inductive_cases worker_stepE: "worker_step s s'"

definition is_running :: "tbase \<Rightarrow> bool" where
  "is_running s = running s"

text \<open>\<open>StopToken::stop_requested\<close>: the token holds a pointer to the flag, which may be null.\<close>

definition stop_requested :: "tbase option \<Rightarrow> bool" where
  "stop_requested flag = (case flag of None \<Rightarrow> False | Some s \<Rightarrow> stop_flag s)"

text \<open>An execution: the states it goes through.\<close>

fun thread_path :: "bool \<Rightarrow> tbase list \<Rightarrow> bool" where
  "thread_path contract (s # s' # ss) \<longleftrightarrow> thread_step contract s s' \<and> thread_path contract (s' # ss)"
| "thread_path contract ss \<longleftrightarrow> True"

section \<open>Invariant\<close>

definition thread_inv :: "bool \<Rightarrow> tbase \<Rightarrow> bool" where
  "thread_inv contract s \<longleftrightarrow>
     (joinable s \<longleftrightarrow> workers s \<noteq> []) \<and> length (workers s) \<le> 1 \<and>
     (running s \<longleftrightarrow> workers s = [W_running] \<or> workers s = [W_returned]) \<and>
     (control s = K_starting \<longrightarrow> workers s = []) \<and>
     (control s = K_stopping \<or> control s = K_dtor_stopping \<longrightarrow> stop_flag s) \<and>
     (control s = K_destroyed \<longrightarrow> workers s = []) \<and>
     (contract \<longrightarrow> control s \<noteq> K_abort \<and> (control s = K_members_gone \<longrightarrow> workers s = []))"

lemma thread_inv_init: "thread_inv contract tbase_init"
  by (simp add: thread_inv_def tbase_init_def)

lemma one_worker: "length ws \<le> 1 \<Longrightarrow> i < length ws \<Longrightarrow> ws ! i = w \<Longrightarrow> ws = [w] \<and> i = 0"
  by (cases ws) auto

lemma control_step_inv: "thread_inv contract s \<Longrightarrow> control_step contract s s' \<Longrightarrow> thread_inv contract s'"
proof (erule control_step.cases)
  fix t ws assume "thread_inv contract s" "s = t" "workers t = ws @ [W_done]" "joinable t"
    "s' = t\<lparr>control := K_idle, joinable := False, workers := ws\<rparr>"
  then show "thread_inv contract s'" by (cases ws) (simp_all add: thread_inv_def)
next
  fix t ws assume "thread_inv contract s" "s = t" "workers t = ws @ [W_done]" "joinable t"
    "s' = t\<lparr>control := K_members_gone, joinable := False, workers := ws\<rparr>"
  then show "thread_inv contract s'" by (cases ws) (simp_all add: thread_inv_def)
next
  fix t assume "thread_inv contract s" "s = t" "control t = K_members_gone" "joinable t" "s' = t\<lparr>control := K_abort\<rparr>"
  then show "thread_inv contract s'" by (auto simp: thread_inv_def)
qed (simp_all add: thread_inv_def)

lemma worker_step_inv: "thread_inv contract s \<Longrightarrow> worker_step s s' \<Longrightarrow> thread_inv contract s'"
proof (erule worker_step.cases)
  fix i t assume a: "thread_inv contract s" "s = t" "i < length (workers t)" "workers t ! i = W_spawned"
    "s' = t\<lparr>running := True, workers := (workers t)[i := W_running]\<rparr>"
  then have "workers t = [W_spawned]" "i = 0" using one_worker [of "workers t" i W_spawned] by (simp_all add: thread_inv_def)
  with a show "thread_inv contract s'" by (simp add: thread_inv_def)
next
  fix i t assume a: "thread_inv contract s" "s = t" "i < length (workers t)" "workers t ! i = W_running"
    "s' = t\<lparr>workers := (workers t)[i := W_returned]\<rparr>"
  then have "workers t = [W_running]" "i = 0" using one_worker [of "workers t" i W_running] by (simp_all add: thread_inv_def)
  with a show "thread_inv contract s'" by (simp add: thread_inv_def)
next
  fix i t assume a: "thread_inv contract s" "s = t" "i < length (workers t)" "workers t ! i = W_returned"
    "s' = t\<lparr>running := False, workers := (workers t)[i := W_done]\<rparr>"
  then have "workers t = [W_returned]" "i = 0" using one_worker [of "workers t" i W_returned] by (simp_all add: thread_inv_def)
  with a show "thread_inv contract s'" by (simp add: thread_inv_def)
qed

lemma thread_reachable_inv: "thread_reachable contract s \<Longrightarrow> thread_inv contract s"
  by (induction rule: thread_reachable.induct)
    (auto simp: thread_inv_init thread_step_def intro: control_step_inv worker_step_inv)

text \<open>The remaining steps of a worker.\<close>

fun worker_rank :: "worker_pc \<Rightarrow> nat" where
  "worker_rank W_spawned = 3"
| "worker_rank W_running = 2"
| "worker_rank W_returned = 1"
| "worker_rank W_done = 0"

lemma worker_enabled: "workers s = [w] \<Longrightarrow> w \<noteq> W_done \<Longrightarrow>
    \<exists>s' w'. worker_step s s' \<and> workers s' = [w'] \<and> worker_rank w' < worker_rank w \<and> control s' = control s \<and>
      joinable s' = joinable s \<and> stop_flag s' = stop_flag s"
  using worker_begin [of 0 s] worker_return [of 0 s] worker_guard [of 0 s] by (cases w) force+

lemma join_possible:
  "workers s = [w] \<Longrightarrow> joinable s \<Longrightarrow> control s = K_stopping \<Longrightarrow>
     \<exists>s'. (thread_step contract)\<^sup>*\<^sup>* s s' \<and> control s' = K_idle \<and> workers s' = [] \<and> \<not> joinable s'"
proof (induction "worker_rank w" arbitrary: w s rule: less_induct)
  case less
  show ?case
  proof (cases "w = W_done")
    case True
    then have "thread_step contract s (s\<lparr>control := K_idle, joinable := False, workers := []\<rparr>)"
      using less.prems stop_join [of s "[]" contract] by (simp add: thread_step_def)
    then show ?thesis by (intro exI conjI, rule r_into_rtranclp) auto
  next
    case False
    obtain s1 w' where s1: "worker_step s s1" "workers s1 = [w']" "worker_rank w' < worker_rank w" "control s1 = control s"
      "joinable s1 = joinable s" using worker_enabled [OF less.prems(1) False] by blast
    then obtain s' where s': "(thread_step contract)\<^sup>*\<^sup>* s1 s'" "control s' = K_idle" "workers s' = []" "\<not> joinable s'"
      using less.hyps [of w' s1] less.prems by auto
    have "thread_step contract s s1" using s1(1) by (simp add: thread_step_def)
    with s' show ?thesis by (meson converse_rtranclp_into_rtranclp)
  qed
qed

text \<open>No step clears the flag while there is a worker, so that the readings along an execution persist.\<close>

lemma step_keeps_flag:
  assumes "thread_inv contract s" "thread_step contract s s'" "workers s \<noteq> []" "stop_flag s"
  shows "stop_flag s'"
  using assms unfolding thread_step_def by (elim disjE control_stepE worker_stepE) (simp_all add: thread_inv_def)

lemma path_keeps_flag:
  "thread_path contract (s # ss) \<Longrightarrow> thread_inv contract s \<Longrightarrow> \<forall>x \<in> set (s # ss). workers x \<noteq> [] \<Longrightarrow>
     persists stop_flag (s # ss) \<and> (stop_flag s \<longrightarrow> (\<forall>x \<in> set ss. stop_flag x))"
proof (induction ss arbitrary: s)
  case (Cons s' ss)
  have st: "thread_step contract s s'" using Cons.prems(1) by simp
  then have "thread_inv contract s'" using Cons.prems(2) control_step_inv worker_step_inv unfolding thread_step_def by blast
  then have IH: "persists stop_flag (s' # ss)" "stop_flag s' \<longrightarrow> (\<forall>x \<in> set ss. stop_flag x)" using Cons.IH [of s'] Cons.prems(1,3) by simp_all
  have "stop_flag s \<longrightarrow> stop_flag s'" using step_keeps_flag [OF Cons.prems(2) st] Cons.prems(3) by simp
  then show ?case using IH by (cases "stop_flag s") simp_all
qed (simp add: persists_def)

lemma persists_subseq: "subseq rs ss \<Longrightarrow> persists P ss \<Longrightarrow> persists P rs"
proof (induction rule: list_emb.induct)
  case (list_emb_Cons2 x y xs ys)
  have "set xs \<subseteq> set ys" using list_emb_Cons2.hyps(2) by (auto elim: list_emb_set)
  then show ?case using list_emb_Cons2 by auto
qed (auto simp: persists_def)

section \<open>Concrete executions\<close>

lemma step_control: "thread_reachable c s \<Longrightarrow> control_step c s s' \<Longrightarrow> thread_reachable c s'"
  by (auto intro: thread_reachable.step simp: thread_step_def)

lemma step_worker: "thread_reachable c s \<Longrightarrow> worker_step s s' \<Longrightarrow> thread_reachable c s'"
  by (auto intro: thread_reachable.step simp: thread_step_def)

text \<open>\<open>start()\<close>, then the worker enters \<open>run()\<close>.\<close>

definition demo_started :: tbase where
  "demo_started = \<lparr>control = K_idle, joinable = True, running = True, stop_flag = False, workers = [W_running]\<rparr>"

lemma demo_started_reachable: "thread_reachable c demo_started"
proof -
  have "thread_reachable c (tbase_init\<lparr>control := K_starting, stop_flag := False\<rparr>)" (is "thread_reachable c ?s1")
    by (rule step_control [OF thread_reachable.init start_clear]) (simp_all add: tbase_init_def)
  then have "thread_reachable c (?s1\<lparr>control := K_idle, joinable := True, workers := workers ?s1 @ [W_spawned]\<rparr>)" (is "thread_reachable c ?s2")
    by (rule step_control [OF _ start_spawn]) simp
  then have "thread_reachable c (?s2\<lparr>running := True, workers := (workers ?s2)[0 := W_running]\<rparr>)"
    by (rule step_worker [OF _ worker_begin]) (simp_all add: tbase_init_def)
  then show ?thesis by (simp add: tbase_init_def demo_started_def)
qed

lemma demo_stopping_reachable: "thread_reachable c (demo_started\<lparr>control := K_stopping, stop_flag := True\<rparr>)"
  by (rule step_control [OF demo_started_reachable stop_request]) (simp add: demo_started_def)

section \<open>Properties\<close>

text \<open>
  In every execution at most one worker exists, \<open>thread_\<close> is joinable exactly while there is one,
  \<open>is_running()\<close> is true exactly while a worker is between entering \<open>run()\<close> and clearing the flag,
  and \<open>start()\<close> never launches a second worker.
\<close>

theorem single_worker:
  assumes "thread_reachable contract s"
  shows "length (workers s) \<le> 1 \<and> (joinable s \<longleftrightarrow> workers s \<noteq> []) \<and>
    (is_running s \<longleftrightarrow> workers s = [W_running] \<or> workers s = [W_returned]) \<and> (control s = K_starting \<longrightarrow> workers s = [])"
  using thread_reachable_inv [OF assms] by (simp add: thread_inv_def is_running_def)

theorem single_worker_witness: "is_running demo_started \<and> length (workers demo_started) \<le> 1"
  using single_worker [OF demo_started_reachable] by (simp add: demo_started_def)

text \<open>
  A stop request persists: while a worker exists the stop flag, once set, is cleared by no step of
  either thread, and it is set whenever \<open>stop()\<close> waits for the join.
\<close>

theorem stop_flag_persists:
  assumes "thread_reachable contract s" and "thread_step contract s s'"
  shows "(workers s \<noteq> [] \<and> stop_flag s \<longrightarrow> stop_flag s') \<and> (control s' = K_stopping \<or> control s' = K_dtor_stopping \<longrightarrow> stop_flag s')"
proof -
  have inv: "thread_inv contract s" "thread_inv contract s'"
    using thread_reachable_inv thread_reachable.step [OF assms] assms(1) by blast+
  have "workers s \<noteq> [] \<and> stop_flag s \<longrightarrow> stop_flag s'" using step_keeps_flag [OF inv(1) assms(2)] by blast
  then show ?thesis using inv(2) by (auto simp: thread_inv_def)
qed

theorem stop_flag_persists_witness:
  "let s = demo_started\<lparr>control := K_stopping, stop_flag := True\<rparr>; s' = s\<lparr>workers := [W_returned]\<rparr>
   in thread_step True s s' \<and> stop_flag s'"
proof -
  define s where "s = demo_started\<lparr>control := K_stopping, stop_flag := True\<rparr>"
  have "worker_step s (s\<lparr>workers := (workers s)[0 := W_returned]\<rparr>)"
    by (rule worker_return) (simp_all add: s_def demo_started_def)
  then have st: "thread_step True s (s\<lparr>workers := [W_returned]\<rparr>)" by (simp add: thread_step_def s_def demo_started_def)
  from stop_flag_persists [OF demo_stopping_reachable [of True, folded s_def] st] st show ?thesis
    unfolding s_def [symmetric] by (simp add: s_def demo_started_def)
qed

text \<open>
  What a worker observes of its stop token: in every execution during which there is a worker, whatever states it reads the token in, its
  readings persist, as the theorems on the thread functions assume; from the moment \<open>stop()\<close> waits for the join every reading is
  set; and a token without a flag never asks for a stop.
\<close>

theorem token_readings_persist:
  assumes "thread_reachable contract s" and "thread_path contract (s # ss)" and "\<forall>x \<in> set (s # ss). workers x \<noteq> []" and "subseq rs (s # ss)"
  shows "persists (\<lambda>x. stop_requested (Some x)) rs \<and> (control s = K_stopping \<longrightarrow> (\<forall>x \<in> set rs. stop_requested (Some x))) \<and> \<not> stop_requested None"
proof -
  have inv: "thread_inv contract s" using thread_reachable_inv [OF assms(1)] .
  note k = path_keeps_flag [OF assms(2) inv assms(3)]
  have "control s = K_stopping \<longrightarrow> stop_flag s" using inv by (simp add: thread_inv_def)
  moreover have "set rs \<subseteq> set (s # ss)" using assms(4) by (auto elim: list_emb_set simp del: list.set)
  ultimately show ?thesis using k persists_subseq [OF assms(4)] by (auto simp: stop_requested_def persists_def)
qed

theorem token_readings_persist_witness:
  "let s = demo_started\<lparr>control := K_stopping, stop_flag := True\<rparr> in stop_requested (Some s) \<and> \<not> stop_requested None"
  using token_readings_persist [OF demo_stopping_reachable [of True], of "[]" "[demo_started\<lparr>control := K_stopping, stop_flag := True\<rparr>]"]
  by (simp add: demo_started_def)

text \<open>
  \<open>stop()\<close> can always complete: from every reachable state in which it waits, the remaining steps of
  the worker and the join lead to a state without a worker, in which \<open>is_running()\<close> is false.
\<close>

theorem stop_completes:
  assumes "thread_reachable contract s" and "control s = K_stopping"
  shows "\<exists>s'. (thread_step contract)\<^sup>*\<^sup>* s s' \<and> control s' = K_idle \<and> workers s' = [] \<and> \<not> joinable s' \<and> \<not> is_running s'"
proof -
  have inv: "thread_inv contract s" by (rule thread_reachable_inv [OF assms(1)])
  obtain s' where s': "(thread_step contract)\<^sup>*\<^sup>* s s'" "control s' = K_idle" "workers s' = []" "\<not> joinable s'"
  proof (cases "workers s")
    case Nil
    then have "thread_step contract s (s\<lparr>control := K_idle\<rparr>)"
      using stop_none [of s contract] assms(2) inv by (simp add: thread_step_def thread_inv_def)
    then show ?thesis using that [of "s\<lparr>control := K_idle\<rparr>"] Nil inv by (simp add: thread_inv_def r_into_rtranclp)
  next
    case (Cons w ws)
    then have "workers s = [w]" "joinable s" using inv by (simp_all add: thread_inv_def)
    from join_possible [OF this assms(2), of contract] that show ?thesis by blast
  qed
  have "thread_reachable contract s'"
    using s'(1) assms(1) by (induction rule: rtranclp_induct) (auto intro: thread_reachable.step)
  then have "\<not> is_running s'" using thread_reachable_inv [of contract s'] s'(3) by (simp add: thread_inv_def is_running_def)
  then show ?thesis using s' by blast
qed

theorem stop_completes_witness:
  "\<exists>s'. (thread_step True)\<^sup>*\<^sup>* (demo_started\<lparr>control := K_stopping, stop_flag := True\<rparr>) s' \<and> workers s' = [] \<and> \<not> is_running s'"
  using stop_completes [OF demo_stopping_reachable [of True]] by auto

text \<open>
  C29. Destruction: if the subclass keeps the contract, the assertion of \<open>~ThreadBase\<close> never fails and no
  worker exists any more when the members of the subclass are destroyed; if it does not (as
  \<open>SignalEngine\<close>, whose destructor is defaulted), both fail in some execution.
\<close>

theorem destruction_contract:
  "(\<forall>s. thread_reachable True s \<longrightarrow> control s \<noteq> K_abort \<and> (control s = K_members_gone \<or> control s = K_destroyed \<longrightarrow> workers s = []))
   \<and> (\<exists>s. thread_reachable False s \<and> control s = K_members_gone \<and> workers s = [W_running])
   \<and> (\<exists>s. thread_reachable False s \<and> control s = K_abort)"
proof (intro conjI)
  show "\<forall>s. thread_reachable True s \<longrightarrow> control s \<noteq> K_abort \<and> (control s = K_members_gone \<or> control s = K_destroyed \<longrightarrow> workers s = [])"
    using thread_reachable_inv [of True] by (auto simp: thread_inv_def)
  have r: "thread_reachable False (demo_started\<lparr>control := K_members_gone\<rparr>)"
    by (rule step_control [OF demo_started_reachable dtor_default]) (simp_all add: demo_started_def)
  then show "\<exists>s. thread_reachable False s \<and> control s = K_members_gone \<and> workers s = [W_running]"
    by (intro exI conjI) (assumption, simp_all add: demo_started_def)
  have "thread_reachable False (demo_started\<lparr>control := K_members_gone, control := K_abort\<rparr>)"
    by (rule step_control [OF r dtor_assert]) (simp_all add: demo_started_def)
  then show "\<exists>s. thread_reachable False s \<and> control s = K_abort" by (intro exI conjI) (assumption, simp)
qed

theorem destruction_contract_witness: "control demo_started \<noteq> K_abort"
  using destruction_contract demo_started_reachable by blast

end
