(* ===== verification/Double.thy ===== *)
theory Double
  imports Prelude
begin

text \<open>
  IEEE 754 binary64 arithmetic, the \<open>double\<close> of the C++ code, in round-to-nearest-even mode.
  A finite value is the rational number it denotes; the operations compute the exact
  rational result and round it once. NaN and the infinities are values of their own, and
  the comparisons are the C++ ones (every comparison with NaN is false).

  The two zeros are one value: no comparison, conversion or map lookup of the program
  distinguishes them. Every operation is rounded separately (no fused multiply-add).
\<close>

datatype double = NaN | MInf | Fin rat | PInf

section \<open>Rounding\<close>

text \<open>\<open>floor_log2 x\<close> is the exponent of the binade of \<open>x > 0\<close>.\<close>

definition floor_log2 :: "rat \<Rightarrow> int" where
  "floor_log2 x = (case quotient_of x of (n, d) \<Rightarrow>
     (let e = int (floorlog 2 (nat n)) - int (floorlog 2 (nat d))
      in if 2 powi e \<le> x then e else e - 1))"

text \<open>The distance between neighbouring doubles in that binade, at least \<open>2 powi -1074\<close>.\<close>

definition quantum :: "rat \<Rightarrow> rat" where
  "quantum x = 2 powi (max (floor_log2 x - 52) (-1074))"

text \<open>Round to the nearest integer, ties to even.\<close>

definition rhe :: "rat \<Rightarrow> int" where
  "rhe x = (let f = \<lfloor>x\<rfloor>; r = x - of_int f
            in if r < 1/2 then f else if 1/2 < r then f + 1 else if even f then f else f + 1)"

definition round_mag :: "rat \<Rightarrow> rat" where
  "round_mag x = (if x = 0 then 0 else of_int (rhe (x / quantum x)) * quantum x)"

definition overflows :: "rat \<Rightarrow> bool" where
  "overflows m \<longleftrightarrow> 0 < m \<and> 1023 < floor_log2 m"

definition round64 :: "rat \<Rightarrow> double" where
  "round64 x = (let m = round_mag \<bar>x\<bar>
     in if overflows m then (if x < 0 then MInf else PInf)
        else Fin (if x < 0 then - m else m))"

definition representable :: "rat \<Rightarrow> bool" where
  "representable x \<longleftrightarrow> round64 x = Fin x"

section \<open>Order and comparisons\<close>

text \<open>
  A total order on the values, with NaN below everything, so that the library's order
  lemmas apply; the C++ comparisons \<open>dlt\<close>, \<open>dle\<close>, \<open>deq\<close> are false on NaN.
\<close>

instantiation double :: linorder
begin

fun less_eq_double :: "double \<Rightarrow> double \<Rightarrow> bool" where
  "less_eq_double NaN b = True"
| "less_eq_double MInf b = (b \<noteq> NaN)"
| "less_eq_double (Fin x) (Fin y) = (x \<le> y)"
| "less_eq_double (Fin x) b = (b = PInf)"
| "less_eq_double PInf b = (b = PInf)"

definition less_double :: "double \<Rightarrow> double \<Rightarrow> bool" where
  "less_double a b \<longleftrightarrow> a \<le> b \<and> \<not> b \<le> (a::double)"

instance
proof
  fix a b c :: double
  show "a < b \<longleftrightarrow> a \<le> b \<and> \<not> b \<le> a" by (rule less_double_def)
  show "a \<le> a" by (cases a) auto
  show "a \<le> b \<Longrightarrow> b \<le> c \<Longrightarrow> a \<le> c" by (cases a; cases b; cases c) auto
  show "a \<le> b \<Longrightarrow> b \<le> a \<Longrightarrow> a = b" by (cases a; cases b) auto
  show "a \<le> b \<or> b \<le> a" by (cases a; cases b) auto
qed

end

definition dlt :: "double \<Rightarrow> double \<Rightarrow> bool" where
  "dlt a b \<longleftrightarrow> a \<noteq> NaN \<and> b \<noteq> NaN \<and> a < b"

definition dle :: "double \<Rightarrow> double \<Rightarrow> bool" where
  "dle a b \<longleftrightarrow> a \<noteq> NaN \<and> b \<noteq> NaN \<and> a \<le> b"

definition deq :: "double \<Rightarrow> double \<Rightarrow> bool" where
  "deq a b \<longleftrightarrow> a \<noteq> NaN \<and> a = b"

abbreviation isnan :: "double \<Rightarrow> bool" where
  "isnan a \<equiv> a = NaN"

abbreviation isinf :: "double \<Rightarrow> bool" where
  "isinf a \<equiv> a = PInf \<or> a = MInf"

section \<open>Arithmetic\<close>

fun dneg :: "double \<Rightarrow> double" where
  "dneg (Fin x) = Fin (- x)"
| "dneg PInf = MInf"
| "dneg MInf = PInf"
| "dneg NaN = NaN"

fun dadd :: "double \<Rightarrow> double \<Rightarrow> double" where
  "dadd (Fin x) (Fin y) = round64 (x + y)"
| "dadd PInf (Fin y) = PInf"
| "dadd PInf PInf = PInf"
| "dadd (Fin x) PInf = PInf"
| "dadd MInf (Fin y) = MInf"
| "dadd MInf MInf = MInf"
| "dadd (Fin x) MInf = MInf"
| "dadd a b = NaN"

definition dsub :: "double \<Rightarrow> double \<Rightarrow> double" where
  "dsub a b = dadd a (dneg b)"

text \<open>An infinity times or divided by a number of sign \<open>s\<close>.\<close>

definition inf_sign :: "rat \<Rightarrow> double" where
  "inf_sign s = (if s = 0 then NaN else if 0 < s then PInf else MInf)"

fun dmul :: "double \<Rightarrow> double \<Rightarrow> double" where
  "dmul (Fin x) (Fin y) = round64 (x * y)"
| "dmul PInf (Fin y) = inf_sign y"
| "dmul (Fin x) PInf = inf_sign x"
| "dmul MInf (Fin y) = inf_sign (- y)"
| "dmul (Fin x) MInf = inf_sign (- x)"
| "dmul PInf PInf = PInf"
| "dmul MInf MInf = PInf"
| "dmul PInf MInf = MInf"
| "dmul MInf PInf = MInf"
| "dmul a b = NaN"

text \<open>Division; the divisor zero is the positive one.\<close>

fun ddiv :: "double \<Rightarrow> double \<Rightarrow> double" where
  "ddiv (Fin x) (Fin y) = (if y = 0 then inf_sign x else round64 (x / y))"
| "ddiv (Fin x) PInf = Fin 0"
| "ddiv (Fin x) MInf = Fin 0"
| "ddiv PInf (Fin y) = (if y < 0 then MInf else PInf)"
| "ddiv MInf (Fin y) = (if y < 0 then PInf else MInf)"
| "ddiv a b = NaN"

text \<open>\<open>std::max(a, b)\<close>, \<open>std::min(a, b)\<close> and \<open>std::clamp(v, lo, hi)\<close> of the standard library.\<close>

definition dmax :: "double \<Rightarrow> double \<Rightarrow> double" where
  "dmax a b = (if dlt a b then b else a)"

definition dclamp :: "double \<Rightarrow> double \<Rightarrow> double \<Rightarrow> double" where
  "dclamp v lo hi = (if dlt v lo then lo else if dlt hi v then hi else v)"

section \<open>Conversions\<close>

definition of_u64 :: "u64 \<Rightarrow> double" where
  "of_u64 w = round64 (of_nat (unat w))"

definition of_i64 :: "i64 \<Rightarrow> double" where
  "of_i64 w = round64 (of_int (sint w))"

text \<open>
  \<open>static_cast\<close> from \<open>double\<close> truncates towards zero; the behaviour is undefined when the
  truncated value does not fit the integer type, which is \<open>None\<close> here.
\<close>

definition trunc :: "rat \<Rightarrow> int" where
  "trunc x = (if x < 0 then \<lceil>x\<rceil> else \<lfloor>x\<rfloor>)"

fun to_u64 :: "double \<Rightarrow> u64 option" where
  "to_u64 (Fin x) = (if 0 \<le> trunc x \<and> trunc x < 2 ^ 64 then Some (of_int (trunc x)) else None)"
| "to_u64 _ = None"

fun to_i64 :: "double \<Rightarrow> i64 option" where
  "to_i64 (Fin x) = (if - (2 ^ 63) \<le> trunc x \<and> trunc x < 2 ^ 63 then Some (of_int (trunc x)) else None)"
| "to_i64 _ = None"

section \<open>Facts\<close>

subsection \<open>Binades\<close>

lemma powi2_pos [simp]: "(0::rat) < 2 powi k"
  by (simp add: zero_less_power_int)

lemma powi2_mono: "j \<le> k \<Longrightarrow> (2::rat) powi j \<le> 2 powi k"
  by (simp add: power_int_increasing)

lemma powi2_less_iff: "(2::rat) powi j < 2 powi k \<longleftrightarrow> j < k"
  by (metis linorder_not_le one_less_numeral_iff order_less_le_trans power_int_strict_increasing
      powi2_mono semiring_norm(76) leD)

lemma bit_length_bounds:
  assumes "0 < n"
  shows "2 powi (int (floorlog 2 (nat n)) - 1) \<le> (of_int n :: rat)"
    and "(of_int n :: rat) < 2 powi int (floorlog 2 (nat n))"
proof -
  define a where "a = floorlog 2 (nat n)"
  have a: "2 ^ (a - 1) \<le> nat n" "nat n < 2 ^ a" "0 < a"
    using floorlog_bounds [of "nat n" 2] assms by (auto simp: a_def floorlog_def)
  have "(2::int) ^ (a - 1) \<le> n" "n < 2 ^ a" using a assms by (auto simp: nat_less_iff le_nat_iff)
  then have "(of_int (2 ^ (a - 1)) :: rat) \<le> of_int n" "(of_int n :: rat) < of_int (2 ^ a)"
    by (simp_all only: of_int_le_iff of_int_less_iff)
  then show "2 powi (int (floorlog 2 (nat n)) - 1) \<le> (of_int n :: rat)"
    and "(of_int n :: rat) < 2 powi int (floorlog 2 (nat n))"
    using a(3) unfolding a_def [symmetric] by (simp_all add: power_int_def nat_diff_distrib)
qed

text \<open>\<open>floor_log2\<close> is the exponent of the leading bit.\<close>

lemma floor_log2_bounds:
  assumes "0 < x"
  shows "2 powi floor_log2 x \<le> x" and "x < 2 powi (floor_log2 x + 1)"
proof -
  obtain n d where nd: "quotient_of x = (n, d)" by fastforce
  have x: "x = of_int n / of_int d" and d: "0 < d"
    using quotient_of_div [OF nd] quotient_of_denom_pos [OF nd] by auto
  with assms have n: "0 < n" by (simp add: zero_less_divide_iff)
  define a b where "a = int (floorlog 2 (nat n))" and "b = int (floorlog 2 (nat d))"
  note ra = bit_length_bounds [OF n, folded a_def]
  note rb = bit_length_bounds [OF d, folded b_def]
  have pos: "(0::rat) < of_int d" using d by simp
  have "2 powi (a - b - 1) * of_int d \<le> (2 powi (a - b - 1) * 2 powi b :: rat)"
    using rb by (intro mult_left_mono) auto
  also have "\<dots> = 2 powi (a - 1)" by (subst power_int_add [symmetric]) simp_all
  finally have lo: "2 powi (a - b - 1) \<le> x"
    using ra pos by (simp add: x pos_le_divide_eq)
  have "(of_int n :: rat) < 2 powi (a - b + 1) * 2 powi (b - 1)"
    using ra by (subst power_int_add [symmetric]) simp_all
  also have "\<dots> \<le> 2 powi (a - b + 1) * of_int d"
    using rb by (intro mult_left_mono) auto
  finally have hi: "x < 2 powi (a - b + 1)"
    using pos by (simp add: x pos_divide_less_eq)
  have fl: "floor_log2 x = (if 2 powi (a - b) \<le> x then a - b else a - b - 1)"
    by (simp add: floor_log2_def nd a_def b_def Let_def)
  show "2 powi floor_log2 x \<le> x" and "x < 2 powi (floor_log2 x + 1)"
    using lo hi by (auto simp: fl)
qed

lemma floor_log2_unique:
  assumes "2 powi e \<le> x" and "x < 2 powi (e + 1)"
  shows "floor_log2 x = e"
proof -
  have x: "0 < x" using assms(1) powi2_pos [of e] by linarith
  have "e < floor_log2 x + 1" "floor_log2 x < e + 1"
    using floor_log2_bounds [OF x] assms by (meson order.strict_trans1 powi2_less_iff)+
  then show ?thesis by simp
qed

lemma floor_log2_mono:
  assumes "0 < x" and "x \<le> y" shows "floor_log2 x \<le> floor_log2 y"
proof -
  have "2 powi floor_log2 x < (2::rat) powi (floor_log2 y + 1)"
    using floor_log2_bounds [OF assms(1)] floor_log2_bounds [of y] assms by linarith
  then show ?thesis by (simp add: powi2_less_iff)
qed

lemma floor_log2_powi [simp]: "floor_log2 (2 powi e) = e"
  by (rule floor_log2_unique) (simp_all add: powi2_less_iff)

lemma floor_log2_double: "0 < x \<Longrightarrow> floor_log2 (2 * x) = floor_log2 x + 1"
  using floor_log2_bounds [of x] by (intro floor_log2_unique) (auto simp: power_int_add)

subsection \<open>Rounding to an integer\<close>

lemma rhe_cases:
  "rhe x = \<lfloor>x\<rfloor> \<or> rhe x = \<lfloor>x\<rfloor> + 1"
  by (auto simp: rhe_def Let_def)

lemma rhe_of_int [simp]: "rhe (of_int k) = k"
  by (simp add: rhe_def)

lemma rhe_nearest: "\<bar>of_int (rhe x) - x\<bar> \<le> 1/2"
proof -
  have "of_int \<lfloor>x\<rfloor> \<le> x" "x < of_int \<lfloor>x\<rfloor> + 1" by linarith+
  then show ?thesis by (auto simp: rhe_def Let_def abs_le_iff)
qed

lemma rhe_eqI: "\<bar>x - of_int k\<bar> < 1/2 \<Longrightarrow> rhe x = k"
proof -
  assume "\<bar>x - of_int k\<bar> < 1/2"
  with rhe_nearest [of x] have "\<bar>of_int (rhe x) - (of_int k :: rat)\<bar> < 1" by linarith
  then have "\<bar>of_int (rhe x - k) :: rat\<bar> < of_int 1" by simp
  then show ?thesis by (simp only: of_int_abs [symmetric] of_int_less_iff)
qed

lemma rhe_mono: assumes "x \<le> y" shows "rhe x \<le> rhe y"
proof (cases "\<lfloor>x\<rfloor> = \<lfloor>y\<rfloor>")
  case True
  then show ?thesis using assms by (auto simp: rhe_def Let_def)
next
  case False
  with assms have "\<lfloor>x\<rfloor> + 1 \<le> \<lfloor>y\<rfloor>" using floor_mono [OF assms] by linarith
  then show ?thesis using rhe_cases [of x] rhe_cases [of y] by auto
qed

lemma rhe_minus: "rhe (- x) = - rhe x"
proof (cases "x \<in> \<int>")
  case True
  then obtain k where "x = of_int k" by (auto elim: Ints_cases)
  then show ?thesis using rhe_of_int [of "- k"] by simp
next
  case False
  then have f: "\<lfloor>- x\<rfloor> = - \<lfloor>x\<rfloor> - 1" by (simp add: floor_minus ceiling_altdef) (metis Ints_of_int)
  show ?thesis by (auto simp: rhe_def Let_def f)
qed

subsection \<open>Rounding to a double\<close>

lemma quantum_pos [simp]: "0 < quantum x"
  by (simp add: quantum_def)

lemma round_mag_0 [simp]: "round_mag 0 = 0"
  by (simp add: round_mag_def)

text \<open>Rounding never crosses a multiple of the quantum.\<close>

lemma round_mag_le:
  assumes "0 < x" and "x \<le> of_int m * quantum x" shows "round_mag x \<le> of_int m * quantum x"
proof -
  have "x / quantum x \<le> of_int m" using assms(2) by (simp add: pos_divide_le_eq)
  then have "rhe (x / quantum x) \<le> m" using rhe_mono by fastforce
  then show ?thesis using assms(1) by (simp add: round_mag_def)
qed

lemma round_mag_ge:
  assumes "0 < x" and "of_int m * quantum x \<le> x" shows "of_int m * quantum x \<le> round_mag x"
proof -
  have "of_int m \<le> x / quantum x" using assms(2) by (simp add: pos_le_divide_eq)
  then have "m \<le> rhe (x / quantum x)" using rhe_mono by fastforce
  then show ?thesis using assms(1) by (simp add: round_mag_def)
qed

lemma round_mag_nonneg: "0 \<le> x \<Longrightarrow> 0 \<le> round_mag x"
  using round_mag_ge [of x 0] by (cases "x = 0") auto

lemma round_mag_grid: "0 < x \<Longrightarrow> x = of_int m * quantum x \<Longrightarrow> round_mag x = x"
  by (metis antisym order_refl round_mag_ge round_mag_le)

lemma powi2_multiple:
  assumes "j \<le> k" shows "(2::rat) powi k = of_int (2 ^ nat (k - j)) * 2 powi j"
proof -
  have "(2::rat) powi k = 2 powi (k - j) * 2 powi j" by (subst power_int_add [symmetric]) auto
  also have "(2::rat) powi (k - j) = of_int (2 ^ nat (k - j))" using assms by (simp add: power_int_def)
  finally show ?thesis .
qed

lemma round_mag_mono:
  assumes "0 \<le> x" and "x \<le> y" shows "round_mag x \<le> round_mag y"
proof (cases "x = 0")
  case True
  with assms show ?thesis by (simp add: round_mag_nonneg)
next
  case False
  with assms have x: "0 < x" and y: "0 < y" by auto
  define i j where "i = max (floor_log2 x - 52) (-1074)" and "j = max (floor_log2 y - 52) (-1074)"
  have q: "quantum x = 2 powi i" "quantum y = 2 powi j" by (simp_all add: quantum_def i_def j_def)
  have fl: "floor_log2 x \<le> floor_log2 y" using floor_log2_mono x assms by blast
  show ?thesis
  proof (cases "i = j")
    case True
    have "rhe (x / 2 powi i) \<le> rhe (y / 2 powi i)"
      using assms by (intro rhe_mono divide_right_mono) auto
    with True x y q show ?thesis by (simp add: round_mag_def)
  next
    case False
    then have ij: "i < j" "j = floor_log2 y - 52" "floor_log2 x < floor_log2 y"
      using fl by (auto simp: i_def j_def)
    have g: "(2::rat) powi floor_log2 y = of_int (2 ^ nat (floor_log2 y - i)) * 2 powi i"
      "(2::rat) powi floor_log2 y = of_int (2 ^ nat (floor_log2 y - j)) * 2 powi j"
      using ij by (intro powi2_multiple; simp)+
    have "x \<le> 2 powi floor_log2 y"
      using floor_log2_bounds(2) [OF x] powi2_mono [of "floor_log2 x + 1" "floor_log2 y"] ij by linarith
    then have "round_mag x \<le> 2 powi floor_log2 y"
      using round_mag_le [OF x] g(1) q(1) by metis
    also have "\<dots> \<le> round_mag y"
      using round_mag_ge [OF y] floor_log2_bounds(1) [OF y] g(2) q(2) by metis
    finally show ?thesis .
  qed
qed

text \<open>The doubles are the dyadic numbers with a 53 bit significand.\<close>

definition dyadic :: "rat \<Rightarrow> bool" where
  "dyadic x \<longleftrightarrow> (\<exists>k j. x = of_int k * 2 powi j \<and> \<bar>k\<bar> \<le> 2 ^ 53 \<and> -1074 \<le> j)"

lemma dyadicI: "x = of_int k * 2 powi j \<Longrightarrow> \<bar>k\<bar> \<le> 2 ^ 53 \<Longrightarrow> -1074 \<le> j \<Longrightarrow> dyadic x"
  by (auto simp: dyadic_def)

lemma dyadic_minus [simp]: "dyadic (- x) = dyadic x"
proof -
  have "dyadic (- y)" if "dyadic y" for y
  proof -
    from that obtain k j where "y = of_int k * 2 powi j" "\<bar>k\<bar> \<le> 2 ^ 53" "-1074 \<le> j"
      by (auto simp: dyadic_def)
    then show ?thesis by (intro dyadicI [of _ "- k" j]) auto
  qed
  from this [of x] this [of "- x"] show ?thesis by auto
qed

lemma dyadic_abs [simp]: "dyadic \<bar>x\<bar> = dyadic x"
  by (simp add: abs_if)

lemma dyadic_int: "\<bar>n\<bar> \<le> 2 ^ 53 \<Longrightarrow> dyadic (of_int n)"
  by (rule dyadicI [of _ n 0]) auto

lemma dyadic_double: "dyadic x \<Longrightarrow> dyadic (2 * x)"
proof -
  assume "dyadic x"
  then obtain k j where "x = of_int k * 2 powi j" "\<bar>k\<bar> \<le> 2 ^ 53" "-1074 \<le> j"
    by (auto simp: dyadic_def)
  then show ?thesis by (intro dyadicI [of _ k "j + 1"]) (auto simp: power_int_add)
qed

lemma round_mag_dyadic: assumes "0 \<le> x" and "dyadic x" shows "round_mag x = x"
proof (cases "x = 0")
  case False
  obtain k j where kj: "x = of_int k * 2 powi j" "\<bar>k\<bar> \<le> 2 ^ 53" "-1074 \<le> j"
    using assms(2) by (auto simp: dyadic_def)
  have x: "0 < x" using assms False by simp
  define q where "q = max (floor_log2 x - 52) (-1074)"
  have Q: "quantum x = 2 powi q" by (simp add: quantum_def q_def)
  have k: "(of_int k :: rat) \<le> 2 powi 53"
  proof -
    have "of_int k \<le> (of_int (2 ^ 53) :: rat)" using kj(2) by (simp only: of_int_le_iff)
    then show ?thesis by simp
  qed
  then have "x \<le> 2 powi 53 * 2 powi j" unfolding kj(1) by (intro mult_right_mono) auto
  then have le: "x \<le> 2 powi (53 + j)" by (subst power_int_add) auto
  show ?thesis
  proof (cases "x = 2 powi (53 + j)")
    case True
    then have "q \<le> 53 + j" using kj(3) by (simp add: q_def)
    then show ?thesis using powi2_multiple [of q "53 + j"] True x Q round_mag_grid by metis
  next
    case False
    with le have "2 powi floor_log2 x < (2::rat) powi (53 + j)"
      using floor_log2_bounds(1) [OF x] by linarith
    then have "q \<le> j" using kj(3) by (simp add: powi2_less_iff q_def)
    then have "x = of_int (k * 2 ^ nat (j - q)) * 2 powi q"
      using powi2_multiple [of q j] kj(1) by simp
    then show ?thesis using x Q round_mag_grid by metis
  qed
qed simp

lemma dyadic_round_mag: assumes "0 \<le> x" shows "dyadic (round_mag x)"
proof (cases "x = 0")
  case False
  with assms have x: "0 < x" by simp
  define q where "q = max (floor_log2 x - 52) (-1074)"
  have Q: "quantum x = 2 powi q" by (simp add: quantum_def q_def)
  have "floor_log2 x + 1 \<le> q + 53" by (simp add: q_def)
  then have "x \<le> 2 powi (q + 53)"
    using floor_log2_bounds(2) [OF x] powi2_mono [of "floor_log2 x + 1" "q + 53"] by linarith
  then have "x / 2 powi q \<le> of_int (2 ^ 53)" by (simp add: pos_divide_le_eq power_int_add mult.commute)
  then have "rhe (x / 2 powi q) \<le> 2 ^ 53" using rhe_mono rhe_of_int by metis
  moreover have "0 \<le> rhe (x / 2 powi q)"
    using rhe_mono [of 0 "x / 2 powi q"] rhe_of_int [of 0] x by simp
  ultimately show ?thesis
    using False by (intro dyadicI [of _ "rhe (x / 2 powi q)" q]) (auto simp: round_mag_def Q q_def)
qed (auto simp: dyadic_def intro!: exI [of _ 0])

lemma overflows_mono: "overflows x \<Longrightarrow> x \<le> y \<Longrightarrow> overflows y"
  using floor_log2_mono [of x y] by (auto simp: overflows_def)

definition double_limit :: rat where
  "double_limit = 2 powi 1024"

lemma overflows_iff: "overflows x \<longleftrightarrow> double_limit \<le> x"
proof
  assume "overflows x"
  then have x: "0 < x" "1024 \<le> floor_log2 x" by (auto simp: overflows_def)
  then show "double_limit \<le> x"
    using floor_log2_bounds(1) [OF x(1)] powi2_mono [OF x(2)] unfolding double_limit_def by linarith
next
  have fl: "floor_log2 double_limit = 1024" "0 < double_limit"
    unfolding double_limit_def by (rule floor_log2_powi, rule powi2_pos)
  assume a: "double_limit \<le> x"
  then have "0 < x" using fl(2) by linarith
  then show "overflows x" using floor_log2_mono [OF fl(2) a] fl(1) by (simp add: overflows_def)
qed

lemma not_overflows_0 [simp]: "\<not> overflows 0"
  by (simp add: overflows_def)

lemma powi2_less_limit: "k < 1024 \<Longrightarrow> 2 powi k < double_limit"
  by (simp only: double_limit_def powi2_less_iff)

lemma round64_0 [simp]: "round64 0 = Fin 0"
  by (simp add: round64_def overflows_def)

lemma round64_minus: "round64 (- x) = dneg (round64 x)"
  by (cases "x = 0") (auto simp: round64_def Let_def)

lemma round64_not_NaN [simp]: "round64 x \<noteq> NaN"
  by (simp add: round64_def Let_def)

lemma dneg_le_iff: "a \<noteq> NaN \<Longrightarrow> b \<noteq> NaN \<Longrightarrow> dneg a \<le> dneg b \<longleftrightarrow> b \<le> a"
  by (cases a; cases b) auto

lemma round64_mono_nonneg: "0 \<le> x \<Longrightarrow> x \<le> y \<Longrightarrow> round64 x \<le> round64 y"
  using round_mag_mono [of x y] overflows_mono by (auto simp: round64_def Let_def)

lemma round64_sign: "0 \<le> x \<Longrightarrow> Fin 0 \<le> round64 x" "x \<le> 0 \<Longrightarrow> round64 x \<le> Fin 0"
  using round_mag_nonneg [of "\<bar>x\<bar>"] by (auto simp: round64_def Let_def)

lemma round64_mono: assumes "x \<le> y" shows "round64 x \<le> round64 y"
proof (cases "0 \<le> x")
  case True
  with assms show ?thesis by (simp add: round64_mono_nonneg)
next
  case x: False
  show ?thesis
  proof (cases "0 \<le> y")
    case True
    then show ?thesis using round64_sign [of x] round64_sign [of y] x by (meson linear order.trans)
  next
    case False
    have "round64 (- y) \<le> round64 (- x)" using False assms by (intro round64_mono_nonneg) auto
    then show ?thesis by (simp add: round64_minus dneg_le_iff)
  qed
qed

lemma representable_iff: "representable x \<longleftrightarrow> dyadic x \<and> \<bar>x\<bar> < double_limit"
proof
  assume r: "representable x"
  then have m: "round_mag \<bar>x\<bar> = \<bar>x\<bar>" "\<not> overflows (round_mag \<bar>x\<bar>)"
    by (auto simp: representable_def round64_def Let_def split: if_splits)
  then show "dyadic x \<and> \<bar>x\<bar> < double_limit"
    using dyadic_round_mag [of "\<bar>x\<bar>"] by (auto simp: overflows_iff)
next
  assume "dyadic x \<and> \<bar>x\<bar> < double_limit"
  then have "round_mag \<bar>x\<bar> = \<bar>x\<bar>" "\<not> overflows \<bar>x\<bar>"
    by (auto simp: overflows_iff round_mag_dyadic)
  then show "representable x" by (simp add: representable_def round64_def Let_def)
qed

lemma round64_Fin_representable: "round64 x = Fin y \<Longrightarrow> representable y"
  using dyadic_round_mag [of "\<bar>x\<bar>"] round_mag_nonneg [of "\<bar>x\<bar>"]
  by (auto simp: representable_iff round64_def Let_def overflows_iff not_le split: if_splits)

lemma representable_double:
  "representable x \<Longrightarrow> \<bar>x\<bar> < double_limit / 2 \<Longrightarrow> representable (2 * x)"
  by (auto simp: representable_iff dyadic_double abs_mult)

lemma representable_int: assumes "\<bar>n\<bar> \<le> 2 ^ 53" shows "representable (of_int n)"
proof -
  have "\<bar>of_int n :: rat\<bar> \<le> of_int (2 ^ 53)" using assms by (simp only: of_int_abs [symmetric] of_int_le_iff)
  also have "\<dots> = 2 powi 53" by simp
  also have "\<dots> < double_limit" by (rule powi2_less_limit) simp
  finally show ?thesis using assms by (simp only: representable_iff dyadic_int)
qed

lemma representable_minus: "representable (- x) = representable x"
  by (simp add: representable_iff)

text \<open>Evaluation: exact values, and values with a known nearest significand.\<close>

lemma round64_int: "\<bar>n\<bar> \<le> 2 ^ 53 \<Longrightarrow> round64 (of_int n) = Fin (of_int n)"
  using representable_int by (simp only: representable_def)

lemma round64_numeral [simp]:
  "numeral n \<le> (2 ^ 53 :: int) \<Longrightarrow> round64 (numeral n) = Fin (numeral n)"
  "round64 1 = Fin 1"
  using round64_int [of "numeral n"] round64_int [of 1] by simp_all

lemma round64_exact:
  assumes "x = of_int k * 2 powi j" and "\<bar>k\<bar> \<le> 2 ^ 53" and "-1074 \<le> j" and "\<bar>x\<bar> < double_limit"
  shows "round64 x = Fin x"
  using dyadicI [OF assms(1-3)] assms(4) representable_iff by (simp only: representable_def)

lemma round64_eval:
  assumes e: "2 powi e \<le> x" "x < 2 powi (e + 1)" and r: "-1022 \<le> e" "e < 1023"
    and k: "\<bar>x / 2 powi (e - 52) - of_int k\<bar> < 1/2"
  shows "round64 x = Fin (of_int k * 2 powi (e - 52))"
proof -
  have x: "0 < x" using e(1) powi2_pos [of e] by linarith
  have fl: "floor_log2 x = e" using floor_log2_unique e by blast
  then have q: "quantum x = 2 powi (e - 52)" using r by (simp add: quantum_def)
  have m: "round_mag x = of_int k * 2 powi (e - 52)"
    using x rhe_eqI [OF k] by (simp add: round_mag_def q)
  have "round_mag x \<le> round_mag (2 powi 1023)"
    using round_mag_mono [of x "2 powi 1023"] e(2) powi2_mono [of "e + 1" 1023] r x by linarith
  also have "\<dots> = 2 powi 1023" by (intro round_mag_dyadic dyadicI [of _ 1 1023]) simp_all
  also have "\<dots> < double_limit" by (rule powi2_less_limit) simp
  finally have "\<not> overflows (round_mag x)" by (simp only: overflows_iff not_le)
  then show ?thesis using x m by (simp add: round64_def)
qed

subsection \<open>Comparisons\<close>

lemma less_Fin [simp]: "Fin x < Fin y \<longleftrightarrow> x < y" "Fin x < PInf" "MInf < Fin x"
  "\<not> Fin x < NaN" "\<not> PInf < a" "\<not> Fin x < MInf"
  by (auto simp: less_double_def)

lemma dlt_simps [simp]:
  "dlt (Fin x) (Fin y) \<longleftrightarrow> x < y" "\<not> dlt NaN a" "\<not> dlt a NaN" "\<not> dlt PInf a" "dlt (Fin x) PInf"
  "\<not> dlt (Fin x) MInf" "dlt MInf (Fin x)"
  by (auto simp: dlt_def)

lemma dle_simps [simp]:
  "dle (Fin x) (Fin y) \<longleftrightarrow> x \<le> y" "\<not> dle NaN a" "\<not> dle a NaN" "\<not> dle PInf (Fin x)"
  "dle (Fin x) PInf" "\<not> dle (Fin x) MInf" "dle MInf (Fin x)"
  by (auto simp: dle_def)

lemma deq_simps [simp]: "deq (Fin x) (Fin y) \<longleftrightarrow> x = y" "\<not> deq NaN a" "\<not> deq a NaN"
  by (auto simp: deq_def)

lemma dlt_less: "a \<noteq> NaN \<Longrightarrow> b \<noteq> NaN \<Longrightarrow> dlt a b \<longleftrightarrow> a < b"
  by (simp add: dlt_def)

lemma dlt_0_pos: "dlt (Fin 0) a \<Longrightarrow> a \<noteq> PInf \<Longrightarrow> \<exists>x. a = Fin x \<and> 0 < x"
  by (cases a) (auto simp: dlt_def less_double_def)

text \<open>A model value that is a double: a finite one is representable.\<close>

fun is_double :: "double \<Rightarrow> bool" where
  "is_double (Fin x) = representable x"
| "is_double _ = True"

lemma is_double_round64 [simp]: "is_double (round64 x)"
  using round64_Fin_representable by (cases "round64 x") auto

lemma representable_numeral [simp]:
  "numeral n \<le> (2 ^ 53 :: int) \<Longrightarrow> representable (numeral n)" "representable 0" "representable 1"
  using is_double_round64 [of "numeral n"] is_double_round64 [of 0] is_double_round64 [of 1] by simp_all

lemma is_double_dneg [simp]: "is_double a \<Longrightarrow> is_double (dneg a)"
  by (cases a) (auto simp: representable_minus)

lemma is_double_inf_sign [simp]: "is_double (inf_sign s)"
  by (simp add: inf_sign_def)

lemma is_double_dadd [simp]: "is_double (dadd a b)"
  by (cases "(a, b)" rule: dadd.cases) auto

lemma is_double_dsub [simp]: "is_double (dsub a b)"
  by (simp add: dsub_def)

lemma is_double_dmul [simp]: "is_double (dmul a b)"
  by (cases "(a, b)" rule: dmul.cases) auto

lemma is_double_ddiv [simp]: "is_double (ddiv a b)"
  by (cases "(a, b)" rule: ddiv.cases) (auto simp: representable_def)

section \<open>The rounding interface\<close>

text \<open>
  What the components rely on: rounding is monotone, keeps the representable numbers and
  returns only such numbers. The bounds on the program's prices follow from these laws
  alone.
\<close>

locale rounding =
  fixes rnd :: "rat \<Rightarrow> double" and rep :: "rat \<Rightarrow> bool"
  assumes rnd_mono: "x \<le> y \<Longrightarrow> rnd x \<le> rnd y"
    and rnd_rep: "rep x \<Longrightarrow> rnd x = Fin x"
    and rnd_closed: "rnd x = Fin y \<Longrightarrow> rep y"
begin

lemma rnd_le: "rep b \<Longrightarrow> x \<le> b \<Longrightarrow> rnd x \<le> Fin b"
  using rnd_mono rnd_rep by metis

lemma rnd_ge: "rep a \<Longrightarrow> a \<le> x \<Longrightarrow> Fin a \<le> rnd x"
  using rnd_mono rnd_rep by metis

lemma rnd_between:
  assumes "rep a" "rep b" "a \<le> x" "x \<le> b"
  obtains y where "rnd x = Fin y" "a \<le> y" "y \<le> b" "rep y"
proof -
  have "Fin a \<le> rnd x" "rnd x \<le> Fin b" using assms rnd_le rnd_ge by blast+
  then obtain y where "rnd x = Fin y" "a \<le> y" "y \<le> b" by (cases "rnd x") auto
  then show ?thesis using that rnd_closed by blast
qed

lemma midpoint:
  assumes "rep a" "rep b" "rep (2 * a)" "rep (2 * b)" "a \<le> b"
  obtains s m where "rnd (a + b) = Fin s" "rnd (s / 2) = Fin m" "a \<le> m" "m \<le> b" "rep m"
proof -
  obtain s where s: "rnd (a + b) = Fin s" "2 * a \<le> s" "s \<le> 2 * b"
    using rnd_between [of "2 * a" "2 * b" "a + b"] assms by auto
  obtain m where "rnd (s / 2) = Fin m" "a \<le> m" "m \<le> b" "rep m"
    using rnd_between [of a b "s / 2"] assms s by auto
  then show ?thesis using that s(1) by blast
qed

end

interpretation ieee: rounding round64 representable
  by unfold_locales (auto simp: round64_mono representable_def dest: round64_Fin_representable [unfolded representable_def])

text \<open>The midpoint \<open>(a + b) / 2.0\<close> lies between its arguments, rounding included.\<close>

lemma ddiv_midpoint:
  assumes "representable a" "representable b" "a \<le> b" "\<bar>a\<bar> < double_limit / 2" "\<bar>b\<bar> < double_limit / 2"
  obtains m where "ddiv (dadd (Fin a) (Fin b)) (Fin 2) = Fin m" "a \<le> m" "m \<le> b" "representable m"
proof -
  have "representable (2 * a)" "representable (2 * b)" using assms by (auto intro: representable_double)
  then obtain s m where "round64 (a + b) = Fin s" "round64 (s / 2) = Fin m" "a \<le> m" "m \<le> b" "representable m"
    using ieee.midpoint assms by metis
  then show ?thesis using that by simp
qed

lemma round64_limit: assumes "double_limit \<le> x" shows "round64 x = PInf"
proof -
  have pos: "0 < double_limit" by (simp add: double_limit_def)
  have "dyadic double_limit" by (rule dyadicI [of _ 1 1024]) (simp_all add: double_limit_def)
  then have "round_mag double_limit = double_limit" using pos by (intro round_mag_dyadic) auto
  then have "overflows (round_mag x)" using round_mag_mono [of double_limit x] assms pos by (simp add: overflows_iff)
  then show ?thesis using assms pos by (simp add: round64_def)
qed

text \<open>The lower bound holds even when the sum overflows.\<close>

lemma midpoint_ge:
  assumes "representable a" "0 < a" "a \<le> b"
  shows "Fin a \<le> ddiv (dadd (Fin a) (Fin b)) (Fin 2)"
proof (cases "a < double_limit / 2")
  case True
  then have "representable (2 * a)" using assms by (intro representable_double) auto
  then have "Fin (2 * a) \<le> round64 (a + b)" using assms by (intro ieee.rnd_ge) auto
  then show ?thesis using ieee.rnd_ge [OF assms(1)] by (cases "round64 (a + b)") (auto simp: inf_sign_def)
next
  case False
  then have "round64 (a + b) = PInf" using assms by (intro round64_limit) linarith
  then show ?thesis by (simp add: inf_sign_def)
qed

end
