(* ===== verification/MarketTick.thy ===== *)
theory MarketTick
  imports Double
begin

text \<open>
  The messages of the pipeline: \<open>MarketTick\<close> (\<open>core/MarketTick.hpp\<close>) and \<open>MarketSnapshot\<close>
  (\<open>core/MarketSnapshot.hpp\<close>). The padding bytes of a tick are zero in every object the
  program creates and are left out. The clock reading of the factory is an argument.
\<close>

record MarketTick =
  mt_symbol :: symbol8
  mt_price :: double
  mt_volume :: double
  mt_timestamp_ns :: i64
  mt_side :: u8

record MarketSnapshot =
  ms_symbol :: symbol8
  ms_price :: double
  ms_volume :: double
  ms_timestamp_ns :: i64
  ms_sequence :: i64

definition zero_tick :: MarketTick where
  "zero_tick = \<lparr>mt_symbol = replicate 8 NUL, mt_price = Fin 0, mt_volume = Fin 0,
     mt_timestamp_ns = 0, mt_side = 0\<rparr>"

definition zero_snapshot :: MarketSnapshot where
  "zero_snapshot = \<lparr>ms_symbol = replicate 8 NUL, ms_price = Fin 0, ms_volume = Fin 0,
     ms_timestamp_ns = 0, ms_sequence = 0\<rparr>"

text \<open>\<open>MarketTick::make\<close>: up to eight characters of the symbol, the rest stays zero.\<close>

definition make_tick :: "string \<Rightarrow> double \<Rightarrow> double \<Rightarrow> u8 \<Rightarrow> i64 \<Rightarrow> MarketTick" where
  "make_tick symb price volume side now =
     (let len = (if length symb < 8 then length symb else 8);
          tick = zero_tick;
          tick = (if 0 < len then tick\<lparr>mt_symbol := take len symb @ drop len (mt_symbol tick)\<rparr> else tick)
      in tick\<lparr>mt_price := price, mt_volume := volume, mt_side := side, mt_timestamp_ns := now\<rparr>)"

text \<open>The defaulted \<open>operator==\<close>: memberwise, with the \<open>double\<close> comparison.\<close>

definition tick_eq :: "MarketTick \<Rightarrow> MarketTick \<Rightarrow> bool" where
  "tick_eq a b \<longleftrightarrow> mt_symbol a = mt_symbol b \<and> deq (mt_price a) (mt_price b) \<and>
     deq (mt_volume a) (mt_volume b) \<and> mt_timestamp_ns a = mt_timestamp_ns b \<and> mt_side a = mt_side b"

definition side_str :: "u8 \<Rightarrow> string" where
  "side_str s = (if s = 0 then ''BID'' else if s = 1 then ''ASK'' else ''TRADE'')"

section \<open>Facts\<close>

lemma length_make_tick_symbol: "length (mt_symbol (make_tick symb p v s now)) = 8"
  by (simp add: make_tick_def zero_tick_def Let_def)

lemma make_tick_symbol: "mt_symbol (make_tick symb p v s now) = take 8 (symb @ replicate 8 NUL)"
  by (auto simp: make_tick_def zero_tick_def Let_def min_def)

lemma make_tick_fields [simp]:
  "mt_price (make_tick symb p v s now) = p" "mt_volume (make_tick symb p v s now) = v"
  "mt_side (make_tick symb p v s now) = s" "mt_timestamp_ns (make_tick symb p v s now) = now"
  by (simp_all add: make_tick_def Let_def)

lemma sym_string_make_tick:
  assumes "NUL \<notin> set symb"
  shows "sym_string (mt_symbol (make_tick symb p v s now)) = take 8 symb"
proof -
  have "NUL \<notin> set (take 8 symb)" using assms by (auto dest: in_set_takeD)
  then show ?thesis
    by (cases "8 - length symb") (simp_all add: sym_string_takeWhile make_tick_symbol takeWhile_id takeWhile_append take_Cons')
qed

section \<open>Properties\<close>

text \<open>
  The factory keeps a symbol of at most eight characters: reading the array back up to its
  first NUL, as every later stage does, gives the symbol, and a longer symbol is cut to its
  first eight characters. The array always has eight characters.
\<close>

theorem make_tick_symbol_roundtrip:
  assumes "NUL \<notin> set symb"
  shows "sym_string (mt_symbol (make_tick symb p v s now)) = take 8 symb
    \<and> length (mt_symbol (make_tick symb p v s now)) = 8"
  using sym_string_make_tick [OF assms] length_make_tick_symbol by blast

theorem make_tick_symbol_roundtrip_witness:
  "sym_string (mt_symbol (make_tick ''BTCUSD'' (Fin 42000) (Fin 1) 1 5)) = ''BTCUSD''
   \<and> length (mt_symbol (make_tick ''BTCUSD'' (Fin 42000) (Fin 1) 1 5)) = 8"
  using make_tick_symbol_roundtrip [of "''BTCUSD''" "Fin 42000" "Fin 1" 1 5] by simp

end
