(* ===== verification/TickParser.thy ===== *)
theory TickParser
  imports MarketTick Stage
begin

text \<open>
  Pipeline stage 2, \<open>processing/TickParser\<close>: reads raw ticks, normalises and validates them and
  forwards the valid ones, with back-pressure while it runs and without while it drains.
  Logging is left out.
\<close>

record TickParser =
  tp_input :: "MarketTick ring"
  tp_output :: "MarketTick ring"
  tp_processed :: u64
  tp_rejected :: u64

definition enrich :: "MarketTick \<Rightarrow> MarketTick" where
  "enrich tick = tick\<lparr>mt_symbol := (mt_symbol tick)[7 := NUL], mt_side := min (mt_side tick) 2\<rparr>"

definition validate :: "MarketTick \<Rightarrow> bool" where
  "validate tick =
     (if dle (mt_price tick) (Fin 0) \<or> isnan (mt_price tick) \<or> isinf (mt_price tick) then False
      else if dle (mt_volume tick) (Fin 0) \<or> isnan (mt_volume tick) then False
      else if sint (mt_timestamp_ns tick) \<le> 0 then False
      else if mt_side tick > 2 then False
      else if mt_symbol tick ! 0 = NUL then False
      else True)"

text \<open>\<open>TickParser::process_tick\<close>; the boolean says whether a tick was popped.\<close>

definition parser_process_tick ::
  "MarketTick obs list \<Rightarrow> TickParser \<Rightarrow> (bool \<times> TickParser \<times> MarketTick obs list) option" where
  "parser_process_tick obs st = (case try_pop (tp_input st) of
      (None, _) \<Rightarrow> Some (False, st, obs)
    | (Some raw, inq) \<Rightarrow>
        (let tick = enrich raw; st1 = st\<lparr>tp_input := inq\<rparr>
         in if validate tick then
              (case push_spin obs (tp_input st1) (tp_output st1) tick of
                 None \<Rightarrow> None
               | Some (pushed, inq2, outq2, rest) \<Rightarrow>
                   (let st2 = st1\<lparr>tp_input := inq2, tp_output := outq2\<rparr>
                    in Some (True,
                         (if pushed then st2\<lparr>tp_processed := tp_processed st2 + 1\<rparr> else st2), rest)))
            else Some (True, st1\<lparr>tp_rejected := tp_rejected st1 + 1\<rparr>, obs)))"

text \<open>The body of the drain loop: push if there is room, drop otherwise.\<close>

definition parser_drain_tick :: "MarketTick \<Rightarrow> TickParser \<Rightarrow> TickParser" where
  "parser_drain_tick raw st =
     (let tick = enrich raw
      in if validate tick then
           (case try_push (tp_output st) tick of
              (True, q) \<Rightarrow> st\<lparr>tp_output := q, tp_processed := tp_processed st + 1\<rparr>
            | (False, q) \<Rightarrow> st\<lparr>tp_output := q\<rparr>)
         else st\<lparr>tp_rejected := tp_rejected st + 1\<rparr>)"

definition parser_env :: "MarketTick obs \<Rightarrow> TickParser \<Rightarrow> TickParser" where
  "parser_env ob st = st\<lparr>tp_input := env_push (ob_in ob) (tp_input st),
     tp_output := env_pop (ob_out ob) (tp_output st)\<rparr>"

lemma parser_drain_tick_input [simp]: "tp_input (parser_drain_tick raw st) = tp_input st"
  by (simp add: parser_drain_tick_def Let_def split: prod.splits bool.splits)

text \<open>
  \<open>drain_input\<close>, which runs after the loop while the neighbours may still be active: what they do
  before each \<open>try_pop\<close> is the rest of the schedule (the stop flag is not read any more), and
  after it they are quiet.
\<close>

function parser_drain_input :: "MarketTick obs list \<Rightarrow> TickParser \<Rightarrow> TickParser" where
  "parser_drain_input obs st =
     (let st1 = (case obs of [] \<Rightarrow> st | ob # _ \<Rightarrow> parser_env ob st)
      in case try_pop (tp_input st1) of
           (None, _) \<Rightarrow> st1
         | (Some raw, inq) \<Rightarrow> parser_drain_input (tl obs) (parser_drain_tick raw (st1\<lparr>tp_input := inq\<rparr>)))"
  by pat_completeness auto
termination
  by (relation "measures [\<lambda>(obs, st). length obs, \<lambda>(obs, st). ring_load (tp_input st)]")
    (auto simp: try_pop_load split: list.splits)

declare parser_drain_input.simps [simp del]

definition parser_body ::
  "MarketTick obs list \<Rightarrow> TickParser \<Rightarrow> (TickParser \<times> MarketTick obs list) option" where
  "parser_body obs st = map_option snd (parser_process_tick obs st)"

definition parser_run :: "MarketTick obs list \<Rightarrow> TickParser \<Rightarrow> TickParser option" where
  "parser_run obs st = map_option (\<lambda>(st', rest). parser_drain_input rest st') (stage_loop parser_env parser_body obs st)"

section \<open>Invariant\<close>

text \<open>A tick the later stages may rely on.\<close>

definition clean_tick :: "MarketTick \<Rightarrow> bool" where
  "clean_tick t \<longleftrightarrow> (\<exists>p. mt_price t = Fin p \<and> 0 < p) \<and>
     ((\<exists>v. mt_volume t = Fin v \<and> 0 < v) \<or> mt_volume t = PInf) \<and>
     0 < sint (mt_timestamp_ns t) \<and> mt_side t \<le> 2 \<and> mt_symbol t ! 0 \<noteq> NUL \<and> mt_symbol t ! 7 = NUL \<and>
     length (mt_symbol t) = 8"

definition parser_inv :: "TickParser \<Rightarrow> bool" where
  "parser_inv st \<longleftrightarrow> ring_ok (tp_input st) \<and> ring_ok (tp_output st) \<and>
     (\<forall>t \<in> set (ring_items (tp_input st)). length (mt_symbol t) = 8) \<and>
     (\<forall>t \<in> set (ring_items (tp_output st)). clean_tick t)"


lemma validate_iff:
  "validate t \<longleftrightarrow> (\<exists>p. mt_price t = Fin p \<and> 0 < p) \<and>
     ((\<exists>v. mt_volume t = Fin v \<and> 0 < v) \<or> mt_volume t = PInf) \<and>
     0 < sint (mt_timestamp_ns t) \<and> mt_side t \<le> 2 \<and> mt_symbol t ! 0 \<noteq> NUL"
  by (cases "mt_price t"; cases "mt_volume t") (auto simp: validate_def dle_def)

lemma enrich_fields [simp]:
  "mt_price (enrich t) = mt_price t" "mt_volume (enrich t) = mt_volume t"
  "mt_timestamp_ns (enrich t) = mt_timestamp_ns t" "mt_side (enrich t) \<le> 2"
  "mt_symbol (enrich t) ! 0 = mt_symbol t ! 0" "length (mt_symbol (enrich t)) = length (mt_symbol t)"
  by (simp_all add: enrich_def)

lemma clean_enrich: "length (mt_symbol t) = 8 \<Longrightarrow> validate (enrich t) \<Longrightarrow> clean_tick (enrich t)"
  by (auto simp: clean_tick_def validate_iff) (auto simp: enrich_def)

lemma clean_valid: "clean_tick t \<Longrightarrow> validate t"
  by (auto simp: clean_tick_def validate_iff)

lemma parser_inv_env:
  "parser_inv st \<Longrightarrow> \<forall>t \<in> set (ob_in ob). length (mt_symbol t) = 8 \<Longrightarrow> parser_inv (parser_env ob st)"
  using env_push_ok [of "tp_input st" "ob_in ob"] env_pop_ok [of "tp_output st" "ob_out ob"]
    env_push_set [of "tp_input st" "ob_in ob"]
  by (auto simp: parser_inv_def parser_env_def dest: in_set_dropD)

text \<open>One round of the loop, case by case.\<close>

lemma parser_process_cases:
  assumes "ring_ok (tp_input st)" and "parser_process_tick obs st = Some (r, st', rest)"
  obtains (none) "ring_items (tp_input st) = []" "r = False" "st' = st" "rest = obs"
  | (reject) raw inq where "try_pop (tp_input st) = (Some raw, inq)" "ring_items (tp_input st) = raw # ring_items inq"
      "ring_ok inq" "\<not> validate (enrich raw)" "r" "rest = obs"
      "st' = st\<lparr>tp_input := inq, tp_rejected := tp_rejected st + 1\<rparr>"
  | (valid) raw inq pushed inq2 outq2 where "try_pop (tp_input st) = (Some raw, inq)"
      "ring_items (tp_input st) = raw # ring_items inq" "ring_ok inq" "validate (enrich raw)" "r"
      "push_spin obs inq (tp_output st) (enrich raw) = Some (pushed, inq2, outq2, rest)"
      "st' = st\<lparr>tp_input := inq2, tp_output := outq2,
               tp_processed := (if pushed then tp_processed st + 1 else tp_processed st)\<rparr>"
  using assms(1)
proof (cases rule: rb.pop_cases)
  case none
  with assms(2) have "\<not> r" "st' = st" "rest = obs" by (simp_all add: parser_process_tick_def)
  with none that(1) show ?thesis by blast
next
  case (some raw xs inq)
  show ?thesis
  proof (cases "validate (enrich raw)")
    case False
    with assms(2) some have "r" "rest = obs" "st' = st\<lparr>tp_input := inq, tp_rejected := tp_rejected st + 1\<rparr>"
      by (simp_all add: parser_process_tick_def)
    with False some that(2) [of raw inq] show ?thesis by simp
  next
    case True
    then obtain pushed inq2 outq2 where "push_spin obs inq (tp_output st) (enrich raw) = Some (pushed, inq2, outq2, rest)"
      using assms(2) some by (auto simp: parser_process_tick_def Let_def split: option.splits)
    moreover from this have "r" "st' = st\<lparr>tp_input := inq2, tp_output := outq2,
        tp_processed := (if pushed then tp_processed st + 1 else tp_processed st)\<rparr>"
      using assms(2) some True by (auto simp: parser_process_tick_def Let_def)
    ultimately show ?thesis using some True that(3) [of raw inq pushed inq2 outq2] by simp
  qed
qed

lemma parser_process_inv:
  assumes inv: "parser_inv st" and ok: "obs_ok (\<lambda>t. length (mt_symbol t) = 8) obs"
    and step: "parser_process_tick obs st = Some (r, st', rest)"
  shows "parser_inv st'"
proof -
  have r: "ring_ok (tp_input st)" using inv by (simp add: parser_inv_def)
  from r step show ?thesis
  proof (cases rule: parser_process_cases)
    case none
    with inv show ?thesis by simp
  next
    case reject
    with inv show ?thesis by (auto simp: parser_inv_def)
  next
    case (valid raw inq pushed inq2 outq2)
    have in8: "\<forall>t \<in> set (ring_items inq). length (mt_symbol t) = 8" "length (mt_symbol raw) = 8"
      using inv valid(2) by (auto simp: parser_inv_def)
    have "ring_ok (tp_output st)" using inv by (simp add: parser_inv_def)
    then obtain n where "ring_items outq2 = drop n (ring_items (tp_output st)) @ (if pushed then [enrich raw] else [])"
      "ring_ok inq2" "ring_ok outq2" using push_spin_ok [OF valid(3) _ valid(6)] by blast
    moreover have "\<forall>t \<in> set (ring_items inq2). length (mt_symbol t) = 8"
      using push_spin_input [OF valid(3,6) ok in8(1)] .
    ultimately show ?thesis using inv valid(7) clean_enrich [OF in8(2) valid(4)]
      by (auto simp: parser_inv_def dest: in_set_dropD)
  qed
qed

interpretation parser: stage parser_env parser_body parser_inv "\<lambda>t. length (mt_symbol t) = 8"
proof unfold_locales
  fix st and ob :: "MarketTick obs" assume "parser_inv st" "\<forall>x \<in> set (ob_in ob). length (mt_symbol x) = 8"
  then show "parser_inv (parser_env ob st)" by (rule parser_inv_env)
next
  fix st obs st' rest
  assume "parser_inv st" "obs_ok (\<lambda>t. length (mt_symbol t) = 8) obs" "parser_body obs st = Some (st', rest)"
  then show "parser_inv st'" by (auto simp: parser_body_def intro: parser_process_inv)
next
  fix obs st st' rest
  assume "parser_body obs st = Some (st', rest)"
  then show "suffix rest obs \<and> stops obs \<le> Suc (stops rest)"
    by (auto simp: parser_body_def parser_process_tick_def Let_def split: prod.splits option.splits if_splits
        dest: push_spin_rest)
next
  fix obs :: "MarketTick obs list" and st
  assume "0 < stops obs"
  then show "parser_body obs st \<noteq> None"
    by (auto simp: parser_body_def parser_process_tick_def Let_def push_spin_returns
        split: prod.splits option.splits simp del: not_None_eq)
qed

text \<open>The drain loop: what is forwarded, counted and dropped.\<close>

abbreviation accepted :: "MarketTick list \<Rightarrow> MarketTick list" where
  "accepted xs \<equiv> filter validate (map enrich xs)"

lemma parser_drain_fold:
  assumes "ring_ok (tp_output st)"
  shows "let st' = fold parser_drain_tick xs st; room = ring_cap (tp_output st) - length (ring_items (tp_output st))
    in ring_ok (tp_output st') \<and> ring_cap (tp_output st') = ring_cap (tp_output st) \<and>
       ring_items (tp_output st') = ring_items (tp_output st) @ take room (accepted xs) \<and>
       tp_input st' = tp_input st \<and>
       tp_processed st' = tp_processed st + of_nat (min room (length (accepted xs))) \<and>
       tp_rejected st' = tp_rejected st + of_nat (length xs - length (accepted xs))"
  using assms
proof (induction xs arbitrary: st)
  case (Cons x xs)
  have le: "length (accepted xs) \<le> length xs" using length_filter_le [of validate "map enrich xs"] by simp
  show ?case
  proof (cases "validate (enrich x)")
    case False
    then have "parser_drain_tick x st = st\<lparr>tp_rejected := tp_rejected st + 1\<rparr>" by (simp add: parser_drain_tick_def)
    then show ?thesis using Cons.IH [of "st\<lparr>tp_rejected := tp_rejected st + 1\<rparr>"] Cons.prems False le
      by (simp add: Let_def Suc_diff_le)
  next
    case True
    show ?thesis
      using Cons.prems
    proof (cases rule: rb.push_cases [of _ "enrich x"])
      case full
      with True have "parser_drain_tick x st = st" by (simp add: parser_drain_tick_def)
      then show ?thesis using Cons.IH [OF Cons.prems] True full(1) by (simp add: Let_def del: length_ring_items)
    next
      case (room q)
      with True have d: "parser_drain_tick x st = st\<lparr>tp_output := q, tp_processed := tp_processed st + 1\<rparr>"
        by (simp add: parser_drain_tick_def)
      obtain m where m: "ring_cap (tp_output st) - length (ring_items (tp_output st)) = Suc m"
        "ring_cap (tp_output st) - Suc (length (ring_items (tp_output st))) = m"
        using room(1) by (metis Suc_diff_Suc)
      show ?thesis using Cons.IH [of "st\<lparr>tp_output := q, tp_processed := tp_processed st + 1\<rparr>"] d True room m
        by (simp add: Let_def del: length_ring_items)
    qed
  qed
qed (simp add: Let_def)

lemma parser_drain_tick_update [simp]:
  "parser_drain_tick raw (st\<lparr>tp_input := q\<rparr>) = (parser_drain_tick raw st)\<lparr>tp_input := q\<rparr>"
  by (simp add: parser_drain_tick_def Let_def split: prod.splits bool.splits)

lemma fold_parser_drain_tick_update [simp]:
  "fold parser_drain_tick xs (st\<lparr>tp_input := q\<rparr>) = (fold parser_drain_tick xs st)\<lparr>tp_input := q\<rparr>"
  by (induction xs arbitrary: st) auto

lemma parser_drain_input_fold:
  "ring_ok (tp_input st) \<Longrightarrow> \<exists>q. parser_drain_input [] st =
     (fold parser_drain_tick (ring_items (tp_input st)) st)\<lparr>tp_input := q\<rparr> \<and> ring_items q = [] \<and> ring_ok q"
proof (induction "ring_items (tp_input st)" arbitrary: st)
  case Nil
  then show ?case using rb.pop_empty [OF Nil.prems]
    by (subst parser_drain_input.simps) (auto intro!: exI [of _ "tp_input st"])
next
  case (Cons x xs)
  obtain q where q: "try_pop (tp_input st) = (Some x, q)" "ring_items q = xs" "ring_ok q"
    using rb.pop_some [OF Cons.prems Cons.hyps(2) [symmetric]] by auto
  have d: "parser_drain_input [] st = parser_drain_input [] ((parser_drain_tick x st)\<lparr>tp_input := q\<rparr>)"
    using q(1) by (subst parser_drain_input.simps) simp
  show ?case unfolding d Cons.hyps(2) [symmetric]
    using Cons.hyps(1) [of "(parser_drain_tick x st)\<lparr>tp_input := q\<rparr>"] q(2,3) by simp
qed

lemma parser_drain_input_spec:
  assumes "ring_ok (tp_input st)" and "ring_ok (tp_output st)"
  shows "let st' = parser_drain_input [] st; xs = ring_items (tp_input st);
       room = ring_cap (tp_output st) - length (ring_items (tp_output st))
    in ring_items (tp_input st') = [] \<and> ring_ok (tp_input st') \<and> ring_ok (tp_output st') \<and>
       ring_items (tp_output st') = ring_items (tp_output st) @ take room (accepted xs) \<and>
       tp_processed st' = tp_processed st + of_nat (min room (length (accepted xs))) \<and>
       tp_rejected st' = tp_rejected st + of_nat (length xs - length (accepted xs))"
proof -
  define s where "s = fold parser_drain_tick (ring_items (tp_input st)) st"
  obtain q where "parser_drain_input [] st = s\<lparr>tp_input := q\<rparr>" "ring_items q = []" "ring_ok q"
    using parser_drain_input_fold [OF assms(1)] unfolding s_def by blast
  moreover note parser_drain_fold [OF assms(2), of "ring_items (tp_input st)", folded s_def]
  ultimately show ?thesis by (simp add: Let_def del: length_ring_items length_filter_map)
qed

text \<open>With active neighbours the drain still keeps the invariant and empties the input.\<close>

lemma parser_drain_tick_inv:
  assumes "parser_inv st" "try_pop (tp_input st) = (Some raw, q)"
  shows "parser_inv (parser_drain_tick raw (st\<lparr>tp_input := q\<rparr>))"
proof -
  have ok: "ring_ok (tp_input st)" "ring_ok (tp_output st)" using assms(1) by (auto simp: parser_inv_def)
  from ok(1) assms(2) have q: "ring_items (tp_input st) = raw # ring_items q" "ring_ok q"
    by (auto elim: rb.pop_cases)
  have raw: "validate (enrich raw) \<Longrightarrow> clean_tick (enrich raw)"
    using assms(1) q(1) by (auto simp: parser_inv_def clean_enrich)
  from ok(2) show ?thesis
    by (cases rule: rb.push_cases [of _ "enrich raw"])
      (use assms(1) q raw in \<open>auto simp: parser_drain_tick_def parser_inv_def Let_def\<close>)
qed

lemma parser_drain_inv:
  "parser_inv st \<Longrightarrow> obs_ok (\<lambda>t. length (mt_symbol t) = 8) obs \<Longrightarrow>
     parser_inv (parser_drain_input obs st) \<and> ring_items (tp_input (parser_drain_input obs st)) = []"
proof (induction obs st rule: parser_drain_input.induct)
  case (1 obs st)
  define st1 where "st1 = (case obs of [] \<Rightarrow> st | ob # _ \<Rightarrow> parser_env ob st)"
  have inv: "parser_inv st1" using "1.prems" by (auto simp: st1_def parser_inv_env split: list.split)
  then have ok: "ring_ok (tp_input st1)" by (simp add: parser_inv_def)
  have tl: "obs_ok (\<lambda>t. length (mt_symbol t) = 8) (tl obs)" using "1.prems"(2) by (cases obs) auto
  from ok show ?case
  proof (cases rule: rb.pop_cases)
    case none
    then show ?thesis using inv by (subst (1 2) parser_drain_input.simps) (simp add: st1_def [symmetric] Let_def)
  next
    case (some x xs q)
    then have "parser_drain_input obs st = parser_drain_input (tl obs) (parser_drain_tick x (st1\<lparr>tp_input := q\<rparr>))"
      by (subst parser_drain_input.simps) (simp add: st1_def [symmetric])
    then show ?thesis using "1.IH" [OF st1_def some(2) [symmetric] refl parser_drain_tick_inv [OF inv some(2)] tl]
      by simp
  qed
qed

text \<open>A concrete parser: two ticks wait, the first with the undocumented side 7, the second without a price.\<close>

definition demo_raw :: "MarketTick list" where
  "demo_raw = [make_tick ''BTC'' (Fin 100) (Fin 2) 7 5, make_tick ''ETH'' NaN (Fin 1) 0 6]"

definition demo_parser :: TickParser where
  "demo_parser = \<lparr>tp_input = filled_ring 1 zero_tick demo_raw, tp_output = filled_ring 1 zero_tick [],
     tp_processed = 0, tp_rejected = 0\<rparr>"

definition demo_schedule :: "MarketTick obs list" where
  "demo_schedule = [\<lparr>ob_stop = False, ob_in = [], ob_out = 0\<rparr>, \<lparr>ob_stop = False, ob_in = [], ob_out = 0\<rparr>,
     \<lparr>ob_stop = True, ob_in = [], ob_out = 0\<rparr>, \<lparr>ob_stop = True, ob_in = [], ob_out = 0\<rparr>]"

lemma demo_parser_input: "ring_items (tp_input demo_parser) = demo_raw"
  by (simp add: demo_parser_def demo_raw_def)

lemma demo_parser_ok: "parser_inv demo_parser" "ring_ok (tp_input demo_parser)" "ring_ok (tp_output demo_parser)"
  by (simp_all add: parser_inv_def demo_parser_def demo_raw_def length_make_tick_symbol)

lemma demo_accepted: "accepted demo_raw = [make_tick ''BTC'' (Fin 100) (Fin 2) 2 5]"
  by (simp add: demo_raw_def make_tick_def zero_tick_def enrich_def validate_def) (simp add: eval_nat_numeral)

lemma demo_schedule_ok: "obs_ok P demo_schedule" "stop_persists demo_schedule" "2 \<le> stops demo_schedule"
  by (simp_all add: demo_schedule_def stop_persists_def)

section \<open>Properties\<close>

text \<open>
  C15. Whatever the upstream feed delivers and whatever the other threads do, every tick that
  \<open>TickParser::run\<close> puts into its output ring is clean: a finite positive price, a positive
  volume, a positive timestamp, a side of at most 2, a non-empty and NUL-terminated symbol;
  and when it returns it has emptied its input ring.
\<close>

theorem parser_run_clean:
  assumes "parser_inv st" and "obs_ok (\<lambda>t. length (mt_symbol t) = 8) obs" and "parser_run obs st = Some st'"
  shows "(\<forall>t \<in> set (ring_items (tp_output st')). clean_tick t) \<and> ring_items (tp_input st') = []"
proof -
  obtain s rest where s: "stage_loop parser_env parser_body obs st = Some (s, rest)" "st' = parser_drain_input rest s"
    using assms(3) by (auto simp: parser_run_def)
  have "parser_inv s" using parser.loop_inv [OF assms(1,2) s(1)] .
  moreover have "obs_ok (\<lambda>t. length (mt_symbol t) = 8) rest"
    using parser.loop_rest [OF s(1)] assms(2) obs_ok_suffix by blast
  ultimately show ?thesis using parser_drain_inv [of s rest] s(2) by (simp add: parser_inv_def)
qed

theorem parser_run_clean_witness:
  "\<exists>st'. parser_run demo_schedule demo_parser = Some st' \<and>
     (\<forall>t \<in> set (ring_items (tp_output st')). clean_tick t) \<and> ring_items (tp_input st') = []"
proof -
  obtain s rest where "stage_loop parser_env parser_body demo_schedule demo_parser = Some (s, rest)"
    using parser.loop_returns [of demo_schedule demo_parser] demo_schedule_ok(2,3) by auto
  then have run: "parser_run demo_schedule demo_parser = Some (parser_drain_input rest s)" by (simp add: parser_run_def)
  then show ?thesis using parser_run_clean [OF demo_parser_ok(1) demo_schedule_ok(1) run] by blast
qed

text \<open>
  \<open>TickParser::run\<close> returns once a stop is requested: if the stop flag stays set for at least
  two reads, the loop, including a back-pressure loop that was spinning on a full output,
  ends and the drain ends.
\<close>

theorem parser_run_returns:
  assumes "stop_persists obs" and "2 \<le> stops obs"
  shows "\<exists>st'. parser_run obs st = Some st'"
  using parser.loop_returns [of obs st] assms by (auto simp: parser_run_def)

theorem parser_run_returns_witness: "\<exists>st'. parser_run demo_schedule demo_parser = Some st'"
  using parser_run_returns [OF demo_schedule_ok(2,3)] by blast

text \<open>
  The final drain, with no interference from its neighbours, is exact: it forwards, in order, the valid ticks of the input as far as the
  output has room, counts each of them, counts each invalid tick as rejected, and silently
  drops the valid ticks that did not fit.
\<close>

theorem parser_drain_exact:
  assumes "ring_ok (tp_input st)" and "ring_ok (tp_output st)"
  shows "let st' = parser_drain_input [] st; xs = ring_items (tp_input st);
       room = ring_cap (tp_output st) - length (ring_items (tp_output st))
    in ring_items (tp_input st') = [] \<and>
       ring_items (tp_output st') = ring_items (tp_output st) @ take room (accepted xs) \<and>
       tp_processed st' = tp_processed st + of_nat (min room (length (accepted xs))) \<and>
       tp_rejected st' = tp_rejected st + of_nat (length xs - length (accepted xs))"
  using parser_drain_input_spec [OF assms] by (simp add: Let_def)

theorem parser_drain_exact_witness:
  "ring_items (tp_output (parser_drain_input [] demo_parser)) = [make_tick ''BTC'' (Fin 100) (Fin 2) 2 5]
   \<and> tp_processed (parser_drain_input [] demo_parser) = 1 \<and> tp_rejected (parser_drain_input [] demo_parser) = 1"
proof -
  have "ring_items (tp_output demo_parser) = []" "ring_cap (tp_output demo_parser) = 2"
    "tp_processed demo_parser = 0" "tp_rejected demo_parser = 0" "length demo_raw = 2"
    by (simp_all add: demo_parser_def demo_raw_def)
  then show ?thesis using parser_drain_exact [OF demo_parser_ok(2,3)]
    by (simp add: demo_parser_input demo_accepted Let_def del: length_ring_items length_filter_map)
qed

text \<open>
  One call of \<open>process_tick\<close> accounts for the tick it pops in exactly one way: a tick that fails
  validation after \<open>enrich\<close> is counted as rejected and not pushed; a valid one is pushed and
  counted, or, only if a stop was requested while it waited for room, neither pushed nor
  counted. Without a tick nothing changes.
\<close>

theorem parser_process_accounting:
  assumes "parser_inv st" and "parser_process_tick obs st = Some (popped, st', rest)"
  shows "(\<not> popped \<longrightarrow> ring_items (tp_input st) = [] \<and> st' = st)
    \<and> (popped \<longrightarrow> (\<exists>raw xs. ring_items (tp_input st) = raw # xs \<and>
        (if validate (enrich raw)
         then tp_rejected st' = tp_rejected st \<and>
              (\<exists>n pushed. ring_items (tp_output st') =
                   drop n (ring_items (tp_output st)) @ (if pushed then [enrich raw] else []) \<and>
                 tp_processed st' = tp_processed st + (if pushed then 1 else 0) \<and>
                 (\<not> pushed \<longrightarrow> 0 < stops obs))
         else tp_rejected st' = tp_rejected st + 1 \<and> tp_processed st' = tp_processed st \<and>
              tp_output st' = tp_output st \<and> ring_items (tp_input st') = xs)))"
proof -
  have ok: "ring_ok (tp_input st)" "ring_ok (tp_output st)" using assms(1) by (auto simp: parser_inv_def)
  from ok(1) assms(2) show ?thesis
  proof (cases rule: parser_process_cases)
    case (valid raw inq pushed inq2 outq2)
    have "\<not> pushed \<longrightarrow> 0 < stops obs" using push_spin_stop valid(6) by (cases pushed) auto
    moreover obtain n where "ring_items outq2 = drop n (ring_items (tp_output st)) @ (if pushed then [enrich raw] else [])"
      using push_spin_ok [OF valid(3) ok(2) valid(6)] by blast
    ultimately have "tp_rejected st' = tp_rejected st \<and> (\<exists>n pushed. ring_items (tp_output st') =
          drop n (ring_items (tp_output st)) @ (if pushed then [enrich raw] else []) \<and>
        tp_processed st' = tp_processed st + (if pushed then 1 else 0) \<and> (\<not> pushed \<longrightarrow> 0 < stops obs))"
      unfolding valid(7) by (intro conjI exI [of _ n] exI [of _ pushed]) simp_all
    then show ?thesis using valid(2,4,5) by simp
  qed auto
qed

theorem parser_process_accounting_witness:
  "\<exists>st' rest. parser_process_tick demo_schedule demo_parser = Some (True, st', rest) \<and>
     tp_rejected st' = 0 \<and> (tp_processed st' = 0 \<or> tp_processed st' = 1)"
proof -
  have "ring_items (tp_input demo_parser) \<noteq> []" by (simp add: demo_parser_input demo_raw_def)
  then obtain raw q where pop: "try_pop (tp_input demo_parser) = (Some raw, q)"
    using rb.pop_cases [OF demo_parser_ok(2)] by metis
  moreover have "push_spin demo_schedule q (tp_output demo_parser) (enrich raw) \<noteq> None"
    using push_spin_returns [of demo_schedule] demo_schedule_ok(3) by fastforce
  ultimately have "\<exists>s r. parser_process_tick demo_schedule demo_parser = Some (True, s, r)"
    by (auto simp: parser_process_tick_def Let_def)
  then obtain s r where p: "parser_process_tick demo_schedule demo_parser = Some (True, s, r)" by blast
  have v: "validate (enrich (hd demo_raw))" "tp_rejected demo_parser = 0" "tp_processed demo_parser = 0"
    by (simp_all add: demo_raw_def make_tick_def zero_tick_def enrich_def validate_def demo_parser_def)
  obtain raw xs where "demo_raw = raw # xs" "validate (enrich raw) \<longrightarrow> tp_rejected s = tp_rejected demo_parser \<and>
      (tp_processed s = tp_processed demo_parser \<or> tp_processed s = tp_processed demo_parser + 1)"
    using parser_process_accounting [OF demo_parser_ok(1) p] unfolding demo_parser_input by (auto split: if_splits)
  moreover from this(1) have "validate (enrich raw)" using v(1) by (metis list.sel(1))
  ultimately show ?thesis using v p by auto
qed

end
