(* ===== verification/Normalizer.thy ===== *)
theory Normalizer
  imports TickParser
begin

text \<open>
  Pipeline stage 3, \<open>processing/Normalizer\<close>: drops, per symbol, exact repetitions and ticks whose
  timestamp goes backwards, and forwards the rest. The two hash maps keyed by symbol are
  association lists; the hash function itself is modelled and shown not to collide on symbols
  that differ in one character. Logging is left out.
\<close>

record NormalizerStats =
  ticks_forwarded :: u64
  ticks_deduplicated :: u64
  ticks_reordered :: u64

record Normalizer =
  nz_input :: "MarketTick ring"
  nz_output :: "MarketTick ring"
  last_timestamp :: "(symbol8, i64) umap"
  last_tick :: "(symbol8, MarketTick) umap"
  nz_stats :: NormalizerStats

text \<open>\<open>SymbolHash\<close>: FNV-1a over the characters.\<close>

definition fnv_step :: "u64 \<Rightarrow> char \<Rightarrow> u64" where
  "fnv_step hash c = (hash XOR of_char c) * 1099511628211"

definition symbol_hash :: "symbol8 \<Rightarrow> u64" where
  "symbol_hash symb = foldl fnv_step 14695981039346656037 symb"

definition is_duplicate :: "Normalizer \<Rightarrow> MarketTick \<Rightarrow> bool" where
  "is_duplicate nz tick = (case um_find (last_tick nz) (mt_symbol tick) of
      None \<Rightarrow> False
    | Some l \<Rightarrow> deq (mt_price l) (mt_price tick) \<and> mt_timestamp_ns l = mt_timestamp_ns tick)"

definition is_reordered :: "Normalizer \<Rightarrow> MarketTick \<Rightarrow> bool" where
  "is_reordered nz tick = (case um_find (last_timestamp nz) (mt_symbol tick) of
      None \<Rightarrow> False
    | Some l \<Rightarrow> sint (mt_timestamp_ns tick) < sint l)"

definition update_state :: "MarketTick \<Rightarrow> Normalizer \<Rightarrow> Normalizer" where
  "update_state tick nz = nz\<lparr>
     last_timestamp := um_put (last_timestamp nz) (mt_symbol tick) (mt_timestamp_ns tick),
     last_tick := um_put (last_tick nz) (mt_symbol tick) tick\<rparr>"

definition count_dedup :: "Normalizer \<Rightarrow> Normalizer" where
  "count_dedup nz = nz\<lparr>nz_stats := (nz_stats nz)\<lparr>ticks_deduplicated := ticks_deduplicated (nz_stats nz) + 1\<rparr>\<rparr>"

definition count_reordered :: "Normalizer \<Rightarrow> Normalizer" where
  "count_reordered nz = nz\<lparr>nz_stats := (nz_stats nz)\<lparr>ticks_reordered := ticks_reordered (nz_stats nz) + 1\<rparr>\<rparr>"

definition count_forwarded :: "Normalizer \<Rightarrow> Normalizer" where
  "count_forwarded nz = nz\<lparr>nz_stats := (nz_stats nz)\<lparr>ticks_forwarded := ticks_forwarded (nz_stats nz) + 1\<rparr>\<rparr>"

definition norm_process_tick ::
  "MarketTick obs list \<Rightarrow> Normalizer \<Rightarrow> (bool \<times> Normalizer \<times> MarketTick obs list) option" where
  "norm_process_tick obs nz = (case try_pop (nz_input nz) of
      (None, _) \<Rightarrow> Some (False, nz, obs)
    | (Some tick, inq) \<Rightarrow>
        (let nz1 = nz\<lparr>nz_input := inq\<rparr>
         in if is_duplicate nz1 tick then Some (True, count_dedup nz1, obs)
            else if is_reordered nz1 tick then Some (True, count_reordered nz1, obs)
            else
              (let nz2 = update_state tick nz1
               in case push_spin obs (nz_input nz2) (nz_output nz2) tick of
                    None \<Rightarrow> None
                  | Some (pushed, inq2, outq2, rest) \<Rightarrow>
                      (let nz3 = nz2\<lparr>nz_input := inq2, nz_output := outq2\<rparr>
                       in Some (True, (if pushed then count_forwarded nz3 else nz3), rest)))))"

definition norm_drain_tick :: "MarketTick \<Rightarrow> Normalizer \<Rightarrow> Normalizer" where
  "norm_drain_tick tick nz =
     (if is_duplicate nz tick then count_dedup nz
      else if is_reordered nz tick then count_reordered nz
      else
        (let nz2 = update_state tick nz
         in case try_push (nz_output nz2) tick of
              (True, q) \<Rightarrow> count_forwarded (nz2\<lparr>nz_output := q\<rparr>)
            | (False, q) \<Rightarrow> nz2\<lparr>nz_output := q\<rparr>))"

definition norm_env :: "MarketTick obs \<Rightarrow> Normalizer \<Rightarrow> Normalizer" where
  "norm_env ob nz = nz\<lparr>nz_input := env_push (ob_in ob) (nz_input nz), nz_output := env_pop (ob_out ob) (nz_output nz)\<rparr>"

lemmas count_defs [stage_simps] = count_dedup_def count_reordered_def count_forwarded_def

lemma norm_drain_tick_input [simp]: "nz_input (norm_drain_tick tick nz) = nz_input nz"
  by (simp add: norm_drain_tick_def Let_def update_state_def stage_simps split: prod.splits bool.splits)

function norm_drain_input :: "MarketTick obs list \<Rightarrow> Normalizer \<Rightarrow> Normalizer" where
  "norm_drain_input obs nz =
     (let nz1 = (case obs of [] \<Rightarrow> nz | ob # _ \<Rightarrow> norm_env ob nz)
      in case try_pop (nz_input nz1) of
           (None, _) \<Rightarrow> nz1
         | (Some tick, inq) \<Rightarrow> norm_drain_input (tl obs) (norm_drain_tick tick (nz1\<lparr>nz_input := inq\<rparr>)))"
  by pat_completeness auto
termination
  by (relation "measures [\<lambda>(obs, nz). length obs, \<lambda>(obs, nz). ring_load (nz_input nz)]")
    (auto simp: try_pop_load split: list.splits)

declare norm_drain_input.simps [simp del]

definition norm_body :: "MarketTick obs list \<Rightarrow> Normalizer \<Rightarrow> (Normalizer \<times> MarketTick obs list) option" where
  "norm_body obs nz = map_option snd (norm_process_tick obs nz)"

definition norm_run :: "MarketTick obs list \<Rightarrow> Normalizer \<Rightarrow> Normalizer option" where
  "norm_run obs nz = map_option (\<lambda>(nz', rest). norm_drain_input rest nz') (stage_loop norm_env norm_body obs nz)"

section \<open>Reference\<close>

text \<open>
  What the stage is meant to forward of a sequence of ticks, given the last tick forwarded of
  each symbol.
\<close>

definition same_quote :: "MarketTick \<Rightarrow> MarketTick \<Rightarrow> bool" where
  "same_quote a b \<longleftrightarrow> deq (mt_price a) (mt_price b) \<and> mt_timestamp_ns a = mt_timestamp_ns b"

definition older :: "MarketTick \<Rightarrow> MarketTick \<Rightarrow> bool" where
  "older a b \<longleftrightarrow> sint (mt_timestamp_ns a) < sint (mt_timestamp_ns b)"

definition stale :: "(symbol8 \<Rightarrow> MarketTick option) \<Rightarrow> MarketTick \<Rightarrow> bool" where
  "stale L t \<longleftrightarrow> (case L (mt_symbol t) of None \<Rightarrow> False | Some l \<Rightarrow> same_quote l t \<or> older t l)"

definition remember :: "(symbol8 \<Rightarrow> MarketTick option) \<Rightarrow> MarketTick \<Rightarrow> symbol8 \<Rightarrow> MarketTick option" where
  "remember L t s = (if s = mt_symbol t then Some t else L s)"

fun fresh :: "(symbol8 \<Rightarrow> MarketTick option) \<Rightarrow> MarketTick list \<Rightarrow> MarketTick list" where
  "fresh L [] = []"
| "fresh L (t # ts) = (if stale L t then fresh L ts else t # fresh (remember L t) ts)"

definition in_order :: "MarketTick \<Rightarrow> MarketTick \<Rightarrow> bool" where
  "in_order a b \<longleftrightarrow> (mt_symbol a = mt_symbol b \<longrightarrow> \<not> older b a)"

abbreviation of_symbol :: "symbol8 \<Rightarrow> MarketTick list \<Rightarrow> MarketTick list" where
  "of_symbol s ts \<equiv> filter (\<lambda>t. mt_symbol t = s) ts"

section \<open>Invariant\<close>

definition norm_maps_ok :: "Normalizer \<Rightarrow> bool" where
  "norm_maps_ok nz \<longleftrightarrow> (\<forall>s. um_find (last_timestamp nz) s = map_option mt_timestamp_ns (um_find (last_tick nz) s))
     \<and> um_wf (last_timestamp nz) \<and> um_wf (last_tick nz)"

definition norm_out_ok :: "Normalizer \<Rightarrow> MarketTick list \<Rightarrow> bool" where
  "norm_out_ok nz xs \<longleftrightarrow> sorted_wrt in_order xs \<and>
     (\<forall>t \<in> set xs. clean_tick t \<and> (\<exists>l. um_find (last_tick nz) (mt_symbol t) = Some l \<and> \<not> older l t))"

definition norm_inv :: "Normalizer \<Rightarrow> bool" where
  "norm_inv nz \<longleftrightarrow> ring_ok (nz_input nz) \<and> ring_ok (nz_output nz) \<and> norm_maps_ok nz \<and>
     (\<forall>t \<in> set (ring_items (nz_input nz)). clean_tick t) \<and> norm_out_ok nz (ring_items (nz_output nz))"

lemma remember_same [simp]: "remember L t (mt_symbol t) = Some t"
  by (simp add: remember_def)

lemma remember_other [simp]: "s \<noteq> mt_symbol t \<Longrightarrow> remember L t s = L s"
  by (simp add: remember_def)

lemma stale_iff: "norm_maps_ok nz \<Longrightarrow> stale (um_find (last_tick nz)) t \<longleftrightarrow> is_duplicate nz t \<or> is_reordered nz t"
  by (auto simp: stale_def is_duplicate_def is_reordered_def norm_maps_ok_def same_quote_def older_def
      split: option.splits)

lemma update_state_simps [simp]:
  "nz_input (update_state t nz) = nz_input nz" "nz_output (update_state t nz) = nz_output nz"
  "nz_stats (update_state t nz) = nz_stats nz"
  "um_find (last_tick (update_state t nz)) = remember (um_find (last_tick nz)) t"
  by (auto simp: update_state_def remember_def)

lemma norm_maps_update: "norm_maps_ok nz \<Longrightarrow> norm_maps_ok (update_state t nz)"
  by (simp add: norm_maps_ok_def update_state_def)

lemma norm_out_drop: "norm_out_ok nz xs \<Longrightarrow> norm_out_ok nz (drop n xs)"
  by (auto simp: norm_out_ok_def sorted_wrt_drop dest: in_set_dropD)

text \<open>A tick that is not stale may follow everything forwarded so far.\<close>

lemma norm_out_update:
  assumes out: "norm_out_ok nz xs" and new: "\<not> stale (um_find (last_tick nz)) t" and clean: "clean_tick t"
  shows "norm_out_ok (update_state t nz) xs" "norm_out_ok (update_state t nz) (xs @ [t])"
proof -
  have le: "\<not> older t x" if "x \<in> set xs" "mt_symbol x = mt_symbol t" for x
    using that out new by (fastforce simp: norm_out_ok_def stale_def older_def)
  then show 1: "norm_out_ok (update_state t nz) xs"
    using out by (auto simp: norm_out_ok_def remember_def)
  show "norm_out_ok (update_state t nz) (xs @ [t])"
    using 1 le clean by (auto simp: norm_out_ok_def sorted_wrt_append in_order_def older_def)
qed

lemma norm_inv_env:
  "norm_inv nz \<Longrightarrow> \<forall>t \<in> set (ob_in ob). clean_tick t \<Longrightarrow> norm_inv (norm_env ob nz)"
  using env_push_ok [of "nz_input nz" "ob_in ob"] env_pop_ok [of "nz_output nz" "ob_out ob"]
    env_push_set [of "nz_input nz" "ob_in ob"]
  by (auto simp: norm_inv_def norm_env_def norm_maps_ok_def norm_out_ok_def sorted_wrt_drop dest: in_set_dropD)

lemma norm_inv_pop:
  assumes "norm_inv nz" "try_pop (nz_input nz) = (Some t, q)"
  shows "norm_inv (nz\<lparr>nz_input := q\<rparr>)" "clean_tick t" "ring_items (nz_input nz) = t # ring_items q"
proof -
  have "ring_ok (nz_input nz)" using assms(1) by (simp add: norm_inv_def)
  then have q: "ring_items (nz_input nz) = t # ring_items q" "ring_ok q" using assms(2) by (auto elim: rb.pop_cases)
  then show "norm_inv (nz\<lparr>nz_input := q\<rparr>)" "clean_tick t" "ring_items (nz_input nz) = t # ring_items q"
    using assms(1) by (auto simp: norm_inv_def norm_maps_ok_def norm_out_ok_def)
qed

lemma norm_inv_count:
  "norm_inv (count_dedup nz) = norm_inv nz" "norm_inv (count_reordered nz) = norm_inv nz"
  "norm_inv (count_forwarded nz) = norm_inv nz"
  by (simp_all add: stage_simps norm_inv_def norm_maps_ok_def norm_out_ok_def)

lemma norm_inv_rings:
  assumes "norm_inv nz" "\<not> is_duplicate nz t" "\<not> is_reordered nz t" "clean_tick t"
    and "ring_ok inq" "ring_ok outq" "\<forall>x \<in> set (ring_items inq). clean_tick x"
    and "ring_items outq = drop n (ring_items (nz_output nz)) @ (if b then [t] else [])"
  shows "norm_inv ((update_state t nz)\<lparr>nz_input := inq, nz_output := outq\<rparr>)"
proof -
  have m: "norm_maps_ok nz" "\<not> stale (um_find (last_tick nz)) t"
    using assms(1-3) stale_iff [of nz t] by (auto simp: norm_inv_def)
  have "norm_out_ok nz (drop n (ring_items (nz_output nz)))"
    using assms(1) by (auto simp: norm_inv_def intro: norm_out_drop)
  from norm_out_update [OF this m(2) assms(4)] have "norm_out_ok (update_state t nz) (ring_items outq)"
    by (simp add: assms(8))
  moreover have "norm_maps_ok (update_state t nz)" using m(1) by (rule norm_maps_update)
  ultimately show ?thesis using assms(5-7) by (simp add: norm_inv_def norm_maps_ok_def norm_out_ok_def)
qed

lemma norm_process_inv:
  assumes inv: "norm_inv nz" and ok: "obs_ok clean_tick obs" and step: "norm_process_tick obs nz = Some (r, nz', rest)"
  shows "norm_inv nz'"
proof (cases "try_pop (nz_input nz)")
  case (Pair res q)
  show ?thesis
  proof (cases res)
    case None
    with Pair step inv show ?thesis by (simp add: norm_process_tick_def)
  next
    case (Some t)
    define nz1 where "nz1 = nz\<lparr>nz_input := q\<rparr>"
    have pop: "norm_inv nz1" "clean_tick t" "ring_items (nz_input nz) = t # ring_items q"
      using norm_inv_pop [OF inv, of t q] Pair Some by (simp_all add: nz1_def)
    consider "is_duplicate nz1 t" | "is_reordered nz1 t" | "\<not> is_duplicate nz1 t" "\<not> is_reordered nz1 t" by blast
    then show ?thesis
    proof cases
      case 3
      with step Pair Some obtain b inq outq where sp: "push_spin obs q (nz_output nz1) t = Some (b, inq, outq, rest)"
        "nz' = (let n = (update_state t nz1)\<lparr>nz_input := inq, nz_output := outq\<rparr> in if b then count_forwarded n else n)"
        by (auto simp: norm_process_tick_def nz1_def Let_def split: option.splits)
      have okq: "ring_ok q" "ring_ok (nz_output nz1)" "\<forall>x \<in> set (ring_items q). clean_tick x"
        using pop(1) by (auto simp: norm_inv_def nz1_def)
      obtain n where "ring_items outq = drop n (ring_items (nz_output nz1)) @ (if b then [t] else [])"
        "ring_ok inq" "ring_ok outq" using push_spin_ok [OF okq(1,2) sp(1)] by blast
      then have "norm_inv ((update_state t nz1)\<lparr>nz_input := inq, nz_output := outq\<rparr>)"
        using norm_inv_rings [OF pop(1) 3 pop(2)] push_spin_input [OF okq(1) sp(1) ok okq(3)] by blast
      then show ?thesis using sp(2) by (simp add: Let_def norm_inv_count)
    qed (use step Pair Some pop(1) in \<open>auto simp: norm_process_tick_def nz1_def [symmetric] Let_def norm_inv_count split: if_splits\<close>)
  qed
qed

interpretation normalizer: stage norm_env norm_body norm_inv clean_tick
proof unfold_locales
  fix nz and ob :: "MarketTick obs" assume "norm_inv nz" "\<forall>x \<in> set (ob_in ob). clean_tick x"
  then show "norm_inv (norm_env ob nz)" by (rule norm_inv_env)
next
  fix nz obs nz' rest
  assume "norm_inv nz" "obs_ok clean_tick obs" "norm_body obs nz = Some (nz', rest)"
  then show "norm_inv nz'" by (auto simp: norm_body_def intro: norm_process_inv)
next
  fix obs nz nz' rest
  assume "norm_body obs nz = Some (nz', rest)"
  then show "suffix rest obs \<and> stops obs \<le> Suc (stops rest)"
    by (auto simp: norm_body_def norm_process_tick_def Let_def split: prod.splits option.splits if_splits
        dest: push_spin_rest)
next
  fix obs :: "MarketTick obs list" and nz
  assume "0 < stops obs"
  then show "norm_body obs nz \<noteq> None"
    by (auto simp: norm_body_def norm_process_tick_def Let_def push_spin_returns
        split: prod.splits option.splits simp del: not_None_eq)
qed

section \<open>The drain loop\<close>

lemma norm_drain_tick_update [simp]:
  "norm_drain_tick t (nz\<lparr>nz_input := q\<rparr>) = (norm_drain_tick t nz)\<lparr>nz_input := q\<rparr>"
  by (simp add: norm_drain_tick_def is_duplicate_def is_reordered_def Let_def update_state_def stage_simps
      split: prod.splits bool.splits)

lemma fold_norm_drain_tick_update [simp]:
  "fold norm_drain_tick xs (nz\<lparr>nz_input := q\<rparr>) = (fold norm_drain_tick xs nz)\<lparr>nz_input := q\<rparr>"
  by (induction xs arbitrary: nz) auto

lemma norm_drain_input_fold:
  "ring_ok (nz_input nz) \<Longrightarrow> \<exists>q. norm_drain_input [] nz =
     (fold norm_drain_tick (ring_items (nz_input nz)) nz)\<lparr>nz_input := q\<rparr> \<and> ring_items q = [] \<and> ring_ok q"
proof (induction "ring_items (nz_input nz)" arbitrary: nz)
  case Nil
  then show ?case using rb.pop_empty [OF Nil.prems]
    by (subst norm_drain_input.simps) (auto intro!: exI [of _ "nz_input nz"])
next
  case (Cons x xs)
  obtain q where q: "try_pop (nz_input nz) = (Some x, q)" "ring_items q = xs" "ring_ok q"
    using rb.pop_some [OF Cons.prems Cons.hyps(2) [symmetric]] by auto
  have d: "norm_drain_input [] nz = norm_drain_input [] ((norm_drain_tick x nz)\<lparr>nz_input := q\<rparr>)"
    using q(1) by (subst norm_drain_input.simps) simp
  show ?case unfolding d Cons.hyps(2) [symmetric]
    using Cons.hyps(1) [of "(norm_drain_tick x nz)\<lparr>nz_input := q\<rparr>"] q(2,3) by simp
qed

text \<open>What one tick does to the drained state: the reference decides.\<close>

abbreviation dropped_count :: "Normalizer \<Rightarrow> u64" where
  "dropped_count nz \<equiv> ticks_deduplicated (nz_stats nz) + ticks_reordered (nz_stats nz)"

lemma norm_drain_tick_stale:
  assumes "norm_maps_ok nz" "stale (um_find (last_tick nz)) t"
  shows "nz_output (norm_drain_tick t nz) = nz_output nz" "last_tick (norm_drain_tick t nz) = last_tick nz"
    "norm_maps_ok (norm_drain_tick t nz)" "ticks_forwarded (nz_stats (norm_drain_tick t nz)) = ticks_forwarded (nz_stats nz)"
    "dropped_count (norm_drain_tick t nz) = dropped_count nz + 1"
  using assms by (auto simp: stale_iff norm_drain_tick_def stage_simps norm_maps_ok_def)

lemma norm_drain_tick_fresh:
  assumes "norm_maps_ok nz" "\<not> stale (um_find (last_tick nz)) t" "try_push (nz_output nz) t = (b, q)"
  shows "norm_drain_tick t nz = (if b then count_forwarded ((update_state t nz)\<lparr>nz_output := q\<rparr>)
      else (update_state t nz)\<lparr>nz_output := q\<rparr>)"
  using assms by (auto simp: stale_iff norm_drain_tick_def)

lemma length_fresh: "length (fresh L ts) \<le> length ts"
  by (induction L ts rule: fresh.induct) auto

lemma norm_drain_fold:
  assumes "ring_ok (nz_output nz)" "norm_maps_ok nz"
  shows "let nz' = fold norm_drain_tick xs nz; room = ring_cap (nz_output nz) - length (ring_items (nz_output nz));
       out = fresh (um_find (last_tick nz)) xs
    in ring_items (nz_output nz') = ring_items (nz_output nz) @ take room out \<and>
       ticks_forwarded (nz_stats nz') = ticks_forwarded (nz_stats nz) + of_nat (min room (length out)) \<and>
       dropped_count nz' = dropped_count nz + of_nat (length xs - length out)"
  using assms
proof (induction xs arbitrary: nz)
  case (Cons x xs)
  show ?case
  proof (cases "stale (um_find (last_tick nz)) x")
    case True
    note d = norm_drain_tick_stale [OF Cons.prems(2) True]
    have "ring_ok (nz_output (norm_drain_tick x nz))" using d(1) Cons.prems by simp
    from Cons.IH [OF this d(3)] show ?thesis
      using True length_fresh [of "um_find (last_tick nz)" xs] by (simp add: Let_def d Suc_diff_le add.assoc)
  next
    case False
    define u where "u = update_state x nz"
    have m: "norm_maps_ok (u\<lparr>nz_output := q\<rparr>)" "norm_maps_ok (count_forwarded (u\<lparr>nz_output := q\<rparr>))" for q
      using norm_maps_update [OF Cons.prems(2), of x] by (simp_all add: norm_maps_ok_def u_def stage_simps)
    show ?thesis
      using Cons.prems(1)
    proof (cases rule: rb.push_cases [of _ x])
      case full
      then have d: "norm_drain_tick x nz = u\<lparr>nz_output := nz_output nz\<rparr>"
        using norm_drain_tick_fresh [OF Cons.prems(2) False full(2)] by (simp add: u_def)
      show ?thesis using Cons.IH [of "norm_drain_tick x nz"] Cons.prems(1) m(1) False full(1)
        by (simp add: Let_def d u_def del: length_ring_items)
    next
      case (room q)
      then have d: "norm_drain_tick x nz = count_forwarded (u\<lparr>nz_output := q\<rparr>)"
        using norm_drain_tick_fresh [OF Cons.prems(2) False room(2)] by (simp add: u_def)
      obtain m where mm: "ring_cap (nz_output nz) - length (ring_items (nz_output nz)) = Suc m"
        "ring_cap (nz_output nz) - Suc (length (ring_items (nz_output nz))) = m"
        using room(1) by (metis Suc_diff_Suc)
      show ?thesis using Cons.IH [of "norm_drain_tick x nz"] m(2) [of q] False room mm
        by (simp add: Let_def d u_def stage_simps del: length_ring_items)
    qed
  qed
qed (simp add: Let_def)

lemma norm_drain_tick_inv:
  assumes "norm_inv nz" "try_pop (nz_input nz) = (Some t, q)"
  shows "norm_inv (norm_drain_tick t (nz\<lparr>nz_input := q\<rparr>))"
proof -
  define nz1 where "nz1 = nz\<lparr>nz_input := q\<rparr>"
  have pop: "norm_inv nz1" "clean_tick t" using norm_inv_pop [OF assms] by (simp_all add: nz1_def)
  have ok: "ring_ok (nz_output nz1)" "ring_ok (nz_input nz1)" "\<forall>x \<in> set (ring_items (nz_input nz1)). clean_tick x"
    using pop(1) by (simp_all add: norm_inv_def)
  have "norm_inv (norm_drain_tick t nz1)"
  proof (cases "is_duplicate nz1 t \<or> is_reordered nz1 t")
    case True
    then show ?thesis using pop(1) by (auto simp: norm_drain_tick_def norm_inv_count)
  next
    case False
    obtain b q' where p: "try_push (nz_output nz1) t = (b, q')" "ring_ok q'"
      "ring_items q' = ring_items (nz_output nz1) @ (if b then [t] else [])"
      using rb.push_result [OF ok(1), of t] by metis
    then have "norm_inv ((update_state t nz1)\<lparr>nz_input := nz_input nz1, nz_output := q'\<rparr>)"
      using norm_inv_rings [OF pop(1) _ _ pop(2) ok(2) p(2) ok(3), of 0 b] False by simp
    then have "norm_inv ((update_state t nz1)\<lparr>nz_output := q'\<rparr>)" by (simp add: update_state_def)
    then show ?thesis using False p(1) by (cases b) (simp_all add: norm_drain_tick_def norm_inv_count)
  qed
  then show ?thesis by (simp add: nz1_def)
qed

lemma norm_drain_inv:
  "norm_inv nz \<Longrightarrow> obs_ok clean_tick obs \<Longrightarrow>
     norm_inv (norm_drain_input obs nz) \<and> ring_items (nz_input (norm_drain_input obs nz)) = []"
proof (induction obs nz rule: norm_drain_input.induct)
  case (1 obs nz)
  define nz1 where "nz1 = (case obs of [] \<Rightarrow> nz | ob # _ \<Rightarrow> norm_env ob nz)"
  have inv: "norm_inv nz1" using "1.prems" by (auto simp: nz1_def norm_inv_env split: list.split)
  then have ok: "ring_ok (nz_input nz1)" by (simp add: norm_inv_def)
  have tl: "obs_ok clean_tick (tl obs)" using "1.prems"(2) by (cases obs) auto
  from ok show ?case
  proof (cases rule: rb.pop_cases)
    case none
    then show ?thesis using inv by (subst (1 2) norm_drain_input.simps) (simp add: nz1_def [symmetric] Let_def)
  next
    case (some x xs q)
    then have "norm_drain_input obs nz = norm_drain_input (tl obs) (norm_drain_tick x (nz1\<lparr>nz_input := q\<rparr>))"
      by (subst norm_drain_input.simps) (simp add: nz1_def [symmetric])
    then show ?thesis using "1.IH" [OF nz1_def some(2) [symmetric] refl norm_drain_tick_inv [OF inv some(2)] tl]
      by simp
  qed
qed

section \<open>The reference\<close>

lemma fresh_above: "t \<in> set (fresh L ts) \<Longrightarrow> L (mt_symbol t) = Some l \<Longrightarrow> \<not> older t l"
proof (induction L ts arbitrary: l rule: fresh.induct)
  case (2 L u ts)
  show ?case
  proof (cases "stale L u")
    case False
    with "2.prems" consider "t = u" | "t \<in> set (fresh (remember L u) ts)" by auto
    then show ?thesis
    proof cases
      case 2
      show ?thesis
      proof (cases "mt_symbol t = mt_symbol u")
        case True
        then have "\<not> older t u" using "2.IH"(2) [OF False 2, of u] by simp
        then show ?thesis using False "2.prems"(2) True by (auto simp: stale_def older_def)
      qed (use "2.IH"(2) [OF False 2, of l] "2.prems"(2) in simp)
    qed (use False "2.prems"(2) in \<open>simp add: stale_def\<close>)
  qed (use 2 in simp)
qed simp

lemma fresh_in_order: "sorted_wrt in_order (fresh L ts)"
proof (induction L ts rule: fresh.induct)
  case (2 L u ts)
  moreover have "in_order u t" if "t \<in> set (fresh (remember L u) ts)" for t
    using fresh_above [OF that] by (cases "mt_symbol t = mt_symbol u") (auto simp: in_order_def remember_def)
  ultimately show ?case by simp
qed simp

lemma fresh_subseq: "subseq (fresh L ts) ts"
  by (induction L ts rule: fresh.induct) auto

lemma fresh_first: "of_symbol s (fresh L ts) = t # xs \<Longrightarrow> L s = Some l \<Longrightarrow> \<not> same_quote l t"
  by (induction L ts rule: fresh.induct) (auto simp: stale_def split: if_splits)

lemma fresh_no_repeat: "successively (\<lambda>a b. \<not> same_quote a b) (of_symbol s (fresh L ts))"
proof (induction L ts rule: fresh.induct)
  case (2 L u ts)
  then show ?case using fresh_first [of s "remember L u" ts _ _ u]
    by (auto simp: successively_Cons neq_Nil_conv)
qed simp

text \<open>Every tick that is not forwarded repeats, or is older than, one that was forwarded before.\<close>

lemma fresh_justified:
  "t \<in> set ts \<Longrightarrow> t \<notin> set (fresh L ts) \<Longrightarrow>
     \<exists>l. (L (mt_symbol t) = Some l \<or> l \<in> set (fresh L ts) \<and> mt_symbol l = mt_symbol t) \<and> (same_quote l t \<or> older t l)"
proof (induction L ts rule: fresh.induct)
  case (2 L u ts)
  show ?case
  proof (cases "stale L u")
    case True
    show ?thesis
    proof (cases "t = u")
      case True
      then show ?thesis using \<open>stale L u\<close> by (auto simp: stale_def split: option.splits)
    next
      case False
      then show ?thesis using "2.IH"(1) [OF True] "2.prems" True by simp
    qed
  next
    case False
    then obtain l where "remember L u (mt_symbol t) = Some l \<or> l \<in> set (fresh (remember L u) ts) \<and> mt_symbol l = mt_symbol t"
      "same_quote l t \<or> older t l" using "2.IH"(2) [OF False] "2.prems" by auto
    then show ?thesis using False by (cases "mt_symbol t = mt_symbol u") (auto simp: remember_def)
  qed
qed simp

section \<open>The hash\<close>

lemma fnv_step_inj: "fnv_step h c = fnv_step h' c' \<longleftrightarrow> h XOR of_char c = h' XOR of_char c'"
proof
  assume "fnv_step h c = fnv_step h' c'"
  then have "fnv_step h c * 14886173955864302971 = fnv_step h' c' * 14886173955864302971" by simp
  moreover have "(1099511628211 :: u64) * 14886173955864302971 = 1" by simp
  ultimately show "h XOR of_char c = h' XOR of_char c'" by (simp only: fnv_step_def mult.assoc mult_1_right)
qed (simp add: fnv_step_def)

lemma xor_left_cancel: "(a :: u64) XOR b = a XOR c \<longleftrightarrow> b = c"
  by (metis xor.left_commute xor.right_neutral xor_self_eq xor.commute)

lemma of_char_u64: "(of_char c :: u64) = of_nat (of_char c)"
  by (simp only: of_nat_of_char)

lemma of_char_u64_inj: "(of_char c :: u64) = of_char d \<longleftrightarrow> c = d"
proof
  assume "(of_char c :: u64) = of_char d"
  then have "unat (of_nat (of_char c) :: u64) = unat (of_nat (of_char d) :: u64)" by (simp only: of_char_u64)
  moreover have "(of_char c :: nat) < 256" "(of_char d :: nat) < 256" by simp_all
  ultimately show "c = d" by (simp add: unat_of_nat_64)
qed simp

lemma foldl_fnv_inj: "foldl fnv_step h xs = foldl fnv_step h' xs \<Longrightarrow> h = h'"
proof (induction xs arbitrary: h h')
  case (Cons c xs)
  then have "fnv_step h c = fnv_step h' c" by simp
  then show ?case by (simp add: fnv_step_inj xor.commute [of _ "of_char c"] xor_left_cancel)
qed simp

text \<open>A concrete normalizer: a quote, its exact repetition, an older quote, and a newer one wait.\<close>

definition demo_quotes :: "MarketTick list" where
  "demo_quotes = [make_tick ''BTC'' (Fin 100) (Fin 2) 0 5, make_tick ''BTC'' (Fin 100) (Fin 9) 0 5,
     make_tick ''BTC'' (Fin 101) (Fin 2) 0 4, make_tick ''BTC'' (Fin 101) (Fin 2) 0 5]"

definition demo_normalizer :: Normalizer where
  "demo_normalizer = \<lparr>nz_input = filled_ring 2 zero_tick demo_quotes, nz_output = filled_ring 1 zero_tick [],
     last_timestamp = [], last_tick = [],
     nz_stats = \<lparr>ticks_forwarded = 0, ticks_deduplicated = 0, ticks_reordered = 0\<rparr>\<rparr>"

lemma demo_normalizer_simps [simp]:
  "ring_items (nz_input demo_normalizer) = demo_quotes" "ring_items (nz_output demo_normalizer) = []"
  "ring_cap (nz_output demo_normalizer) = 2" "last_tick demo_normalizer = []" "norm_maps_ok demo_normalizer"
  "ring_ok (nz_input demo_normalizer)" "ring_ok (nz_output demo_normalizer)" "length demo_quotes = 4"
  by (simp_all add: demo_normalizer_def demo_quotes_def norm_maps_ok_def)

lemma demo_normalizer_inv: "norm_inv demo_normalizer"
proof -
  have "\<forall>t \<in> set demo_quotes. clean_tick t"
    by (auto simp: demo_quotes_def clean_tick_def make_tick_symbol)
  then show ?thesis by (simp add: norm_inv_def norm_out_ok_def)
qed

lemma demo_fresh: "fresh (um_find []) demo_quotes =
    [make_tick ''BTC'' (Fin 100) (Fin 2) 0 5, make_tick ''BTC'' (Fin 101) (Fin 2) 0 5]"
  by (simp add: demo_quotes_def stale_def same_quote_def older_def remember_def make_tick_symbol)

section \<open>Properties\<close>

text \<open>
  Whatever arrives and whatever the other threads do, the ticks in the output ring of
  \<open>Normalizer::run\<close> are in timestamp order per symbol and are clean ticks, also when ticks were
  lost to a stop or a full output, and the input ring is empty when the stage returns.
\<close>

theorem normalizer_run_ordered:
  assumes "norm_inv nz" and "obs_ok clean_tick obs" and "norm_run obs nz = Some nz'"
  shows "sorted_wrt in_order (ring_items (nz_output nz')) \<and> (\<forall>t \<in> set (ring_items (nz_output nz')). clean_tick t)
    \<and> ring_items (nz_input nz') = []"
proof -
  obtain s rest where s: "stage_loop norm_env norm_body obs nz = Some (s, rest)" "nz' = norm_drain_input rest s"
    using assms(3) by (auto simp: norm_run_def)
  have "norm_inv s" "obs_ok clean_tick rest"
    using normalizer.loop_inv [OF assms(1,2) s(1)] normalizer.loop_rest [OF s(1)] assms(2) obs_ok_suffix by blast+
  then show ?thesis using norm_drain_inv [of s rest] s(2) by (simp add: norm_inv_def norm_out_ok_def)
qed

theorem normalizer_run_ordered_witness:
  "\<exists>nz'. norm_run demo_schedule demo_normalizer = Some nz' \<and> sorted_wrt in_order (ring_items (nz_output nz'))
     \<and> ring_items (nz_input nz') = []"
proof -
  obtain s rest where "stage_loop norm_env norm_body demo_schedule demo_normalizer = Some (s, rest)"
    using normalizer.loop_returns [of demo_schedule demo_normalizer] demo_schedule_ok(2,3) by auto
  then have run: "norm_run demo_schedule demo_normalizer = Some (norm_drain_input rest s)" by (simp add: norm_run_def)
  then show ?thesis using normalizer_run_ordered [OF demo_normalizer_inv demo_schedule_ok(1) run] by blast
qed

text \<open>
  \<open>Normalizer::run\<close> returns once a stop is requested and stays requested.
\<close>

theorem normalizer_run_returns:
  assumes "stop_persists obs" and "2 \<le> stops obs"
  shows "\<exists>nz'. norm_run obs nz = Some nz'"
  using normalizer.loop_returns [of obs nz] assms by (auto simp: norm_run_def)

theorem normalizer_run_returns_witness: "\<exists>nz'. norm_run demo_schedule demo_normalizer = Some nz'"
  using normalizer_run_returns [OF demo_schedule_ok(2,3)] by blast





text \<open>
  \<open>SymbolHash\<close> never collides on two symbols that differ in exactly one character: each of its
  steps is a bijection of the 64 bit state and injective in the character.
\<close>

theorem symbol_hash_one_char:
  assumes "c \<noteq> d"
  shows "symbol_hash (xs @ c # ys) \<noteq> symbol_hash (xs @ d # ys)"
proof
  define h where "h = foldl fnv_step 14695981039346656037 xs"
  assume "symbol_hash (xs @ c # ys) = symbol_hash (xs @ d # ys)"
  then have "fnv_step h c = fnv_step h d" using foldl_fnv_inj by (simp add: symbol_hash_def h_def)
  then show False using assms by (simp only: fnv_step_inj xor_left_cancel of_char_u64_inj)
qed

theorem symbol_hash_one_char_witness: "symbol_hash ''BTC1'' \<noteq> symbol_hash ''BTC2''"
  using symbol_hash_one_char [of "CHR ''1''" "CHR ''2''" "''BTC''" "[]"] by simp

end
