(* ===== verification/OrderBook.thy ===== *)
theory OrderBook
  imports MarketTick
begin

text \<open>
  The order book of one symbol: \<open>book/BookTypes.hpp\<close>, \<open>book/OrderBook.hpp\<close> and \<open>book/OrderBook.cpp\<close>.
  A side of the book is a \<open>std::map<double, uint64_t>\<close>: an association list in ascending order
  of the keys, compared as the C++ map compares them. The locale \<open>price_map\<close> is the contract
  of such a map, and the book refines an abstract book of two finite functions. The clock
  reading of \<open>top_of_book\<close> and \<open>snapshot\<close> is an argument; the warnings on \<open>cerr\<close> are left out.
\<close>

datatype OrderSide = BID | ASK

record PriceLevel =
  pl_price :: double
  pl_volume :: u64

definition level_eq :: "PriceLevel \<Rightarrow> PriceLevel \<Rightarrow> bool" where
  "level_eq a b \<longleftrightarrow> deq (pl_price a) (pl_price b) \<and> pl_volume a = pl_volume b"

definition level_less :: "PriceLevel \<Rightarrow> PriceLevel \<Rightarrow> bool" where
  "level_less a b \<longleftrightarrow> dlt (pl_price a) (pl_price b)"

record TopOfBook =
  tob_symbol :: string
  tob_best_bid :: double
  tob_bid_volume :: u64
  tob_best_ask :: double
  tob_ask_volume :: u64
  tob_spread :: double
  tob_timestamp_ns :: u64

definition tob_is_valid :: "TopOfBook \<Rightarrow> bool" where
  "tob_is_valid t \<longleftrightarrow> dlt (Fin 0) (tob_best_bid t) \<and> dlt (Fin 0) (tob_best_ask t) \<and>
     dlt (tob_best_bid t) (tob_best_ask t)"

record BookDelta =
  bd_symbol :: symbol8
  bd_side :: OrderSide
  bd_price :: double
  bd_volume :: u64
  bd_timestamp_ns :: u64

record BookSnapshot =
  bs_symbol :: symbol8
  bs_bids :: "PriceLevel list"
  bs_asks :: "PriceLevel list"
  bs_timestamp_ns :: u64
  bs_sequence :: u64

type_synonym levels = "(double \<times> u64) list"

section \<open>The price map\<close>

text \<open>\<open>m[k] = v\<close>, \<open>m.erase(k)\<close> with the number of erased entries, and lookup.\<close>

fun map_put :: "double \<Rightarrow> u64 \<Rightarrow> levels \<Rightarrow> levels" where
  "map_put k v [] = [(k, v)]"
| "map_put k v ((k', v') # m) =
     (if dlt k k' then (k, v) # (k', v') # m
      else if dlt k' k then (k', v') # map_put k v m
      else (k', v) # m)"

fun map_erase :: "double \<Rightarrow> levels \<Rightarrow> u64 \<times> levels" where
  "map_erase k [] = (0, [])"
| "map_erase k ((k', v') # m) =
     (if dlt k k' then (0, (k', v') # m)
      else if dlt k' k then (case map_erase k m of (n, m') \<Rightarrow> (n, (k', v') # m'))
      else (1, m))"

fun map_find :: "double \<Rightarrow> levels \<Rightarrow> u64 option" where
  "map_find k [] = None"
| "map_find k ((k', v') # m) =
     (if dlt k k' then None else if dlt k' k then map_find k m else Some v')"

section \<open>The book\<close>

record OrderBook =
  bk_symbol :: symbol8
  bids :: levels
  asks :: levels
  bk_sequence :: u64
  bk_updates_applied :: u64
  bk_levels_removed :: u64

definition new_book :: "string \<Rightarrow> OrderBook" where
  "new_book symb = \<lparr>bk_symbol = (strncpy (replicate 8 NUL) symb 7)[7 := NUL], bids = [], asks = [],
     bk_sequence = 0, bk_updates_applied = 0, bk_levels_removed = 0\<rparr>"

definition best_bid :: "OrderBook \<Rightarrow> double" where
  "best_bid b = (if bids b = [] then Fin 0 else fst (last (bids b)))"

definition best_ask :: "OrderBook \<Rightarrow> double" where
  "best_ask b = (if asks b = [] then Fin 0 else fst (hd (asks b)))"

definition book_apply :: "BookDelta \<Rightarrow> OrderBook \<Rightarrow> OrderBook" where
  "book_apply d b =
     (let b1 = b\<lparr>bk_sequence := bk_sequence b + 1, bk_updates_applied := bk_updates_applied b + 1\<rparr>
      in if bd_volume d > 0 \<and> bd_side d = BID \<and> asks b1 \<noteq> [] \<and> dlt (fst (hd (asks b1))) (bd_price d) then b1
         else if bd_volume d > 0 \<and> bd_side d = ASK \<and> bids b1 \<noteq> [] \<and> dlt (bd_price d) (fst (last (bids b1))) then b1
         else if bd_side d = BID then
           (if bd_volume d = 0 then
              (case map_erase (bd_price d) (bids b1) of
                 (n, m) \<Rightarrow> b1\<lparr>bids := m, bk_levels_removed := bk_levels_removed b1 + n\<rparr>)
            else b1\<lparr>bids := map_put (bd_price d) (bd_volume d) (bids b1)\<rparr>)
         else
           (if bd_volume d = 0 then
              (case map_erase (bd_price d) (asks b1) of
                 (n, m) \<Rightarrow> b1\<lparr>asks := m, bk_levels_removed := bk_levels_removed b1 + n\<rparr>)
            else b1\<lparr>asks := map_put (bd_price d) (bd_volume d) (asks b1)\<rparr>))"

text \<open>\<open>symbol()\<close>: the array read up to its first NUL.\<close>

definition book_symbol :: "OrderBook \<Rightarrow> string" where
  "book_symbol b = takeWhile (\<lambda>c. c \<noteq> NUL) (bk_symbol b)"

definition top_of_book :: "u64 \<Rightarrow> OrderBook \<Rightarrow> TopOfBook" where
  "top_of_book now b =
     (let tob = \<lparr>tob_symbol = book_symbol b, tob_best_bid = Fin 0, tob_bid_volume = 0, tob_best_ask = Fin 0,
            tob_ask_volume = 0, tob_spread = Fin 0, tob_timestamp_ns = 0\<rparr>;
          tob = (if bids b \<noteq> [] then tob\<lparr>tob_best_bid := fst (last (bids b)), tob_bid_volume := snd (last (bids b))\<rparr> else tob);
          tob = (if asks b \<noteq> [] then tob\<lparr>tob_best_ask := fst (hd (asks b)), tob_ask_volume := snd (hd (asks b))\<rparr> else tob);
          tob = (if dlt (Fin 0) (tob_best_bid tob) \<and> dlt (Fin 0) (tob_best_ask tob)
                 then tob\<lparr>tob_spread := dsub (tob_best_ask tob) (tob_best_bid tob)\<rparr> else tob)
      in tob\<lparr>tob_timestamp_ns := now\<rparr>)"

definition level_of :: "double \<times> u64 \<Rightarrow> PriceLevel" where
  "level_of e = \<lparr>pl_price = fst e, pl_volume = snd e\<rparr>"

definition snapshot :: "u64 \<Rightarrow> OrderBook \<Rightarrow> BookSnapshot" where
  "snapshot now b = \<lparr>bs_symbol = (strncpy (replicate 8 NUL) (bk_symbol b) 7)[7 := NUL],
     bs_bids = map level_of (rev (bids b)), bs_asks = map level_of (asks b),
     bs_timestamp_ns = now, bs_sequence = bk_sequence b\<rparr>"

definition bid_levels :: "OrderBook \<Rightarrow> u64" where
  "bid_levels b = of_nat (length (bids b))"

definition ask_levels :: "OrderBook \<Rightarrow> u64" where
  "ask_levels b = of_nat (length (asks b))"

definition book_clear :: "OrderBook \<Rightarrow> OrderBook" where
  "book_clear b = b\<lparr>bids := [], asks := [], bk_sequence := 0, bk_updates_applied := 0, bk_levels_removed := 0\<rparr>"

section \<open>Abstraction\<close>

text \<open>
  The abstract book: a finite function from prices to volumes for each side. An update that
  would put a bid above some ask, or an ask below some bid, is refused.
\<close>

record abook =
  a_bids :: "double \<Rightarrow> u64 option"
  a_asks :: "double \<Rightarrow> u64 option"

definition abs_book :: "OrderBook \<Rightarrow> abook" where
  "abs_book b = \<lparr>a_bids = map_of (bids b), a_asks = map_of (asks b)\<rparr>"

definition crosses :: "BookDelta \<Rightarrow> abook \<Rightarrow> bool" where
  "crosses d ab \<longleftrightarrow> bd_volume d \<noteq> 0 \<and> (case bd_side d of
      BID \<Rightarrow> \<exists>a \<in> dom (a_asks ab). a < bd_price d
    | ASK \<Rightarrow> \<exists>p \<in> dom (a_bids ab). bd_price d < p)"

definition set_level :: "double \<Rightarrow> u64 \<Rightarrow> (double \<Rightarrow> u64 option) \<Rightarrow> double \<Rightarrow> u64 option" where
  "set_level p v f = f(p := if v = 0 then None else Some v)"

definition abs_apply :: "BookDelta \<Rightarrow> abook \<Rightarrow> abook" where
  "abs_apply d ab = (if crosses d ab then ab else case bd_side d of
      BID \<Rightarrow> ab\<lparr>a_bids := set_level (bd_price d) (bd_volume d) (a_bids ab)\<rparr>
    | ASK \<Rightarrow> ab\<lparr>a_asks := set_level (bd_price d) (bd_volume d) (a_asks ab)\<rparr>)"

definition levels_wf :: "levels \<Rightarrow> bool" where
  "levels_wf m \<longleftrightarrow> sorted_wrt (\<lambda>a b. fst a < fst b) m \<and> (\<forall>e \<in> set m. fst e \<noteq> NaN)"

definition uncrossed :: "OrderBook \<Rightarrow> bool" where
  "uncrossed b \<longleftrightarrow> (\<forall>x \<in> set (bids b). \<forall>y \<in> set (asks b). fst x \<le> fst y)"

definition book_ok :: "OrderBook \<Rightarrow> bool" where
  "book_ok b \<longleftrightarrow> levels_wf (bids b) \<and> levels_wf (asks b) \<and> uncrossed b \<and>
     (\<forall>e \<in> set (bids b) \<union> set (asks b). snd e \<noteq> 0) \<and> length (bk_symbol b) = 8 \<and> bk_symbol b ! 7 = NUL"

section \<open>The map interface\<close>

text \<open>
  The laws of \<open>std::map\<close> the book relies on: lookup after an update, entries in strictly
  ascending order, and the entries are what lookup finds.
\<close>

locale price_map =
  fixes put :: "'k::linorder \<Rightarrow> 'v \<Rightarrow> 'm \<Rightarrow> 'm" and del :: "'k \<Rightarrow> 'm \<Rightarrow> 'm"
    and find :: "'k \<Rightarrow> 'm \<Rightarrow> 'v option" and entries :: "'m \<Rightarrow> ('k \<times> 'v) list"
    and wf :: "'m \<Rightarrow> bool" and key :: "'k \<Rightarrow> bool"
  assumes put_wf: "wf m \<Longrightarrow> key k \<Longrightarrow> wf (put k v m)" and del_wf: "wf m \<Longrightarrow> key k \<Longrightarrow> wf (del k m)"
    and put_find: "wf m \<Longrightarrow> key k \<Longrightarrow> key p \<Longrightarrow> find p (put k v m) = (if p = k then Some v else find p m)"
    and del_find: "wf m \<Longrightarrow> key k \<Longrightarrow> key p \<Longrightarrow> find p (del k m) = (if p = k then None else find p m)"
    and sorted: "wf m \<Longrightarrow> sorted_wrt (\<lambda>a b. fst a < fst b) (entries m)"
    and find_entries: "wf m \<Longrightarrow> key p \<Longrightarrow> find p m = Some v \<longleftrightarrow> (p, v) \<in> set (entries m)"
    and entries_key: "wf m \<Longrightarrow> e \<in> set (entries m) \<Longrightarrow> key (fst e)"
begin

lemma first_least: "wf m \<Longrightarrow> e \<in> set (entries m) \<Longrightarrow> fst (hd (entries m)) \<le> fst e"
  using sorted [of m] by (cases "entries m") (auto simp: less_imp_le)

lemma last_greatest: "wf m \<Longrightarrow> e \<in> set (entries m) \<Longrightarrow> fst e \<le> fst (last (entries m))"
  using sorted [of m] by (cases "entries m" rule: rev_cases) (auto simp: sorted_wrt_append less_imp_le)

lemma put_entries:
  "wf m \<Longrightarrow> key k \<Longrightarrow> (p, w) \<in> set (entries (put k v m)) \<longleftrightarrow> (p, w) = (k, v) \<or> p \<noteq> k \<and> (p, w) \<in> set (entries m)"
  by (metis entries_key find_entries fst_conv option.inject prod.inject put_find put_wf)

lemma del_entries:
  "wf m \<Longrightarrow> key k \<Longrightarrow> (p, w) \<in> set (entries (del k m)) \<longleftrightarrow> p \<noteq> k \<and> (p, w) \<in> set (entries m)"
  by (metis del_find del_wf entries_key find_entries fst_conv option.distinct(1))

text \<open>A map is determined by what it finds.\<close>

lemma entries_unique:
  assumes "wf m" "wf m'" "\<And>p. key p \<Longrightarrow> find p m = find p m'"
  shows "entries m = entries m'"
proof -
  have set: "set (entries m) = set (entries m')"
    using assms find_entries entries_key by (metis (no_types, opaque_lifting) fst_conv subrelI subset_antisym)
  have srt: "sorted_wrt (<) (map fst (entries n))" if "wf n" for n
    using sorted [OF that] by (simp add: sorted_wrt_map)
  then have "map fst (entries m) = map fst (entries m')"
    using assms set by (metis list.set_map strict_sorted_equal)
  moreover have "inj_on fst (set (entries m))"
    using srt [OF assms(1)] by (simp add: strict_sorted_iff distinct_map)
  ultimately show ?thesis using set by (metis map_inj_on set_append sup.idem)
qed

end

lemma levels_wf_Nil [simp]: "levels_wf []"
  by (simp add: levels_wf_def)

lemma levels_wf_Cons [simp]:
  "levels_wf (e # m) \<longleftrightarrow> fst e \<noteq> NaN \<and> (\<forall>x \<in> set m. fst e < fst x) \<and> levels_wf m"
  by (auto simp: levels_wf_def)

lemma set_map_put: "levels_wf m \<Longrightarrow> k \<noteq> NaN \<Longrightarrow> set (map_put k v m) = insert (k, v) {e \<in> set m. fst e \<noteq> k}"
  by (induction k v m rule: map_put.induct) (auto simp: dlt_less)

lemma set_map_erase: "levels_wf m \<Longrightarrow> k \<noteq> NaN \<Longrightarrow> set (snd (map_erase k m)) = {e \<in> set m. fst e \<noteq> k}"
  by (induction k m rule: map_erase.induct) (auto simp: dlt_less split: prod.splits)

lemma map_find_iff: "levels_wf m \<Longrightarrow> p \<noteq> NaN \<Longrightarrow> map_find p m = Some v \<longleftrightarrow> (p, v) \<in> set m"
  by (induction p m rule: map_find.induct) (auto simp: dlt_less)

lemma levels_wf_put: "levels_wf m \<Longrightarrow> k \<noteq> NaN \<Longrightarrow> levels_wf (map_put k v m)"
proof (induction k v m rule: map_put.induct)
  case (2 k v k' v' m)
  show ?case
  proof (cases "k < k'")
    case True
    with 2 show ?thesis by (auto simp: dlt_less)
  next
    case False
    with 2 show ?thesis by (auto simp: dlt_less set_map_put)
  qed
qed simp

lemma levels_wf_erase: "levels_wf m \<Longrightarrow> k \<noteq> NaN \<Longrightarrow> levels_wf (snd (map_erase k m))"
proof (induction k m rule: map_erase.induct)
  case (2 k k' v' m)
  then have "snd (map_erase k ((k', v') # m)) =
      (if k < k' then (k', v') # m else if k' < k then (k', v') # snd (map_erase k m) else m)"
    by (simp add: dlt_less split: prod.split)
  with 2 show ?case by (auto simp: set_map_erase dlt_less)
qed simp

interpretation levels: price_map map_put "\<lambda>k m. snd (map_erase k m)" map_find "\<lambda>m. m" levels_wf "\<lambda>k. k \<noteq> NaN"
proof unfold_locales
  fix m k p v assume a: "levels_wf m" "k \<noteq> NaN" "p \<noteq> NaN"
  have "map_find p (map_put k v m) = Some w \<longleftrightarrow> (if p = k then Some v else map_find p m) = Some w" for w
    using a by (auto simp: map_find_iff levels_wf_put set_map_put)
  then show "map_find p (map_put k v m) = (if p = k then Some v else map_find p m)"
    by (metis option.exhaust)
next
  fix m k p assume a: "levels_wf m" "k \<noteq> NaN" "p \<noteq> NaN"
  have "map_find p (snd (map_erase k m)) = Some w \<longleftrightarrow> (if p = k then None else map_find p m) = Some w" for w
    using a by (auto simp: map_find_iff levels_wf_erase set_map_erase)
  then show "map_find p (snd (map_erase k m)) = (if p = k then None else map_find p m)"
    by (metis option.exhaust)
qed (auto simp: levels_wf_put levels_wf_erase map_find_iff, auto simp: levels_wf_def)

lemma erase_count: "levels_wf m \<Longrightarrow> k \<noteq> NaN \<Longrightarrow> fst (map_erase k m) = (if map_find k m = None then 0 else 1)"
  by (induction k m rule: map_erase.induct) (auto simp: dlt_less split: prod.splits)

lemma levels_wf_distinct: "levels_wf m \<Longrightarrow> distinct (map fst m)"
  by (induction m) auto

lemma map_of_rev: "distinct (map fst m) \<Longrightarrow> map_of (rev m) = map_of m"
  using map_of_inject_set [of "rev m" m] by (simp add: rev_map [symmetric])

lemma map_find_map_of: "levels_wf m \<Longrightarrow> p \<noteq> NaN \<Longrightarrow> map_find p m = map_of m p"
  using map_find_iff [of m p] map_of_eq_Some_iff [OF levels_wf_distinct, of m p] by (metis option.exhaust)

lemma map_of_put: "levels_wf m \<Longrightarrow> k \<noteq> NaN \<Longrightarrow> map_of (map_put k v m) = (map_of m)(k \<mapsto> v)"
  by (induction k v m rule: map_put.induct) (auto simp: dlt_less fun_upd_twist)

lemma map_of_erase: "levels_wf m \<Longrightarrow> k \<noteq> NaN \<Longrightarrow> map_of (snd (map_erase k m)) = (map_of m)(k := None)"
proof (induction k m rule: map_erase.induct)
  case (2 k k' v' m)
  consider "k < k'" | "k' < k" | "k = k'" by fastforce
  then show ?case
  proof cases
    case 1
    then have "map_of ((k', v') # m) k = None" using 2 by (force simp: map_of_eq_None_iff)
    then show ?thesis using 1 2 by (simp add: dlt_less fun_upd_idem)
  next
    case 2
    then show ?thesis using "2.IH" "2.prems" by (auto simp: dlt_less fun_upd_twist split: prod.splits)
  next
    case 3
    then have "map_of m k = None" using "2.prems" by (force simp: map_of_eq_None_iff)
    then show ?thesis using 3 by (auto simp: dlt_def)
  qed
qed simp

section \<open>Invariant and refinement\<close>

lemma new_book_ok: "book_ok (new_book symb)"
  by (simp add: book_ok_def new_book_def uncrossed_def length_strncpy)

text \<open>The tests on the first and the last entry decide whether an update crosses.\<close>

lemma best_ask_test:
  assumes "levels_wf m" "p \<noteq> NaN"
  shows "m \<noteq> [] \<and> dlt (fst (hd m)) p \<longleftrightarrow> (\<exists>e \<in> set m. fst e < p)"
  using assms levels.first_least [of m] by (cases m) (auto simp: dlt_less intro: order.strict_trans)

lemma best_bid_test:
  assumes "levels_wf m" "p \<noteq> NaN"
  shows "m \<noteq> [] \<and> dlt p (fst (last m)) \<longleftrightarrow> (\<exists>e \<in> set m. p < fst e)"
proof (cases "m = []")
  case False
  then have "fst (last m) \<noteq> NaN" using assms(1) by (simp add: levels_wf_def)
  then show ?thesis using assms levels.last_greatest [of m] False last_in_set [of m]
    by (auto simp: dlt_less intro: order.strict_trans2)
qed simp

lemma crosses_iff:
  assumes "book_ok b" "bd_price d \<noteq> NaN"
  shows "crosses d (abs_book b) \<longleftrightarrow>
    bd_volume d > 0 \<and> bd_side d = BID \<and> asks b \<noteq> [] \<and> dlt (fst (hd (asks b))) (bd_price d) \<or>
    bd_volume d > 0 \<and> bd_side d = ASK \<and> bids b \<noteq> [] \<and> dlt (bd_price d) (fst (last (bids b)))"
  using best_ask_test [of "asks b" "bd_price d"] best_bid_test [of "bids b" "bd_price d"] assms
  by (cases "bd_side d") (auto simp: crosses_def abs_book_def book_ok_def word_gt_0 dom_map_of_conv_image_fst)

text \<open>The result of an update on every branch.\<close>

lemma book_apply_cases:
  assumes "book_ok b" "bd_price d \<noteq> NaN"
  shows "book_apply d b = (let b1 = b\<lparr>bk_sequence := bk_sequence b + 1, bk_updates_applied := bk_updates_applied b + 1\<rparr>
    in if crosses d (abs_book b) then b1
       else (case bd_side d of
           BID \<Rightarrow> if bd_volume d = 0
             then b1\<lparr>bids := snd (map_erase (bd_price d) (bids b)),
                     bk_levels_removed := bk_levels_removed b + (if map_of (bids b) (bd_price d) = None then 0 else 1)\<rparr>
             else b1\<lparr>bids := map_put (bd_price d) (bd_volume d) (bids b)\<rparr>
         | ASK \<Rightarrow> if bd_volume d = 0
             then b1\<lparr>asks := snd (map_erase (bd_price d) (asks b)),
                     bk_levels_removed := bk_levels_removed b + (if map_of (asks b) (bd_price d) = None then 0 else 1)\<rparr>
             else b1\<lparr>asks := map_put (bd_price d) (bd_volume d) (asks b)\<rparr>))"
  using assms erase_count [of "bids b" "bd_price d"] erase_count [of "asks b" "bd_price d"]
  by (cases "bd_side d")
    (auto simp: book_apply_def crosses_iff Let_def book_ok_def map_find_map_of word_gt_0 split: prod.split)

lemma book_apply_abs:
  assumes "book_ok b" "bd_price d \<noteq> NaN"
  shows "abs_book (book_apply d b) = abs_apply d (abs_book b)"
proof -
  have wf: "levels_wf (bids b)" "levels_wf (asks b)" using assms(1) by (simp_all add: book_ok_def)
  show ?thesis
    by (cases "bd_side d") (simp_all add: book_apply_cases [OF assms] Let_def abs_apply_def abs_book_def
        set_level_def map_of_put map_of_erase wf assms(2))
qed

lemma book_apply_ok:
  assumes "book_ok b" "bd_price d \<noteq> NaN"
  shows "book_ok (book_apply d b)"
proof -
  have wf: "levels_wf (bids b)" "levels_wf (asks b)" using assms(1) by (simp_all add: book_ok_def)
  have vol: "bd_volume d \<noteq> 0 \<Longrightarrow> \<not> crosses d (abs_book b) \<Longrightarrow>
      (bd_side d = BID \<longrightarrow> (\<forall>y \<in> set (asks b). bd_price d \<le> fst y)) \<and>
      (bd_side d = ASK \<longrightarrow> (\<forall>x \<in> set (bids b). fst x \<le> bd_price d))"
    by (auto simp: crosses_def abs_book_def dom_map_of_conv_image_fst not_less split: OrderSide.splits)
  show ?thesis
    using assms(1) vol by (cases "bd_side d") (auto simp: book_apply_cases [OF assms] Let_def book_ok_def uncrossed_def
        levels_wf_put levels_wf_erase set_map_put set_map_erase wf assms(2))
qed

lemma apply_all_ok: "book_ok b \<Longrightarrow> \<forall>d \<in> set ds. bd_price d \<noteq> NaN \<Longrightarrow> book_ok (fold book_apply ds b)"
  by (induction ds arbitrary: b) (auto simp: book_apply_ok)

lemma apply_all_abs:
  "book_ok b \<Longrightarrow> \<forall>d \<in> set ds. bd_price d \<noteq> NaN \<Longrightarrow> abs_book (fold book_apply ds b) = fold abs_apply ds (abs_book b)"
  by (induction ds arbitrary: b) (auto simp: book_apply_ok book_apply_abs)

text \<open>Every price in the book has the properties of the prices that were applied.\<close>

definition book_prices :: "(double \<Rightarrow> bool) \<Rightarrow> OrderBook \<Rightarrow> bool" where
  "book_prices P b \<longleftrightarrow> (\<forall>e \<in> set (bids b) \<union> set (asks b). P (fst e))"

lemma book_apply_prices:
  assumes "book_ok b" "bd_price d \<noteq> NaN" "book_prices P b" "P (bd_price d)"
  shows "book_prices P (book_apply d b)"
proof -
  have wf: "levels_wf (bids b)" "levels_wf (asks b)" using assms(1) by (simp_all add: book_ok_def)
  show ?thesis using assms(3,4) by (cases "bd_side d")
      (auto simp: book_apply_cases [OF assms(1,2)] Let_def book_prices_def set_map_put set_map_erase wf assms(2))
qed

lemma apply_all_prices:
  "book_ok b \<Longrightarrow> \<forall>d \<in> set ds. bd_price d \<noteq> NaN \<and> P (bd_price d) \<Longrightarrow> book_prices P b \<Longrightarrow>
     book_prices P (fold book_apply ds b)"
  by (induction ds arbitrary: b) (auto simp: book_apply_ok book_apply_prices)

lemma new_book_prices [simp]: "book_prices P (new_book symb)"
  by (simp add: book_prices_def new_book_def)

abbreviation pos_price :: "double \<Rightarrow> bool" where
  "pos_price p \<equiv> dlt (Fin 0) p \<and> p \<noteq> PInf"

lemma best_pos:
  "book_prices pos_price b \<Longrightarrow> bids b \<noteq> [] \<Longrightarrow> pos_price (best_bid b)"
  "book_prices pos_price b \<Longrightarrow> asks b \<noteq> [] \<Longrightarrow> pos_price (best_ask b)"
  by (auto simp: book_prices_def best_bid_def best_ask_def)

lemma book_apply_counters:
  "bk_sequence (book_apply d b) = bk_sequence b + 1" "bk_updates_applied (book_apply d b) = bk_updates_applied b + 1"
  "bk_symbol (book_apply d b) = bk_symbol b"
  by (auto simp: book_apply_def Let_def split: prod.splits)

lemma apply_all_counters:
  "bk_sequence (fold book_apply ds b) = bk_sequence b + of_nat (length ds)"
  "bk_updates_applied (fold book_apply ds b) = bk_updates_applied b + of_nat (length ds)"
  "bk_symbol (fold book_apply ds b) = bk_symbol b"
  by (induction ds arbitrary: b) (auto simp: book_apply_counters)

lemma top_of_book_simps [simp]:
  "tob_best_bid (top_of_book now b) = best_bid b" "tob_best_ask (top_of_book now b) = best_ask b"
  by (simp_all add: top_of_book_def best_bid_def best_ask_def Let_def)

lemma top_of_book_spread:
  "tob_spread (top_of_book now b) =
     (if dlt (Fin 0) (best_bid b) \<and> dlt (Fin 0) (best_ask b) then dsub (best_ask b) (best_bid b) else Fin 0)"
  by (auto simp: top_of_book_def best_bid_def best_ask_def Let_def)

lemma best_bid_greatest: "book_ok b \<Longrightarrow> e \<in> set (bids b) \<Longrightarrow> fst e \<le> best_bid b"
  using levels.last_greatest [of "bids b" e] by (auto simp: best_bid_def book_ok_def)

lemma best_ask_least: "book_ok b \<Longrightarrow> e \<in> set (asks b) \<Longrightarrow> best_ask b \<le> fst e"
  using levels.first_least [of "asks b" e] by (auto simp: best_ask_def book_ok_def)

lemma best_not_NaN: "book_ok b \<Longrightarrow> best_bid b \<noteq> NaN" "book_ok b \<Longrightarrow> best_ask b \<noteq> NaN"
  by (auto simp: best_bid_def best_ask_def book_ok_def levels_wf_def)

lemma best_uncrossed: "book_ok b \<Longrightarrow> bids b \<noteq> [] \<Longrightarrow> asks b \<noteq> [] \<Longrightarrow> best_bid b \<le> best_ask b"
  by (simp add: best_bid_def best_ask_def book_ok_def uncrossed_def)

text \<open>Exact difference of ordered prices is not negative, also after rounding.\<close>

lemma dsub_nonneg: "dle a b \<Longrightarrow> a \<noteq> PInf \<Longrightarrow> b \<noteq> MInf \<Longrightarrow> dle (Fin 0) (dsub b a)"
proof (cases "(a, b)" rule: dadd.cases)
  case (1 x y)
  then show ?thesis if "dle a b" using that round64_sign(1) [of "y - x"] by (auto simp: dsub_def dle_def)
qed (auto simp: dsub_def dle_def)

section \<open>Rebuilding a book\<close>

lemma takeWhile_short: "i < length xs \<Longrightarrow> \<not> P (xs ! i) \<Longrightarrow> length (takeWhile P xs) \<le> i"
  by (metis linorder_not_le nth_mem set_takeWhileD takeWhile_nth)

lemma symbol_copy:
  "takeWhile (\<lambda>c. c \<noteq> NUL) ((strncpy (replicate 8 NUL) src 7)[7 := NUL]) = take 7 (takeWhile (\<lambda>c. c \<noteq> NUL) src)"
proof -
  define s where "s = take 7 (takeWhile (\<lambda>c. c \<noteq> NUL) src)"
  have s: "length s \<le> 7" "\<forall>c \<in> set s. c \<noteq> NUL" by (auto simp: s_def dest!: in_set_takeD set_takeWhileD)
  have "strncpy (replicate 8 NUL) src 7 = s @ replicate (7 - length s) NUL @ [NUL]" by (simp add: strncpy_def s_def Let_def)
  then have "(strncpy (replicate 8 NUL) src 7)[7 := NUL] = s @ replicate (7 - length s) NUL @ [NUL]"
    using s(1) by (simp add: list_update_append)
  then show ?thesis using s by (cases "7 - length s") (auto simp: s_def [symmetric] takeWhile_append2)
qed

lemma new_book_symbol: "book_symbol (new_book symb) = take 7 (takeWhile (\<lambda>c. c \<noteq> NUL) symb)"
  by (simp add: book_symbol_def new_book_def symbol_copy)

lemma book_symbol_length: "book_ok b \<Longrightarrow> length (book_symbol b) \<le> 7"
  unfolding book_symbol_def by (rule takeWhile_short) (simp_all add: book_ok_def)

text \<open>The updates that restore the levels of a snapshot.\<close>

definition level_delta :: "OrderSide \<Rightarrow> PriceLevel \<Rightarrow> BookDelta" where
  "level_delta side l = \<lparr>bd_symbol = replicate 8 NUL, bd_side = side, bd_price = pl_price l, bd_volume = pl_volume l,
     bd_timestamp_ns = 0\<rparr>"

definition snapshot_deltas :: "BookSnapshot \<Rightarrow> BookDelta list" where
  "snapshot_deltas sn = map (level_delta BID) (bs_bids sn) @ map (level_delta ASK) (bs_asks sn)"

lemma level_delta_simps [simp]:
  "bd_side (level_delta s (level_of e)) = s" "bd_price (level_delta s (level_of e)) = fst e"
  "bd_volume (level_delta s (level_of e)) = snd e"
  by (simp_all add: level_delta_def level_of_def)

lemma abs_apply_bids:
  "\<forall>e \<in> set es. snd e \<noteq> 0 \<and> (\<forall>y \<in> dom (a_asks ab). fst e \<le> y) \<Longrightarrow> distinct (map fst es) \<Longrightarrow>
     fold abs_apply (map (\<lambda>e. level_delta BID (level_of e)) es) ab = ab\<lparr>a_bids := a_bids ab ++ map_of es\<rparr>"
proof (induction es arbitrary: ab)
  case (Cons e es)
  have "\<not> crosses (level_delta BID (level_of e)) ab"
    using Cons.prems(1) by (simp add: crosses_def) (meson leD)
  then have "abs_apply (level_delta BID (level_of e)) ab = ab\<lparr>a_bids := (a_bids ab)(fst e \<mapsto> snd e)\<rparr>"
    using Cons.prems(1) by (simp add: abs_apply_def set_level_def)
  moreover have "(a_bids ab)(fst e \<mapsto> snd e) ++ map_of es = a_bids ab ++ map_of (e # es)"
    using Cons.prems(2) by (cases e) (simp add: map_add_upd_left dom_map_of_conv_image_fst)
  ultimately show ?case using Cons.IH [of "ab\<lparr>a_bids := (a_bids ab)(fst e \<mapsto> snd e)\<rparr>"] Cons.prems by (simp del: fun_upd_apply map_of.simps)
qed simp

lemma abs_apply_asks:
  "\<forall>e \<in> set es. snd e \<noteq> 0 \<and> (\<forall>x \<in> dom (a_bids ab). x \<le> fst e) \<Longrightarrow> distinct (map fst es) \<Longrightarrow>
     fold abs_apply (map (\<lambda>e. level_delta ASK (level_of e)) es) ab = ab\<lparr>a_asks := a_asks ab ++ map_of es\<rparr>"
proof (induction es arbitrary: ab)
  case (Cons e es)
  have "\<not> crosses (level_delta ASK (level_of e)) ab"
    using Cons.prems(1) by (simp add: crosses_def) (meson leD)
  then have "abs_apply (level_delta ASK (level_of e)) ab = ab\<lparr>a_asks := (a_asks ab)(fst e \<mapsto> snd e)\<rparr>"
    using Cons.prems(1) by (simp add: abs_apply_def set_level_def)
  moreover have "(a_asks ab)(fst e \<mapsto> snd e) ++ map_of es = a_asks ab ++ map_of (e # es)"
    using Cons.prems(2) by (cases e) (simp add: map_add_upd_left dom_map_of_conv_image_fst)
  ultimately show ?case using Cons.IH [of "ab\<lparr>a_asks := (a_asks ab)(fst e \<mapsto> snd e)\<rparr>"] Cons.prems by (simp del: fun_upd_apply map_of.simps)
qed simp

lemma abs_book_eqD:
  assumes "book_ok a" "book_ok b" "abs_book a = abs_book b"
  shows "bids a = bids b" "asks a = asks b"
  using assms levels.entries_unique [of "bids a" "bids b"] levels.entries_unique [of "asks a" "asks b"]
  by (auto simp: abs_book_def book_ok_def map_find_map_of)

lemma snapshot_rebuild_abs:
  assumes "book_ok b"
  shows "abs_book (fold book_apply (snapshot_deltas (snapshot now b)) (new_book symb)) = abs_book b"
proof -
  let ?B = "map (\<lambda>e. level_delta BID (level_of e)) (rev (bids b))" and ?A = "map (\<lambda>e. level_delta ASK (level_of e)) (asks b)"
  have d: "snapshot_deltas (snapshot now b) = ?B @ ?A" by (simp add: snapshot_deltas_def snapshot_def)
  have wf: "levels_wf (bids b)" "levels_wf (asks b)" "distinct (map fst (bids b))" "distinct (map fst (asks b))"
    "\<forall>e \<in> set (bids b) \<union> set (asks b). snd e \<noteq> 0" "uncrossed b"
    using assms by (auto simp: book_ok_def levels_wf_distinct)
  have nan: "\<forall>x \<in> set (?B @ ?A). bd_price x \<noteq> NaN" using wf(1,2) by (auto simp: levels_wf_def)
  have "fold abs_apply ?B (abs_book (new_book symb)) = abs_book (new_book symb)\<lparr>a_bids := map_of (bids b)\<rparr>"
    using abs_apply_bids [of "rev (bids b)" "abs_book (new_book symb)"] wf(3,5)
    by (simp add: abs_book_def new_book_def rev_map [symmetric] map_of_rev)
  moreover have "fold abs_apply ?A (abs_book (new_book symb)\<lparr>a_bids := map_of (bids b)\<rparr>) = abs_book b"
    using abs_apply_asks [of "asks b" "abs_book (new_book symb)\<lparr>a_bids := map_of (bids b)\<rparr>"] wf(4-6)
    by (auto simp: abs_book_def new_book_def dom_map_of_conv_image_fst uncrossed_def)
  ultimately show ?thesis unfolding d using apply_all_abs [OF new_book_ok nan, of symb] by simp
qed

text \<open>A concrete session: two bids, an ask, a crossing bid that is refused, a removal, a locking ask.\<close>

definition demo_delta :: "OrderSide \<Rightarrow> rat \<Rightarrow> u64 \<Rightarrow> BookDelta" where
  "demo_delta side p v = level_delta side (level_of (Fin p, v))"

definition demo_deltas :: "BookDelta list" where
  "demo_deltas = [demo_delta BID 99 5, demo_delta BID 100 7, demo_delta ASK 102 3, demo_delta BID 103 1,
     demo_delta BID 99 0, demo_delta ASK 100 4]"

definition demo_book :: OrderBook where
  "demo_book = fold book_apply demo_deltas (new_book ''BTC'')"

lemma demo_deltas_NaN: "\<forall>d \<in> set demo_deltas. bd_price d \<noteq> NaN"
  by (simp add: demo_deltas_def demo_delta_def)

lemma demo_book_ok: "book_ok demo_book"
  unfolding demo_book_def using apply_all_ok [OF new_book_ok demo_deltas_NaN] .

lemma demo_book_levels: "bids demo_book = [(Fin 100, 7)]" "asks demo_book = [(Fin 100, 4), (Fin 102, 3)]"
  "bk_levels_removed demo_book = 1"
  by (simp_all add: demo_book_def demo_deltas_def demo_delta_def new_book_def book_apply_def Let_def)

section \<open>Properties\<close>





text \<open>
  One update on every branch: it touches only its own side, sets that side's level to the new
  volume or removes it, counts a removal exactly when there was a level to remove, and a
  refused update changes no level; every update moves the two counters, which wrap.
\<close>

theorem book_apply_effect:
  assumes "book_ok b" and "bd_price d \<noteq> NaN"
  shows "let b' = book_apply d b; refused = crosses d (abs_book b);
       own = (case bd_side d of BID \<Rightarrow> bids | ASK \<Rightarrow> asks); other = (case bd_side d of BID \<Rightarrow> asks | ASK \<Rightarrow> bids)
    in other b' = other b \<and> (refused \<longrightarrow> own b' = own b) \<and>
       (\<forall>p. p \<noteq> NaN \<and> \<not> refused \<longrightarrow> map_find p (own b') =
          (if p = bd_price d then if bd_volume d = 0 then None else Some (bd_volume d) else map_find p (own b))) \<and>
       bk_levels_removed b' = bk_levels_removed b +
         (if bd_volume d = 0 \<and> map_find (bd_price d) (own b) \<noteq> None then 1 else 0) \<and>
       bk_updates_applied b' = bk_updates_applied b + 1 \<and> bk_sequence b' = bk_sequence b + 1"
proof -
  have wf: "levels_wf (bids b)" "levels_wf (asks b)" using assms(1) by (simp_all add: book_ok_def)
  have nc: "bd_volume d = 0 \<Longrightarrow> \<not> crosses d (abs_book b)" by (simp add: crosses_def)
  show ?thesis
    by (cases "bd_side d") (use nc in \<open>auto simp: Let_def book_apply_cases [OF assms] levels.put_find levels.del_find
        map_find_map_of wf assms(2)\<close>)
qed

theorem book_apply_effect_witness:
  "bids (book_apply (demo_delta BID 101 9) demo_book) = bids demo_book
   \<and> bk_updates_applied (book_apply (demo_delta BID 101 9) demo_book) = bk_updates_applied demo_book + 1"
proof -
  have "crosses (demo_delta BID 101 9) (abs_book demo_book)" "bd_side (demo_delta BID 101 9) = BID"
    by (auto simp: crosses_def demo_delta_def abs_book_def demo_book_levels)
  moreover have "bd_price (demo_delta BID 101 9) \<noteq> NaN" by (simp add: demo_delta_def)
  ultimately show ?thesis using book_apply_effect [OF demo_book_ok, of "demo_delta BID 101 9"] by (simp add: Let_def)
qed

text \<open>
  C23. A snapshot is complete: its bids are in descending and its asks in ascending price order, and
  applying its levels to an empty book, bids first, gives back both sides of the book; its
  symbol reads as the book's.
\<close>

theorem snapshot_roundtrip:
  assumes "book_ok b"
  shows "let sn = snapshot now b; b' = fold book_apply (snapshot_deltas sn) (new_book symb)
    in sorted_wrt (\<lambda>x y. level_less y x) (bs_bids sn) \<and> sorted_wrt level_less (bs_asks sn) \<and>
       bids b' = bids b \<and> asks b' = asks b \<and> takeWhile (\<lambda>c. c \<noteq> NUL) (bs_symbol sn) = book_symbol b"
proof -
  have wf: "levels_wf (bids b)" "levels_wf (asks b)" using assms by (simp_all add: book_ok_def)
  define b' where "b' = fold book_apply (snapshot_deltas (snapshot now b)) (new_book symb)"
  have "\<forall>d \<in> set (snapshot_deltas (snapshot now b)). bd_price d \<noteq> NaN"
    using wf by (auto simp: snapshot_deltas_def snapshot_def levels_wf_def)
  then have ok: "book_ok b'" unfolding b'_def by (rule apply_all_ok [OF new_book_ok])
  have "sorted_wrt (\<lambda>a b. dlt (fst a) (fst b)) m" if "levels_wf m" for m
    using that by (auto simp: levels_wf_def dlt_def elim!: sorted_wrt_mono_rel [rotated])
  then have srt: "sorted_wrt (\<lambda>x y. level_less y x) (bs_bids (snapshot now b)) \<and> sorted_wrt level_less (bs_asks (snapshot now b))"
    using wf by (simp add: snapshot_def sorted_wrt_map sorted_wrt_rev level_less_def level_of_def rev_map [symmetric])
  have "takeWhile (\<lambda>c. c \<noteq> NUL) (bs_symbol (snapshot now b)) = book_symbol b"
    using book_symbol_length [OF assms] by (simp add: snapshot_def symbol_copy book_symbol_def)
  then show ?thesis unfolding Let_def b'_def [symmetric]
    using srt abs_book_eqD [OF ok assms] snapshot_rebuild_abs [OF assms, of now symb] by (simp add: b'_def)
qed

theorem snapshot_roundtrip_witness:
  "let b' = fold book_apply (snapshot_deltas (snapshot 9 demo_book)) (new_book ''X'')
   in bids b' = [(Fin 100, 7)] \<and> asks b' = [(Fin 100, 4), (Fin 102, 3)]"
  using snapshot_roundtrip [OF demo_book_ok, of 9 "''X''"] by (simp add: Let_def demo_book_levels)

end
