(* ===== verification/BookProcessor.thy ===== *)
theory BookProcessor
  imports OrderBook TickParser
begin

text \<open>
  Pipeline stage 4, \<open>book/BookProcessor\<close>: keeps one order book per symbol, guesses the side of each
  tick from an exponential moving average, applies it, and publishes a snapshot to the
  database queue and to the signal queue whenever the top of the book has moved. The cast of a
  volume to \<open>uint64_t\<close> may be undefined, hence the results of type \<open>cpp\<close>. The clock readings
  in the two tops of book are not used by the code and are 0; logging is left out.
\<close>

record BookProcessor =
  bp_input :: "MarketTick ring"
  db_queue :: "MarketSnapshot ring option"
  signal_queue :: "MarketSnapshot ring option"
  books :: "(string, OrderBook) umap"
  bp_ticks_processed :: u64
  bp_snapshots_dropped :: u64
  reference_price :: "(string, double) umap"

definition kAlpha :: double where
  "kAlpha = round64 (1 / 10)"

definition kMinValidPrice :: double where
  "kMinValidPrice = round64 (1 / 10)"

definition kMaxValidPrice :: double where
  "kMaxValidPrice = Fin 1000000"

definition new_book_processor ::
  "MarketTick ring \<Rightarrow> MarketSnapshot ring option \<Rightarrow> MarketSnapshot ring option \<Rightarrow> BookProcessor" where
  "new_book_processor inp db sig = \<lparr>bp_input = inp, db_queue = db, signal_queue = sig, books = [],
     bp_ticks_processed = 0, bp_snapshots_dropped = 0, reference_price = []\<rparr>"

definition book :: "BookProcessor \<Rightarrow> string \<Rightarrow> OrderBook option" where
  "book bp symb = um_find (books bp) symb"

definition books_active :: "BookProcessor \<Rightarrow> u64" where
  "books_active bp = of_nat (length (books bp))"

text \<open>\<open>determine_side\<close>: the side, and the state with the updated reference price.\<close>

definition determine_side :: "string \<Rightarrow> double \<Rightarrow> BookProcessor \<Rightarrow> OrderSide \<times> BookProcessor" where
  "determine_side symb price bp =
     (if dlt price kMinValidPrice \<or> dlt kMaxValidPrice price then (BID, bp)
      else (case um_find (reference_price bp) symb of
          None \<Rightarrow> (BID, bp\<lparr>reference_price := um_put (reference_price bp) symb price\<rparr>)
        | Some ref0 \<Rightarrow>
            (let side0 = (if dlt price ref0 then BID else ASK);
                 (side, ref) =
                   (case book bp symb of
                      None \<Rightarrow> (side0, ref0)
                    | Some b \<Rightarrow>
                        (let would_cross =
                               (side0 = BID \<and> dlt (Fin 0) (best_ask b) \<and> dle (best_ask b) price) \<or>
                               (side0 = ASK \<and> dlt (Fin 0) (best_bid b) \<and> dle price (best_bid b))
                         in if would_cross then
                              (let ref1 = ddiv (dadd (best_bid b) (best_ask b)) (Fin 2)
                               in (if dlt price ref1 then BID else ASK, ref1))
                            else (side0, ref0)));
                 ref' = dadd (dmul kAlpha price) (dmul (dsub (Fin 1) kAlpha) ref)
             in (side, bp\<lparr>reference_price := um_put (reference_price bp) symb ref'\<rparr>))))"

definition tick_to_delta :: "MarketTick \<Rightarrow> OrderSide \<Rightarrow> BookDelta cpp" where
  "tick_to_delta tick side = (case to_u64 (mt_volume tick) of
      None \<Rightarrow> Undefined
    | Some v \<Rightarrow> Value \<lparr>bd_symbol = mt_symbol tick, bd_side = side, bd_price = mt_price tick, bd_volume = v,
                      bd_timestamp_ns = mt_timestamp_ns tick\<rparr>)"

text \<open>The snapshot of a moved top of book, and its publication to the queues that exist.\<close>

definition make_snapshot :: "MarketTick \<Rightarrow> TopOfBook \<Rightarrow> OrderBook \<Rightarrow> MarketSnapshot" where
  "make_snapshot tick new_top b =
     \<lparr>ms_symbol = mt_symbol tick,
      ms_price = (if dlt (Fin 0) (tob_best_bid new_top) \<and> dlt (Fin 0) (tob_best_ask new_top)
                    then ddiv (dadd (tob_best_bid new_top) (tob_best_ask new_top)) (Fin 2)
                  else if dlt (Fin 0) (tob_best_bid new_top) then tob_best_bid new_top
                  else tob_best_ask new_top),
      ms_volume = of_u64 (tob_bid_volume new_top + tob_ask_volume new_top),
      ms_timestamp_ns = mt_timestamp_ns tick,
      ms_sequence = bk_updates_applied b\<rparr>"

definition publish :: "MarketSnapshot \<Rightarrow> BookProcessor \<Rightarrow> BookProcessor" where
  "publish snap bp =
     (let bp1 = (case db_queue bp of
                   None \<Rightarrow> bp
                 | Some q \<Rightarrow> (case try_push q snap of
                     (True, q') \<Rightarrow> bp\<lparr>db_queue := Some q'\<rparr>
                   | (False, q') \<Rightarrow> bp\<lparr>db_queue := Some q', bp_snapshots_dropped := bp_snapshots_dropped bp + 1\<rparr>))
      in case signal_queue bp1 of
           None \<Rightarrow> bp1
         | Some q \<Rightarrow> bp1\<lparr>signal_queue := Some (snd (try_push q snap))\<rparr>)"

text \<open>The book of a symbol, created empty on its first tick.\<close>

definition book_for :: "string \<Rightarrow> BookProcessor \<Rightarrow> OrderBook \<times> BookProcessor" where
  "book_for symb bp = (case um_find (books bp) symb of
      None \<Rightarrow> (new_book symb, bp\<lparr>books := um_put (books bp) symb (new_book symb)\<rparr>)
    | Some b \<Rightarrow> (b, bp))"

definition bp_process_tick :: "MarketTick \<Rightarrow> BookProcessor \<Rightarrow> BookProcessor cpp" where
  "bp_process_tick tick bp =
     (let symb = sym_string (mt_symbol tick);
          b = fst (book_for symb bp);
          bp1 = snd (book_for symb bp);
          side = fst (determine_side symb (mt_price tick) bp1);
          bp2 = snd (determine_side symb (mt_price tick) bp1)
      in cpp_bind (tick_to_delta tick side) (\<lambda>delta.
           let old_top = top_of_book 0 b;
               b' = book_apply delta b;
               bp3 = bp2\<lparr>books := um_put (books bp2) symb b'\<rparr>;
               new_top = top_of_book 0 b';
               bp4 = bp3\<lparr>bp_ticks_processed := bp_ticks_processed bp3 + 1\<rparr>
           in Value (if (db_queue bp4 \<noteq> None \<or> signal_queue bp4 \<noteq> None) \<and>
                  (\<not> deq (tob_best_bid old_top) (tob_best_bid new_top) \<or> \<not> deq (tob_best_ask old_top) (tob_best_ask new_top))
                then publish (make_snapshot tick new_top b') bp4 else bp4)))"

text \<open>
  The thread function. Besides the ticks that arrive, an observation tells how many snapshots
  each of the two consumers has taken.
\<close>

record book_obs = "MarketTick obs" +
  ob_signals_out :: nat

definition bp_env :: "book_obs \<Rightarrow> BookProcessor \<Rightarrow> BookProcessor" where
  "bp_env ob bp = bp\<lparr>bp_input := env_push (ob_in ob) (bp_input bp),
     db_queue := map_option (env_pop (ob_out ob)) (db_queue bp),
     signal_queue := map_option (env_pop (ob_signals_out ob)) (signal_queue bp)\<rparr>"

definition bp_step :: "BookProcessor \<Rightarrow> BookProcessor cpp" where
  "bp_step bp = (case try_pop (bp_input bp) of
      (None, _) \<Rightarrow> Value bp
    | (Some tick, q) \<Rightarrow> bp_process_tick tick (bp\<lparr>bp_input := q\<rparr>))"

definition bp_body :: "book_obs list \<Rightarrow> BookProcessor cpp \<Rightarrow> (BookProcessor cpp \<times> book_obs list) option" where
  "bp_body obs st = Some (cpp_bind st bp_step, obs)"

lemma determine_side_fields [simp]:
  "bp_input (snd (determine_side symb p bp)) = bp_input bp" "db_queue (snd (determine_side symb p bp)) = db_queue bp"
  "signal_queue (snd (determine_side symb p bp)) = signal_queue bp" "books (snd (determine_side symb p bp)) = books bp"
  "bp_ticks_processed (snd (determine_side symb p bp)) = bp_ticks_processed bp"
  "bp_snapshots_dropped (snd (determine_side symb p bp)) = bp_snapshots_dropped bp"
  by (simp_all add: determine_side_def Let_def split: option.splits prod.splits)

lemma publish_fields [simp]:
  "bp_input (publish snap bp) = bp_input bp" "books (publish snap bp) = books bp"
  "bp_ticks_processed (publish snap bp) = bp_ticks_processed bp" "reference_price (publish snap bp) = reference_price bp"
  by (simp_all add: publish_def Let_def split: option.splits prod.splits bool.splits)

lemma book_for_fields [simp]:
  "bp_input (snd (book_for symb bp)) = bp_input bp" "db_queue (snd (book_for symb bp)) = db_queue bp"
  "signal_queue (snd (book_for symb bp)) = signal_queue bp"
  "bp_ticks_processed (snd (book_for symb bp)) = bp_ticks_processed bp"
  "bp_snapshots_dropped (snd (book_for symb bp)) = bp_snapshots_dropped bp"
  "reference_price (snd (book_for symb bp)) = reference_price bp"
  "um_find (books (snd (book_for symb bp))) s = (if s = symb then Some (fst (book_for symb bp)) else um_find (books bp) s)"
  by (auto simp: book_for_def split: option.split)

lemma bp_process_tick_input: "bp_process_tick tick bp = Value bp' \<Longrightarrow> bp_input bp' = bp_input bp"
  by (auto simp: bp_process_tick_def tick_to_delta_def Let_def split: option.splits if_splits)

function bp_drain :: "book_obs list \<Rightarrow> BookProcessor \<Rightarrow> BookProcessor cpp" where
  "bp_drain obs bp =
     (let bp1 = (case obs of [] \<Rightarrow> bp | ob # _ \<Rightarrow> bp_env ob bp)
      in case try_pop (bp_input bp1) of
           (None, _) \<Rightarrow> Value bp1
         | (Some tick, q) \<Rightarrow> (case bp_process_tick tick (bp1\<lparr>bp_input := q\<rparr>) of
               Undefined \<Rightarrow> Undefined
             | Value bp2 \<Rightarrow> bp_drain (tl obs) bp2))"
  by pat_completeness auto
termination
  by (relation "measures [\<lambda>(obs, bp). length obs, \<lambda>(obs, bp). ring_load (bp_input bp)]")
    (auto simp: try_pop_load dest!: bp_process_tick_input split: list.splits)

declare bp_drain.simps [simp del]

definition bp_run :: "book_obs list \<Rightarrow> BookProcessor \<Rightarrow> BookProcessor cpp option" where
  "bp_run obs bp = map_option (\<lambda>(st, rest). cpp_bind st (bp_drain rest))
     (stage_loop (\<lambda>ob st. cpp_bind st (\<lambda>s. Value (bp_env ob s))) bp_body obs (Value bp))"

section \<open>Invariant\<close>

text \<open>
  What the stage needs of a tick: it is clean, its price is a \<open>double\<close>, and its volume fits
  \<open>uint64_t\<close>.
\<close>

definition bookable :: "MarketTick \<Rightarrow> bool" where
  "bookable t \<longleftrightarrow> clean_tick t \<and> is_double (mt_price t) \<and> (\<exists>v. mt_volume t = Fin v \<and> v < 2 ^ 64)"

definition good_price :: "double \<Rightarrow> bool" where
  "good_price p \<longleftrightarrow> pos_price p \<and> is_double p"

definition book_good :: "string \<Rightarrow> OrderBook \<Rightarrow> bool" where
  "book_good k b \<longleftrightarrow> book_ok b \<and> book_prices good_price b \<and> book_symbol b = k"

definition queue_ok :: "'a ring option \<Rightarrow> bool" where
  "queue_ok q \<longleftrightarrow> (case q of None \<Rightarrow> True | Some r \<Rightarrow> ring_ok r)"

definition bp_inv :: "BookProcessor \<Rightarrow> bool" where
  "bp_inv bp \<longleftrightarrow> ring_ok (bp_input bp) \<and> queue_ok (db_queue bp) \<and> queue_ok (signal_queue bp) \<and>
     (\<forall>k b. um_find (books bp) k = Some b \<longrightarrow> book_good k b) \<and> (\<forall>t \<in> set (ring_items (bp_input bp)). bookable t)"

text \<open>A queue after an attempt to push: appended if there was room, unchanged otherwise.\<close>

definition pushed_to :: "'a \<Rightarrow> 'a ring option \<Rightarrow> 'a ring option \<Rightarrow> bool" where
  "pushed_to x q q' \<longleftrightarrow> (case q of None \<Rightarrow> q' = None | Some r \<Rightarrow> (\<exists>r'. q' = Some r' \<and> ring_ok r' \<and> ring_cap r' = ring_cap r \<and>
     ring_items r' = ring_items r @ (if length (ring_items r) < ring_cap r then [x] else [])))"

definition queue_full :: "'a ring option \<Rightarrow> bool" where
  "queue_full q \<longleftrightarrow> (case q of None \<Rightarrow> False | Some r \<Rightarrow> length (ring_items r) = ring_cap r)"

lemma pushed_to_ok: "pushed_to x q q' \<Longrightarrow> queue_ok q'"
  by (auto simp: pushed_to_def queue_ok_def split: option.splits)

lemma pushed_to_try_push: "ring_ok r \<Longrightarrow> pushed_to x (Some r) (Some (snd (try_push r x)))"
  by (erule rb.push_result [of r x]) (auto simp: pushed_to_def simp del: length_ring_items)

lemma publish_effect:
  assumes "queue_ok (db_queue bp)" "queue_ok (signal_queue bp)"
  shows "pushed_to snap (db_queue bp) (db_queue (publish snap bp))"
    "pushed_to snap (signal_queue bp) (signal_queue (publish snap bp))"
    "bp_snapshots_dropped (publish snap bp) = bp_snapshots_dropped bp + (if queue_full (db_queue bp) then 1 else 0)"
proof -
  have s: "signal_queue (publish snap bp) = map_option (\<lambda>q. snd (try_push q snap)) (signal_queue bp)"
    by (simp add: publish_def Let_def split: option.splits prod.splits bool.splits)
  have d: "db_queue (publish snap bp) = map_option (\<lambda>q. snd (try_push q snap)) (db_queue bp)"
    by (simp add: publish_def Let_def split: option.splits prod.splits bool.splits)
  show "pushed_to snap (signal_queue bp) (signal_queue (publish snap bp))"
    unfolding s using assms(2) by (cases "signal_queue bp") (auto simp: queue_ok_def pushed_to_try_push, simp add: pushed_to_def)
  show "pushed_to snap (db_queue bp) (db_queue (publish snap bp))"
    unfolding d using assms(1) by (cases "db_queue bp") (auto simp: queue_ok_def pushed_to_try_push, simp add: pushed_to_def)
  show "bp_snapshots_dropped (publish snap bp) = bp_snapshots_dropped bp + (if queue_full (db_queue bp) then 1 else 0)"
  proof (cases "db_queue bp")
    case (Some r)
    then have "ring_ok r" using assms(1) by (simp add: queue_ok_def)
    then show ?thesis
      by (cases rule: rb.push_cases [of _ snap])
        (simp_all add: publish_def Let_def Some queue_full_def split: option.splits del: length_ring_items)
  qed (simp add: publish_def Let_def queue_full_def split: option.splits)
qed

section \<open>One tick\<close>

abbreviation tick_sym :: "MarketTick \<Rightarrow> string" where
  "tick_sym t \<equiv> sym_string (mt_symbol t)"

lemma bookable_volume: "bookable t \<Longrightarrow> \<exists>v. to_u64 (mt_volume t) = Some v"
proof -
  assume "bookable t"
  then obtain v where v: "mt_volume t = Fin v" "v < 2 ^ 64" "0 < v" by (auto simp: bookable_def clean_tick_def)
  then have "0 \<le> \<lfloor>v\<rfloor>" "\<lfloor>v\<rfloor> < 2 ^ 64" by (auto simp: floor_less_iff)
  then show ?thesis using v by (simp add: trunc_def)
qed

lemma bookable_price: "bookable t \<Longrightarrow> mt_price t \<noteq> NaN \<and> good_price (mt_price t)"
  by (auto simp: bookable_def clean_tick_def good_price_def)

lemma bookable_symbol: "bookable t \<Longrightarrow> length (tick_sym t) \<le> 7"
  unfolding sym_string_takeWhile by (rule takeWhile_short) (auto simp: bookable_def clean_tick_def)

lemma book_for_good:
  assumes "bp_inv bp" "bookable t" shows "book_good (tick_sym t) (fst (book_for (tick_sym t) bp))"
proof (cases "um_find (books bp) (tick_sym t)")
  case None
  have "book_symbol (new_book (tick_sym t)) = tick_sym t"
    using bookable_symbol [OF assms(2)] NUL_notin_sym_string [of "mt_symbol t"]
    by (simp add: new_book_symbol takeWhile_id)
  then show ?thesis using None by (simp add: book_for_def book_good_def new_book_ok)
next
  case (Some b)
  then show ?thesis using assms(1) by (simp add: book_for_def bp_inv_def)
qed

lemma book_good_apply:
  assumes "book_good k b" "bd_price d \<noteq> NaN" "good_price (bd_price d)"
  shows "book_good k (book_apply d b)"
  using assms book_apply_ok [of b d] book_apply_prices [of b d good_price] book_apply_counters(3) [of d b]
  by (simp add: book_good_def book_symbol_def)

text \<open>The update a tick becomes.\<close>

definition delta_for :: "MarketTick \<Rightarrow> BookProcessor \<Rightarrow> BookDelta" where
  "delta_for t bp = \<lparr>bd_symbol = mt_symbol t,
     bd_side = fst (determine_side (tick_sym t) (mt_price t) (snd (book_for (tick_sym t) bp))),
     bd_price = mt_price t, bd_volume = the (to_u64 (mt_volume t)), bd_timestamp_ns = mt_timestamp_ns t\<rparr>"

definition top_moved :: "OrderBook \<Rightarrow> OrderBook \<Rightarrow> bool" where
  "top_moved b b' \<longleftrightarrow> best_bid b \<noteq> best_bid b' \<or> best_ask b \<noteq> best_ask b'"

lemma bp_process_tick_effect:
  assumes inv: "bp_inv bp" and t: "bookable t"
  defines "b \<equiv> fst (book_for (tick_sym t) bp)"
  defines "b' \<equiv> book_apply (delta_for t bp) b"
  defines "snap \<equiv> make_snapshot t (top_of_book 0 b') b'"
  obtains bp' where "bp_process_tick t bp = Value bp'" "bp_inv bp'" "bp_input bp' = bp_input bp"
    "\<And>k. book bp' k = (if k = tick_sym t then Some b' else book bp k)" "book_good (tick_sym t) b'"
    "bp_ticks_processed bp' = bp_ticks_processed bp + 1"
    "\<not> top_moved b b' \<Longrightarrow> db_queue bp' = db_queue bp \<and> signal_queue bp' = signal_queue bp"
    "top_moved b b' \<Longrightarrow> pushed_to snap (db_queue bp) (db_queue bp') \<and> pushed_to snap (signal_queue bp) (signal_queue bp')"
    "bp_snapshots_dropped bp' = bp_snapshots_dropped bp + (if top_moved b b' \<and> queue_full (db_queue bp) then 1 else 0)"
proof -
  define bp1 where "bp1 = snd (book_for (tick_sym t) bp)"
  define bp2 where "bp2 = snd (determine_side (tick_sym t) (mt_price t) bp1)"
  define bp4 where "bp4 = bp2\<lparr>books := um_put (books bp2) (tick_sym t) b', bp_ticks_processed := bp_ticks_processed bp2 + 1\<rparr>"
  define bp' where "bp' = (if (db_queue bp \<noteq> None \<or> signal_queue bp \<noteq> None) \<and> top_moved b b' then publish snap bp4 else bp4)"
  obtain v where v: "to_u64 (mt_volume t) = Some v" using bookable_volume [OF t] by blast
  have p: "bd_price (delta_for t bp) \<noteq> NaN" "good_price (bd_price (delta_for t bp))"
    using bookable_price [OF t] by (simp_all add: delta_for_def)
  have b: "book_good (tick_sym t) b" unfolding b_def by (rule book_for_good [OF inv t])
  then have b': "book_good (tick_sym t) b'" unfolding b'_def using p by (intro book_good_apply) auto
  have mv: "top_moved b b' \<longleftrightarrow> \<not> deq (best_bid b) (best_bid b') \<or> \<not> deq (best_ask b) (best_ask b')"
    using best_not_NaN [of b] b by (auto simp: top_moved_def deq_def book_good_def)
  have q4: "db_queue bp4 = db_queue bp" "signal_queue bp4 = signal_queue bp" "bp_input bp4 = bp_input bp"
    "bp_ticks_processed bp4 = bp_ticks_processed bp + 1" "bp_snapshots_dropped bp4 = bp_snapshots_dropped bp"
    "um_find (books bp4) k = (if k = tick_sym t then Some b' else um_find (books bp) k)" for k
    by (simp_all add: bp4_def bp2_def bp1_def)
  have q2: "db_queue bp2 = db_queue bp" "signal_queue bp2 = signal_queue bp" by (simp_all add: bp2_def bp1_def)
  have dl: "tick_to_delta t (fst (determine_side (tick_sym t) (mt_price t) bp1)) = Value (delta_for t bp)"
    by (simp add: tick_to_delta_def v delta_for_def bp1_def)
  have val: "bp_process_tick t bp = Value bp'"
    unfolding bp_process_tick_def Let_def b_def [symmetric] bp1_def [symmetric] bp2_def [symmetric] dl
    by (simp add: b'_def [symmetric] snap_def [symmetric] q2 bp'_def bp4_def mv)
  have pub: "pushed_to snap (db_queue bp) (db_queue (publish snap bp4))"
    "pushed_to snap (signal_queue bp) (signal_queue (publish snap bp4))"
    "bp_snapshots_dropped (publish snap bp4) = bp_snapshots_dropped bp + (if queue_full (db_queue bp) then 1 else 0)"
    using publish_effect [of bp4 snap] inv q4 by (simp_all add: bp_inv_def)
  have bk: "book bp' k = (if k = tick_sym t then Some b' else book bp k)" for k
    using q4(6) by (simp add: bp'_def book_def)
  have inv': "bp_inv bp'"
    using inv b' bk pushed_to_ok [OF pub(1)] pushed_to_ok [OF pub(2)] q4(1-3)
    by (auto simp: bp_inv_def book_def bp'_def)
  show ?thesis
    using that [OF val inv' _ bk b'] pub q4 by (auto simp: bp'_def pushed_to_def queue_full_def)
qed

section \<open>The thread\<close>

definition bp_state_ok :: "BookProcessor cpp \<Rightarrow> bool" where
  "bp_state_ok st \<longleftrightarrow> (case st of Undefined \<Rightarrow> False | Value bp \<Rightarrow> bp_inv bp)"

abbreviation bp_thread_env :: "book_obs \<Rightarrow> BookProcessor cpp \<Rightarrow> BookProcessor cpp" where
  "bp_thread_env ob st \<equiv> cpp_bind st (\<lambda>s. Value (bp_env ob s))"

lemma env_pop_queue_ok: "queue_ok q \<Longrightarrow> queue_ok (map_option (env_pop n) q)"
  using env_pop_ok by (auto simp: queue_ok_def split: option.splits)

lemma bp_inv_env: "bp_inv bp \<Longrightarrow> \<forall>t \<in> set (ob_in ob). bookable t \<Longrightarrow> bp_inv (bp_env ob bp)"
  using env_push_ok [of "bp_input bp" "ob_in ob"] env_push_set [of "bp_input bp" "ob_in ob"]
  by (auto simp: bp_inv_def bp_env_def env_pop_queue_ok)

lemma bp_inv_pop:
  assumes "bp_inv bp" "try_pop (bp_input bp) = (Some t, q)"
  shows "bp_inv (bp\<lparr>bp_input := q\<rparr>)" "bookable t"
proof -
  have "ring_ok (bp_input bp)" using assms(1) by (simp add: bp_inv_def)
  then have "ring_items (bp_input bp) = t # ring_items q" "ring_ok q" using assms(2) by (auto elim: rb.pop_cases)
  then show "bp_inv (bp\<lparr>bp_input := q\<rparr>)" "bookable t" using assms(1) by (auto simp: bp_inv_def)
qed

lemma bp_step_ok: assumes "bp_inv bp" shows "\<exists>bp'. bp_step bp = Value bp' \<and> bp_inv bp'"
proof (cases "try_pop (bp_input bp)")
  case (Pair r q)
  show ?thesis
  proof (cases r)
    case (Some t)
    note pop = bp_inv_pop [OF assms, of t q]
    then obtain bp' where "bp_process_tick t (bp\<lparr>bp_input := q\<rparr>) = Value bp'" "bp_inv bp'"
      using bp_process_tick_effect [of "bp\<lparr>bp_input := q\<rparr>" t] Pair Some by metis
    then show ?thesis using Pair Some by (simp add: bp_step_def)
  qed (use Pair assms in \<open>simp add: bp_step_def\<close>)
qed

interpretation bp: stage bp_thread_env bp_body bp_state_ok bookable
proof unfold_locales
  fix st and ob :: book_obs assume "bp_state_ok st" "\<forall>t \<in> set (ob_in ob). bookable t"
  then show "bp_state_ok (bp_thread_env ob st)" by (cases st) (auto simp: bp_state_ok_def bp_inv_env)
next
  fix st and obs :: "book_obs list" and st' rest
  assume "bp_state_ok st" "bp_body obs st = Some (st', rest)"
  then show "bp_state_ok st'" using bp_step_ok by (cases st) (fastforce simp: bp_state_ok_def bp_body_def)+
qed (auto simp: bp_body_def)

lemma bp_drain_ok:
  "bp_inv bp \<Longrightarrow> obs_ok bookable obs \<Longrightarrow> \<exists>bp'. bp_drain obs bp = Value bp' \<and> bp_inv bp' \<and> ring_items (bp_input bp') = []"
proof (induction obs bp rule: bp_drain.induct)
  case (1 obs bp)
  define bp1 where "bp1 = (case obs of [] \<Rightarrow> bp | ob # _ \<Rightarrow> bp_env ob bp)"
  have inv: "bp_inv bp1" using "1.prems" by (auto simp: bp1_def bp_inv_env split: list.split)
  then have ok: "ring_ok (bp_input bp1)" by (simp add: bp_inv_def)
  have tl: "obs_ok bookable (tl obs)" using "1.prems"(2) by (cases obs) auto
  from ok show ?case
  proof (cases rule: rb.pop_cases)
    case none
    then show ?thesis using inv by (subst bp_drain.simps) (simp add: bp1_def [symmetric] Let_def)
  next
    case (some x xs q)
    note pop = bp_inv_pop [OF inv some(2)]
    obtain bp2 where p: "bp_process_tick x (bp1\<lparr>bp_input := q\<rparr>) = Value bp2" "bp_inv bp2"
      using bp_process_tick_effect [OF pop] by metis
    then have "bp_drain obs bp = bp_drain (tl obs) bp2"
      using some by (subst bp_drain.simps) (simp add: bp1_def [symmetric])
    then show ?thesis using "1.IH" [OF bp1_def some(2) [symmetric] refl p(1) p(2) tl] by simp
  qed
qed

section \<open>The side heuristic\<close>

abbreviation valid_range :: "double \<Rightarrow> bool" where
  "valid_range p \<equiv> \<not> dlt p kMinValidPrice \<and> \<not> dlt kMaxValidPrice p"

text \<open>The side and the reference price the tick is classified with, given the old reference and the book.\<close>

definition classify :: "double \<Rightarrow> double \<Rightarrow> OrderBook \<Rightarrow> OrderSide \<times> double" where
  "classify price ref b =
     (let side = (if dlt price ref then BID else ASK); mid = ddiv (dadd (best_bid b) (best_ask b)) (Fin 2)
      in if side = BID \<and> dlt (Fin 0) (best_ask b) \<and> dle (best_ask b) price \<or>
            side = ASK \<and> dlt (Fin 0) (best_bid b) \<and> dle price (best_bid b)
         then (if dlt price mid then BID else ASK, mid) else (side, ref))"

lemma determine_side_classify:
  assumes "valid_range p" "um_find (reference_price bp) s = Some ref" "book bp s = Some b"
  shows "fst (determine_side s p bp) = fst (classify p ref b)"
  using assms by (auto simp: determine_side_def classify_def Let_def)

text \<open>With levels on both sides no classified price crosses.\<close>

lemma classify_two_sided:
  assumes ok: "book_ok b" "book_prices good_price b" and ne: "bids b \<noteq> []" "asks b \<noteq> []"
    and p: "p = Fin x" "valid_range p" and d: "bd_price d = p" "bd_side d = fst (classify p ref b)"
  shows "\<not> crosses d (abs_book b)"
proof -
  have pos: "good_price (best_bid b)" "good_price (best_ask b)"
    using ok(2) ne by (auto simp: book_prices_def best_bid_def best_ask_def)
  then obtain B A where BA: "best_bid b = Fin B" "best_ask b = Fin A" "0 < B" "0 < A" "representable B" "representable A"
    by (cases "best_bid b"; cases "best_ask b") (auto simp: good_price_def)
  have "B \<le> A" using best_uncrossed [OF ok(1) ne] BA by simp
  have x: "x \<le> 1000000" using p by (simp add: kMaxValidPrice_def)
  define m where "m = ddiv (dadd (best_bid b) (best_ask b)) (Fin 2)"
  have m: "m = ddiv (dadd (Fin B) (Fin A)) (Fin 2)" by (simp add: m_def BA)
  have lo: "Fin B \<le> m" unfolding m using BA \<open>B \<le> A\<close> by (intro midpoint_ge) auto
  have hi: "m \<le> Fin A" if "A \<le> x"
  proof -
    have "(2::rat) powi 20 < 2 powi 1023" by (simp only: powi2_less_iff)
    then have "1000000 < double_limit / 2" by (simp add: double_limit_def power_int_minus_mult [symmetric])
    then have "\<bar>B\<bar> < double_limit / 2" "\<bar>A\<bar> < double_limit / 2" using BA \<open>B \<le> A\<close> that x by auto
    then show ?thesis using ddiv_midpoint [of B A] BA \<open>B \<le> A\<close> unfolding m by (metis less_eq_double.simps(3))
  qed
  have side: "(fst (classify p ref b) = BID \<longrightarrow> x \<le> A) \<and> (fst (classify p ref b) = ASK \<longrightarrow> B \<le> x)"
    unfolding classify_def m_def [symmetric] using lo hi \<open>B \<le> A\<close> BA(1-4) p(1)
    by (cases m) (auto simp: Let_def split: if_splits)
  have a: "asks b \<noteq> [] \<longrightarrow> fst (hd (asks b)) = Fin A" and bb: "bids b \<noteq> [] \<longrightarrow> fst (last (bids b)) = Fin B"
    using BA by (auto simp: best_bid_def best_ask_def)
  show ?thesis using side a bb p(1) d by (auto simp: crosses_iff [OF ok(1)])
qed

text \<open>
  With bids only, the midpoint is taken with the missing ask as 0: a price between half the best
  bid and the best bid that is not below the reference stays an ask, and crosses.
\<close>

lemma classify_one_sided:
  assumes ok: "book_ok b" and B: "best_bid b = Fin B" "0 < B" "asks b = []"
    and p: "p = Fin x" "x < B" "\<not> dlt p ref" "\<not> dlt p (ddiv (dadd (Fin B) (Fin 0)) (Fin 2))"
    and d: "bd_price d = p" "bd_side d = fst (classify p ref b)" "bd_volume d \<noteq> 0"
  shows "crosses d (abs_book b)"
proof -
  have ne: "bids b \<noteq> []" using B by (auto simp: best_bid_def)
  have "best_ask b = Fin 0" using B(3) by (simp add: best_ask_def)
  then have "fst (classify p ref b) = ASK" using B p by (simp add: classify_def Let_def)
  moreover have "fst (last (bids b)) = Fin B" using ne B(1) by (simp add: best_bid_def)
  ultimately show ?thesis using ne p d by (auto simp: crosses_iff [OF ok] word_gt_0)
qed

section \<open>A concrete stage\<close>

definition demo_btc :: "rat \<Rightarrow> u64 \<Rightarrow> MarketTick" where
  "demo_btc p now = make_tick ''BTC'' (Fin p) (Fin 5) 0 now"

definition demo_bp :: "MarketTick list \<Rightarrow> BookProcessor" where
  "demo_bp ts = new_book_processor (filled_ring 2 zero_tick ts) (Some (filled_ring 1 zero_snapshot [])) None"

definition demo_bp_schedule :: "book_obs list" where
  "demo_bp_schedule = [\<lparr>ob_stop = False, ob_in = [], ob_out = 0, ob_signals_out = 0\<rparr>,
     \<lparr>ob_stop = True, ob_in = [], ob_out = 0, ob_signals_out = 0\<rparr>,
     \<lparr>ob_stop = True, ob_in = [], ob_out = 0, ob_signals_out = 0\<rparr>]"

lemma demo_btc_bookable: "is_double (Fin p) \<Longrightarrow> 0 < p \<Longrightarrow> 0 < sint now \<Longrightarrow> bookable (demo_btc p now)"
  by (simp add: bookable_def clean_tick_def demo_btc_def make_tick_symbol)

lemma demo_bp_inv: "length ts \<le> 4 \<Longrightarrow> \<forall>t \<in> set ts. bookable t \<Longrightarrow> bp_inv (demo_bp ts)"
  by (simp add: bp_inv_def demo_bp_def new_book_processor_def queue_ok_def)

lemma demo_bp_schedule_ok: "obs_ok P demo_bp_schedule" "stop_persists demo_bp_schedule" "2 \<le> stops demo_bp_schedule"
  by (simp_all add: demo_bp_schedule_def stop_persists_def)

lemma demo_sym: "tick_sym (demo_btc p now) = ''BTC''"
  by (simp add: demo_btc_def sym_string_takeWhile make_tick_symbol)

lemma valid_range_Fin: assumes "1 \<le> x" "x \<le> 1000000" shows "valid_range (Fin x)"
proof -
  have "kMinValidPrice \<le> Fin 1" using round64_mono [of "1 / 10" 1] by (simp add: kMinValidPrice_def)
  then have "kMinValidPrice \<le> Fin x" using assms(1) by (meson less_eq_double.simps(3) order_trans)
  then show ?thesis using assms(2) by (auto simp: dlt_def kMaxValidPrice_def)
qed

text \<open>A stage whose \<open>BTC\<close> book is given, with a reference price.\<close>

definition demo_bp_with :: "OrderBook \<Rightarrow> rat \<Rightarrow> BookProcessor" where
  "demo_bp_with b ref = (demo_bp [])\<lparr>books := [(''BTC'', b)], reference_price := [(''BTC'', Fin ref)]\<rparr>"

definition demo_bids_only :: OrderBook where
  "demo_bids_only = book_apply (demo_delta BID 100 7) (new_book ''BTC'')"

lemma demo_bids_only_levels: "bids demo_bids_only = [(Fin 100, 7)]" "asks demo_bids_only = []"
  by (simp_all add: demo_bids_only_def demo_delta_def new_book_def book_apply_def Let_def)

lemma demo_books_good: "book_good ''BTC'' demo_book" "book_good ''BTC'' demo_bids_only"
proof -
  have "book_symbol demo_book = ''BTC''" "book_symbol demo_bids_only = ''BTC''"
    using new_book_symbol [of "''BTC''"]
    by (simp_all add: demo_book_def demo_bids_only_def book_symbol_def apply_all_counters book_apply_counters)
  moreover have "book_ok demo_bids_only"
    unfolding demo_bids_only_def by (rule book_apply_ok [OF new_book_ok]) (simp add: demo_delta_def)
  ultimately show "book_good ''BTC'' demo_book" "book_good ''BTC'' demo_bids_only"
    by (simp_all add: book_good_def demo_book_ok book_prices_def demo_book_levels demo_bids_only_levels good_price_def)
qed

lemma demo_bp_with_inv: "book_good ''BTC'' b \<Longrightarrow> bp_inv (demo_bp_with b ref)"
  using demo_bp_inv [of "[]"] by (simp add: bp_inv_def demo_bp_with_def um_find_def)

lemma demo_bp_with_find:
  "book (demo_bp_with b ref) ''BTC'' = Some b" "um_find (reference_price (demo_bp_with b ref)) ''BTC'' = Some (Fin ref)"
  by (simp_all add: demo_bp_with_def book_def um_find_def)

section \<open>Properties\<close>

text \<open>
  C11. \<open>BookProcessor::run\<close> is safe and returns: from a good state, with ticks whose volumes fit 64 bits
  and whatever the neighbours do, once a stop is requested it returns without undefined
  behaviour, with an empty input ring, and every book is uncrossed, sorted, filed under its
  own symbol and holds only positive finite prices.
\<close>

theorem book_run_safe:
  assumes "bp_inv bp" and "obs_ok bookable obs" and "stop_persists obs" and "2 \<le> stops obs"
  shows "\<exists>bp'. bp_run obs bp = Some (Value bp') \<and> ring_items (bp_input bp') = [] \<and>
     (\<forall>k b. book bp' k = Some b \<longrightarrow> book_ok b \<and> book_prices pos_price b \<and> book_symbol b = k)"
proof -
  obtain st rest where st: "stage_loop bp_thread_env bp_body obs (Value bp) = Some (st, rest)"
    using bp.loop_returns [of obs "Value bp"] assms(3,4) by auto
  have "bp_state_ok st" using bp.loop_inv [OF _ assms(2) st] assms(1) by (simp add: bp_state_ok_def)
  then obtain bp1 where bp1: "st = Value bp1" "bp_inv bp1" by (auto simp: bp_state_ok_def split: cpp.splits)
  have "obs_ok bookable rest" using bp.loop_rest [OF st] assms(2) obs_ok_suffix by blast
  then obtain bp' where "bp_drain rest bp1 = Value bp'" "bp_inv bp'" "ring_items (bp_input bp') = []"
    using bp_drain_ok [OF bp1(2)] by blast
  then show ?thesis using st bp1(1) by (auto simp: bp_run_def bp_inv_def book_def book_good_def book_prices_def good_price_def)
qed

theorem book_run_safe_witness:
  "\<exists>bp'. bp_run demo_bp_schedule (demo_bp [demo_btc 100 1, demo_btc 101 2]) = Some (Value bp') \<and> ring_items (bp_input bp') = []"
proof -
  have "bp_inv (demo_bp [demo_btc 100 1, demo_btc 101 2])" by (rule demo_bp_inv) (simp_all add: demo_btc_bookable)
  from book_run_safe [OF this demo_bp_schedule_ok] show ?thesis by blast
qed

text \<open>
  C21. One tick, completely: it is applied to the book of its symbol (created if missing) and to no
  other, it is counted, and a snapshot goes to each queue exactly when the best bid or the
  best ask has changed; a snapshot that finds the database queue full is dropped and counted.
\<close>

theorem book_tick_effect:
  assumes "bp_inv bp" and "bookable t"
  shows "\<exists>bp'. bp_process_tick t bp = Value bp' \<and>
     (let b = fst (book_for (tick_sym t) bp); b' = book_apply (delta_for t bp) b; snap = make_snapshot t (top_of_book 0 b') b'
      in (\<forall>k. book bp' k = (if k = tick_sym t then Some b' else book bp k)) \<and>
         bp_ticks_processed bp' = bp_ticks_processed bp + 1 \<and>
         (\<not> top_moved b b' \<longrightarrow> db_queue bp' = db_queue bp \<and> signal_queue bp' = signal_queue bp) \<and>
         (top_moved b b' \<longrightarrow> pushed_to snap (db_queue bp) (db_queue bp') \<and> pushed_to snap (signal_queue bp) (signal_queue bp')) \<and>
         bp_snapshots_dropped bp' = bp_snapshots_dropped bp + (if top_moved b b' \<and> queue_full (db_queue bp) then 1 else 0))"
proof -
  obtain bp' where "bp_process_tick t bp = Value bp'" and e: "bp_ticks_processed bp' = bp_ticks_processed bp + 1"
    and "\<And>k. book bp' k = (if k = tick_sym t then Some (book_apply (delta_for t bp) (fst (book_for (tick_sym t) bp))) else book bp k)"
    and "\<not> top_moved (fst (book_for (tick_sym t) bp)) (book_apply (delta_for t bp) (fst (book_for (tick_sym t) bp)))
      \<Longrightarrow> db_queue bp' = db_queue bp \<and> signal_queue bp' = signal_queue bp"
    and "top_moved (fst (book_for (tick_sym t) bp)) (book_apply (delta_for t bp) (fst (book_for (tick_sym t) bp)))
      \<Longrightarrow> pushed_to (make_snapshot t (top_of_book 0 (book_apply (delta_for t bp) (fst (book_for (tick_sym t) bp))))
            (book_apply (delta_for t bp) (fst (book_for (tick_sym t) bp)))) (db_queue bp) (db_queue bp') \<and>
          pushed_to (make_snapshot t (top_of_book 0 (book_apply (delta_for t bp) (fst (book_for (tick_sym t) bp))))
            (book_apply (delta_for t bp) (fst (book_for (tick_sym t) bp)))) (signal_queue bp) (signal_queue bp')"
    and "bp_snapshots_dropped bp' = bp_snapshots_dropped bp +
      (if top_moved (fst (book_for (tick_sym t) bp)) (book_apply (delta_for t bp) (fst (book_for (tick_sym t) bp)))
          \<and> queue_full (db_queue bp) then 1 else 0)"
    by (rule bp_process_tick_effect [OF assms]) blast
  then show ?thesis unfolding Let_def by blast
qed

theorem book_tick_effect_witness:
  "\<exists>bp'. bp_process_tick (demo_btc 100 1) (demo_bp []) = Value bp' \<and> bp_ticks_processed bp' = 1 \<and>
     (\<exists>b. book bp' ''BTC'' = Some b)"
proof -
  have "bp_inv (demo_bp [])" "bookable (demo_btc 100 1)" by (auto intro: demo_bp_inv demo_btc_bookable)
  from book_tick_effect [OF this] show ?thesis
    by (auto simp: Let_def demo_sym demo_bp_def new_book_processor_def)
qed

text \<open>
  C14. The side heuristic never lets a two-sided book refuse a tick: when the symbol has a reference
  price, both sides have levels and the price is in the valid range, the update is not
  crossing, because the reset to the (rounded) midpoint reclassifies it, and the level is set.
\<close>

theorem two_sided_never_refused:
  assumes "bp_inv bp" and "bookable t" and "book bp (tick_sym t) = Some b" and "bids b \<noteq> []" and "asks b \<noteq> []"
    and "um_find (reference_price bp) (tick_sym t) = Some ref" and "valid_range (mt_price t)"
  shows "\<not> crosses (delta_for t bp) (abs_book b)"
proof -
  have good: "book_ok b" "book_prices good_price b" using assms(1,3) by (auto simp: bp_inv_def book_def book_good_def)
  obtain x where x: "mt_price t = Fin x" using assms(2) by (auto simp: bookable_def clean_tick_def)
  have bf: "book_for (tick_sym t) bp = (b, bp)" using assms(3) by (simp add: book_for_def book_def)
  show ?thesis
    by (rule classify_two_sided [OF good assms(4,5) x assms(7)])
      (simp_all add: delta_for_def bf determine_side_classify [OF assms(7,6,3)])
qed

theorem two_sided_never_refused_witness:
  "\<not> crosses (delta_for (demo_btc 105 1) (demo_bp_with demo_book 110)) (abs_book demo_book)"
proof -
  have "bookable (demo_btc 105 1)" by (simp add: demo_btc_bookable)
  moreover have "valid_range (mt_price (demo_btc 105 1))" using valid_range_Fin [of 105] by (simp add: demo_btc_def)
  ultimately show ?thesis
    using two_sided_never_refused [OF demo_bp_with_inv [OF demo_books_good(1)], of "demo_btc 105 1" 110 demo_book "Fin 110"]
      demo_bp_with_find [of demo_book 110] by (simp add: demo_sym demo_book_levels)
qed

text \<open>
  C39. With bids only, the reset of the reference counts the missing ask as 0 and the tick can be
  refused: a price below the best bid, at least half of it and not below the reference is
  classified as an ask and rejected, so that the levels of the book do not change and no
  snapshot is published.
\<close>

theorem one_sided_refuses:
  assumes "bp_inv bp" and "bookable t" and "book bp (tick_sym t) = Some b" and "asks b = []" and "best_bid b = Fin B"
    and "um_find (reference_price bp) (tick_sym t) = Some ref" and "mt_price t = Fin x" and "valid_range (mt_price t)"
    and "x < B" and "\<not> dlt (Fin x) ref" and "\<not> dlt (Fin x) (ddiv (dadd (Fin B) (Fin 0)) (Fin 2))"
    and "to_u64 (mt_volume t) \<noteq> Some 0"
  shows "\<exists>bp' b'. bp_process_tick t bp = Value bp' \<and> book bp' (tick_sym t) = Some b' \<and> bids b' = bids b \<and> asks b' = asks b \<and>
     db_queue bp' = db_queue bp \<and> signal_queue bp' = signal_queue bp"
proof -
  have ok: "book_ok b" using assms(1,3) by (auto simp: bp_inv_def book_def book_good_def)
  have x: "0 < x" using assms(2,7) by (auto simp: bookable_def clean_tick_def)
  have bf: "book_for (tick_sym t) bp = (b, bp)" using assms(3) by (simp add: book_for_def book_def)
  obtain v where v: "to_u64 (mt_volume t) = Some v" "v \<noteq> 0" using bookable_volume [OF assms(2)] assms(12) by auto
  have ds: "fst (determine_side (tick_sym t) (Fin x) bp) = fst (classify (Fin x) ref b)"
    using determine_side_classify [OF assms(8,6,3)] assms(7) by simp
  have cr: "crosses (delta_for t bp) (abs_book b)"
    by (rule classify_one_sided [OF ok assms(5) _ assms(4) refl assms(9-11)])
      (use x v assms(7,9) in \<open>simp_all add: delta_for_def bf ds\<close>)
  define b' where "b' = book_apply (delta_for t bp) b"
  have b': "bids b' = bids b" "asks b' = asks b"
    using cr book_apply_cases [OF ok, of "delta_for t bp"] assms(7) by (simp_all add: b'_def Let_def delta_for_def)
  then have "\<not> top_moved b b'" by (simp add: top_moved_def best_bid_def best_ask_def)
  then obtain bp' where "bp_process_tick t bp = Value bp'" "book bp' (tick_sym t) = Some b'"
      "db_queue bp' = db_queue bp \<and> signal_queue bp' = signal_queue bp"
    using bp_process_tick_effect [OF assms(1,2)] unfolding bf fst_conv b'_def [symmetric] by metis
  then show ?thesis using b' by blast
qed

theorem one_sided_refuses_witness:
  "\<exists>bp' b'. bp_process_tick (demo_btc 70 1) (demo_bp_with demo_bids_only 60) = Value bp' \<and> book bp' ''BTC'' = Some b' \<and>
     bids b' = [(Fin 100, 7)] \<and> asks b' = []"
proof -
  have t: "bookable (demo_btc 70 1)" by (simp add: demo_btc_bookable)
  have r: "valid_range (mt_price (demo_btc 70 1))" using valid_range_Fin [of 70] by (simp add: demo_btc_def)
  have f: "book (demo_bp_with demo_bids_only 60) (tick_sym (demo_btc 70 1)) = Some demo_bids_only"
    "um_find (reference_price (demo_bp_with demo_bids_only 60)) (tick_sym (demo_btc 70 1)) = Some (Fin 60)"
    using demo_bp_with_find [of demo_bids_only 60] by (simp_all only: demo_sym)
  have l: "asks demo_bids_only = []" "best_bid demo_bids_only = Fin 100" by (simp_all add: demo_bids_only_levels best_bid_def)
  have p: "mt_price (demo_btc 70 1) = Fin 70" "to_u64 (mt_volume (demo_btc 70 1)) \<noteq> Some 0"
    by (simp_all add: demo_btc_def trunc_def)
  show ?thesis
    using one_sided_refuses [OF demo_bp_with_inv [OF demo_books_good(2)] t f(1) l f(2) p(1) r _ _ _ p(2)]
    by (auto simp: demo_sym demo_bids_only_levels)
qed

text \<open>
  The volume cast is undefined for a tick that the parser accepts: an infinite volume passes
  \<open>validate\<close>, and processing it has undefined behaviour in every state of the stage.
\<close>

theorem infinite_volume_undefined:
  "validate ((make_tick ''BTC'' (Fin 100) PInf 0 1)) \<and> bp_process_tick (make_tick ''BTC'' (Fin 100) PInf 0 1) bp = Undefined"
  by (simp add: validate_iff make_tick_symbol bp_process_tick_def tick_to_delta_def Let_def)

text \<open>
  The price of a published snapshot: between the best bid and the best ask, rounding included,
  when both sides have levels and the ask is far from overflow; the best price of the only side otherwise.
\<close>

theorem snapshot_price_bounds:
  assumes "book_good k b" and "bids b \<noteq> [] \<or> asks b \<noteq> []" and "best_ask b = Fin A" and "A < double_limit / 2"
  shows "let p = ms_price (make_snapshot t (top_of_book now b) b)
    in (bids b \<noteq> [] \<and> asks b \<noteq> [] \<longrightarrow> dle (best_bid b) p \<and> dle p (best_ask b)) \<and>
       (asks b = [] \<longrightarrow> p = best_bid b) \<and> (bids b = [] \<longrightarrow> p = best_ask b)"
proof -
  have good: "book_ok b" "book_prices good_price b" using assms(1) by (auto simp: book_good_def)
  have pos: "bids b \<noteq> [] \<Longrightarrow> good_price (best_bid b)" "asks b \<noteq> [] \<Longrightarrow> good_price (best_ask b)"
    using good(2) by (auto simp: book_prices_def best_bid_def best_ask_def)
  have two: "dle (best_bid b) (ddiv (dadd (best_bid b) (best_ask b)) (Fin 2)) \<and>
      dle (ddiv (dadd (best_bid b) (best_ask b)) (Fin 2)) (best_ask b)" if ne: "bids b \<noteq> []" "asks b \<noteq> []"
  proof -
    obtain B where B: "best_bid b = Fin B" "0 < B" "representable B" "representable A"
      using pos ne assms(3) by (cases "best_bid b") (auto simp: good_price_def)
    moreover have "B \<le> A" using best_uncrossed [OF good(1) ne] B(1) assms(3) by simp
    ultimately obtain m where "ddiv (dadd (Fin B) (Fin A)) (Fin 2) = Fin m" "B \<le> m" "m \<le> A"
      using ddiv_midpoint [of B A] assms(4) by (metis abs_of_pos order_less_le_trans order_le_less_trans)
    then show ?thesis by (simp add: B(1) assms(3))
  qed
  have "best_bid b = Fin 0" if "bids b = []" using that by (simp add: best_bid_def)
  moreover have "best_ask b = Fin 0" if "asks b = []" using that by (simp add: best_ask_def)
  ultimately show ?thesis using two pos assms(2)
    by (auto simp: Let_def make_snapshot_def good_price_def)
qed

theorem snapshot_price_bounds_witness:
  "let p = ms_price (make_snapshot (demo_btc 100 1) (top_of_book 0 demo_book) demo_book) in dle (Fin 100) p \<and> dle p (Fin 100)"
proof -
  have b: "best_ask demo_book = Fin 100" "best_bid demo_book = Fin 100" "bids demo_book \<noteq> []" "asks demo_book \<noteq> []"
    by (simp_all add: demo_book_levels best_ask_def best_bid_def)
  have "(2::rat) powi 20 < 2 powi 1023" by (simp only: powi2_less_iff)
  then have "100 < double_limit / 2" by (simp add: double_limit_def power_int_minus_mult [symmetric])
  then show ?thesis using snapshot_price_bounds [OF demo_books_good(1) _ b(1), of "demo_btc 100 1" 0] b by (simp add: Let_def)
qed

text \<open>
  C38. A tick with a volume below 1 passes the validation but is truncated to the volume 0, which means removal: after it the
  book of the symbol has no level at that price on the chosen side, and the other side is unchanged. When this removes the
  last level of the book, the snapshot that is published has the price 0.
\<close>

theorem fractional_volume_erases:
  assumes "bp_inv bp" and "bookable t" and "mt_volume t = Fin v" and "v < 1"
  shows "validate t \<and> (\<exists>bp' b'. bp_process_tick t bp = Value bp' \<and> book bp' (tick_sym t) = Some b' \<and>
     (let b = fst (book_for (tick_sym t) bp); side = bd_side (delta_for t bp)
      in map_find (mt_price t) (case side of BID \<Rightarrow> bids b' | ASK \<Rightarrow> asks b') = None \<and>
         (case side of BID \<Rightarrow> asks b' = asks b | ASK \<Rightarrow> bids b' = bids b) \<and>
         (bids b' = [] \<and> asks b' = [] \<and> (bids b \<noteq> [] \<or> asks b \<noteq> []) \<longrightarrow>
            (\<exists>snap. ms_price snap = Fin 0 \<and> pushed_to snap (db_queue bp) (db_queue bp') \<and> pushed_to snap (signal_queue bp) (signal_queue bp')))))"
proof -
  define b b' where "b = fst (book_for (tick_sym t) bp)" and "b' = book_apply (delta_for t bp) b"
  define snap where "snap = make_snapshot t (top_of_book 0 b') b'"
  have good: "book_ok b" "book_prices good_price b" using book_for_good [OF assms(1,2)] by (auto simp: book_good_def b_def)
  have "0 < v" using assms(2,3) by (auto simp: bookable_def clean_tick_def)
  then have "trunc v = 0" using assms(4) by (simp add: trunc_def floor_eq_iff)
  then have d: "bd_volume (delta_for t bp) = 0" "bd_price (delta_for t bp) = mt_price t" using assms(3) by (simp_all add: delta_for_def)
  have p: "mt_price t \<noteq> NaN" using bookable_price [OF assms(2)] by simp
  have nc: "\<not> crosses (delta_for t bp) (abs_book b)" using d(1) by (simp add: crosses_def)
  have e: "map_find (mt_price t) (case bd_side (delta_for t bp) of BID \<Rightarrow> bids b' | ASK \<Rightarrow> asks b') = None \<and>
      (case bd_side (delta_for t bp) of BID \<Rightarrow> asks b' = asks b | ASK \<Rightarrow> bids b' = bids b)"
    using book_apply_effect [OF good(1), of "delta_for t bp"] d p nc
    by (cases "bd_side (delta_for t bp)") (simp_all add: Let_def b'_def)
  obtain bp' where bp': "bp_process_tick t bp = Value bp'" "book bp' (tick_sym t) = Some b'"
    "top_moved b b' \<Longrightarrow> pushed_to snap (db_queue bp) (db_queue bp') \<and> pushed_to snap (signal_queue bp) (signal_queue bp')"
    using bp_process_tick_effect [OF assms(1,2)] unfolding b_def [symmetric] b'_def [symmetric] snap_def [symmetric] by metis
  have "book_prices pos_price b" using good(2) by (auto simp: book_prices_def good_price_def)
  note pos = best_pos [OF this]
  have z: "top_moved b b' \<and> ms_price snap = Fin 0" if "bids b' = []" "asks b' = []" "bids b \<noteq> [] \<or> asks b \<noteq> []"
  proof
    have "best_bid b' = Fin 0" "best_ask b' = Fin 0" using that by (simp_all add: best_bid_def best_ask_def)
    then show "top_moved b b'" using that(3) pos by (auto simp: top_moved_def)
    show "ms_price snap = Fin 0" using that by (simp add: snap_def make_snapshot_def top_of_book_def Let_def)
  qed
  have "validate t" using assms(2) clean_valid by (simp add: bookable_def)
  then show ?thesis using bp' e z unfolding b_def [symmetric] Let_def by blast
qed

theorem fractional_volume_erases_witness:
  "\<exists>bp' b'. bp_process_tick (make_tick ''BTC'' (Fin 100) (Fin (1/2)) 0 1) (demo_bp_with demo_bids_only 110) = Value bp' \<and>
     book bp' ''BTC'' = Some b' \<and> map_find (Fin 100) (bids b') = None \<and> asks b' = []"
proof -
  let ?t = "make_tick ''BTC'' (Fin 100) (Fin (1/2)) 0 1" and ?bp = "demo_bp_with demo_bids_only 110"
  have t: "bookable ?t" by (simp add: bookable_def clean_tick_def make_tick_symbol) (auto intro!: exI [of _ "1/2"])
  have y: "tick_sym ?t = ''BTC''" by (simp add: sym_string_takeWhile make_tick_symbol)
  have f: "book_for ''BTC'' ?bp = (demo_bids_only, ?bp)" using demo_bp_with_find [of demo_bids_only 110] by (simp add: book_for_def book_def)
  have r: "valid_range (Fin 100)" using valid_range_Fin [of 100] by simp
  have "bd_side (delta_for ?t ?bp) = BID"
    using determine_side_classify [OF r, of ?bp "''BTC''"] demo_bp_with_find [of demo_bids_only 110]
    by (simp add: delta_for_def y f classify_def demo_bids_only_levels best_ask_def)
  then show ?thesis
    using fractional_volume_erases [OF demo_bp_with_inv [OF demo_books_good(2)] t, of "1/2" 110]
    by (auto simp: y f demo_bids_only_levels Let_def)
qed

end
