(* ===== verification/StageSteps.thy ===== *)
theory StageSteps
  imports Normalizer BookProcessor
begin

text \<open>
  The thread functions of the parser, the normalizer and the book processor as sequences of steps. A step reads the
  stop flag where the code does, makes one access to a ring and does the computation that follows it;
  this is the granularity at which the threads of the pipeline interleave. The main result says
  that these steps are the thread functions: run on a schedule, one observation for each step, they give
  exactly the result of \<open>parser_run\<close>, \<open>norm_run\<close> and \<open>bp_run\<close>.
\<close>

section \<open>Steps\<close>

text \<open>Where a stage is: in its loop, in its back-pressure loop with a tick in hand, in its final drain, or ended.\<close>

datatype thread_pc = Polling | Pushing MarketTick | Draining | Finished

text \<open>
  One step of a stage, given the stop flag it reads. The number is that of the ticks lost: those in hand when
  the stop comes, and those drained while the output is full.
\<close>

fun parser_micro :: "bool \<Rightarrow> thread_pc \<Rightarrow> TickParser \<Rightarrow> (thread_pc \<times> TickParser \<times> nat) cpp" where
  "parser_micro stop Polling st =
     (if stop then Value (Draining, st, 0)
      else (case try_pop (tp_input st) of
              (None, _) \<Rightarrow> Value (Polling, st, 0)
            | (Some raw, inq) \<Rightarrow>
                (let tick = enrich raw; st1 = st\<lparr>tp_input := inq\<rparr>
                 in if validate tick then Value (Pushing tick, st1, 0)
                    else Value (Polling, st1\<lparr>tp_rejected := tp_rejected st1 + 1\<rparr>, 0))))"
| "parser_micro stop (Pushing tick) st =
     (if stop then Value (Polling, st, 1)
      else (case try_push (tp_output st) tick of
              (True, q) \<Rightarrow> Value (Polling, st\<lparr>tp_output := q, tp_processed := tp_processed st + 1\<rparr>, 0)
            | (False, q) \<Rightarrow> Value (Pushing tick, st\<lparr>tp_output := q\<rparr>, 0)))"
| "parser_micro stop Draining st =
     (case try_pop (tp_input st) of
        (None, _) \<Rightarrow> Value (Finished, st, 0)
      | (Some raw, inq) \<Rightarrow>
          Value (Draining, parser_drain_tick raw (st\<lparr>tp_input := inq\<rparr>),
            if validate (enrich raw) \<and> \<not> fst (try_push (tp_output st) (enrich raw)) then 1 else 0))"
| "parser_micro stop Finished st = Value (Finished, st, 0)"

fun norm_micro :: "bool \<Rightarrow> thread_pc \<Rightarrow> Normalizer \<Rightarrow> (thread_pc \<times> Normalizer \<times> nat) cpp" where
  "norm_micro stop Polling nz =
     (if stop then Value (Draining, nz, 0)
      else (case try_pop (nz_input nz) of
              (None, _) \<Rightarrow> Value (Polling, nz, 0)
            | (Some tick, inq) \<Rightarrow>
                (let nz1 = nz\<lparr>nz_input := inq\<rparr>
                 in if is_duplicate nz1 tick then Value (Polling, count_dedup nz1, 0)
                    else if is_reordered nz1 tick then Value (Polling, count_reordered nz1, 0)
                    else Value (Pushing tick, update_state tick nz1, 0))))"
| "norm_micro stop (Pushing tick) nz =
     (if stop then Value (Polling, nz, 1)
      else (case try_push (nz_output nz) tick of
              (True, q) \<Rightarrow> Value (Polling, count_forwarded (nz\<lparr>nz_output := q\<rparr>), 0)
            | (False, q) \<Rightarrow> Value (Pushing tick, nz\<lparr>nz_output := q\<rparr>, 0)))"
| "norm_micro stop Draining nz =
     (case try_pop (nz_input nz) of
        (None, _) \<Rightarrow> Value (Finished, nz, 0)
      | (Some tick, inq) \<Rightarrow>
          (let nz1 = nz\<lparr>nz_input := inq\<rparr>
           in Value (Draining, norm_drain_tick tick nz1,
                if \<not> is_duplicate nz1 tick \<and> \<not> is_reordered nz1 tick \<and> \<not> fst (try_push (nz_output nz1) tick) then 1 else 0)))"
| "norm_micro stop Finished nz = Value (Finished, nz, 0)"

text \<open>The book processor has no back-pressure loop and is never in the position of pushing.\<close>

fun book_micro :: "bool \<Rightarrow> thread_pc \<Rightarrow> BookProcessor \<Rightarrow> (thread_pc \<times> BookProcessor \<times> nat) cpp" where
  "book_micro stop Draining bp =
     (case try_pop (bp_input bp) of
        (None, _) \<Rightarrow> Value (Finished, bp, 0)
      | (Some tick, q) \<Rightarrow> cpp_bind (bp_process_tick tick (bp\<lparr>bp_input := q\<rparr>)) (\<lambda>bp'. Value (Draining, bp', 0)))"
| "book_micro stop Finished bp = Value (Finished, bp, 0)"
| "book_micro stop (Pushing t) bp = Value (Polling, bp, 0)"
| "book_micro stop Polling bp =
     (if stop then Value (Draining, bp, 0) else cpp_bind (bp_step bp) (\<lambda>bp'. Value (Polling, bp', 0)))"

section \<open>Running the steps\<close>

text \<open>
  A run of a stage on a schedule: before each step the neighbours act, and the step reads the flag of the
  observation. An ended stage takes no more steps.
\<close>

fun exec_steps :: "(('i, 'z) obs_scheme \<Rightarrow> 's \<Rightarrow> 's) \<Rightarrow> (bool \<Rightarrow> thread_pc \<Rightarrow> 's \<Rightarrow> thread_pc \<times> 's)
    \<Rightarrow> ('i, 'z) obs_scheme list \<Rightarrow> thread_pc \<Rightarrow> 's \<Rightarrow> thread_pc \<times> 's" where
  "exec_steps env step [] pc s = (pc, s)"
| "exec_steps env step (ob # obs) pc s =
     (if pc = Finished then (pc, s)
      else (case step (ob_stop ob) pc (env ob s) of (pc', s') \<Rightarrow> exec_steps env step obs pc' s'))"

text \<open>
  What the thread function returns after such a run: nothing if the schedule is used up before the stop, and otherwise
  the final state, reached by draining the rest of the input undisturbed.
\<close>

definition outcome :: "(('i, 'z) obs_scheme list \<Rightarrow> 's \<Rightarrow> 's) \<Rightarrow> thread_pc \<times> 's \<Rightarrow> 's option" where
  "outcome drain r = (case r of (Draining, s) \<Rightarrow> Some (drain [] s) | (Finished, s) \<Rightarrow> Some s | _ \<Rightarrow> None)"

fun spin_steps :: "(('i, 'z) obs_scheme \<Rightarrow> 's \<Rightarrow> 's) \<Rightarrow> (bool \<Rightarrow> thread_pc \<Rightarrow> 's \<Rightarrow> thread_pc \<times> 's)
    \<Rightarrow> ('i, 'z) obs_scheme list \<Rightarrow> MarketTick \<Rightarrow> 's \<Rightarrow> ('s \<times> ('i, 'z) obs_scheme list) option" where
  "spin_steps env step [] t s = None"
| "spin_steps env step (ob # obs) t s = (case step (ob_stop ob) (Pushing t) (env ob s) of
      (Polling, s') \<Rightarrow> Some (s', obs)
    | (_, s') \<Rightarrow> spin_steps env step obs t s')"

text \<open>The shape of the thread functions: the loop until a stop, then the drain.\<close>

definition stage_run :: "(('i, 'z) obs_scheme \<Rightarrow> 's \<Rightarrow> 's) \<Rightarrow> (('i, 'z) obs_scheme list \<Rightarrow> 's \<Rightarrow> ('s \<times> ('i, 'z) obs_scheme list) option)
    \<Rightarrow> (('i, 'z) obs_scheme list \<Rightarrow> 's \<Rightarrow> 's) \<Rightarrow> ('i, 'z) obs_scheme list \<Rightarrow> 's \<Rightarrow> 's option" where
  "stage_run env body drain obs s = map_option (\<lambda>(s', rest). drain rest s') (stage_loop env body obs s)"

text \<open>
  A thread function in terms of steps: its body takes a tick and perhaps waits with it in hand, its drain takes one
  tick after the other.
\<close>

locale stepwise =
  fixes env :: "('i, 'z) obs_scheme \<Rightarrow> 's \<Rightarrow> 's" and step :: "bool \<Rightarrow> thread_pc \<Rightarrow> 's \<Rightarrow> thread_pc \<times> 's"
    and body :: "('i, 'z) obs_scheme list \<Rightarrow> 's \<Rightarrow> ('s \<times> ('i, 'z) obs_scheme list) option"
    and drain :: "('i, 'z) obs_scheme list \<Rightarrow> 's \<Rightarrow> 's"
  assumes step_stop: "step True Polling s = (Draining, s)"
    and step_body: "(\<exists>s'. step False Polling s = (Polling, s') \<and> body obs s = Some (s', obs)) \<or>
      (\<exists>t s'. step False Polling s = (Pushing t, s') \<and> body obs s = spin_steps env step obs t s')"
    and step_push: "(\<exists>s'. step stop (Pushing t) s = (Polling, s')) \<or> (\<exists>s'. step stop (Pushing t) s = (Pushing t, s'))"
    and step_drain: "(\<exists>s'. step stop Draining s = (Draining, s')) \<or> (\<exists>s'. step stop Draining s = (Finished, s'))"
    and drain_step: "drain obs s = (let s1 = (case obs of [] \<Rightarrow> s | ob # _ \<Rightarrow> env ob s) in
      case step (obs \<noteq> [] \<and> ob_stop (hd obs)) Draining s1 of (Draining, s') \<Rightarrow> drain (tl obs) s' | (_, s') \<Rightarrow> s')"
begin

abbreviation run :: "('i, 'z) obs_scheme list \<Rightarrow> 's \<Rightarrow> 's option" where
  "run \<equiv> stage_run env body drain"

lemma drain_steps: "outcome drain (exec_steps env step obs Draining s) = Some (drain obs s)"
proof (induction obs arbitrary: s)
  case Nil
  show ?case by (simp add: outcome_def)
next
  case (Cons ob obs)
  from step_drain [of "ob_stop ob" "env ob s"] show ?case
  proof
    assume "\<exists>s'. step (ob_stop ob) Draining (env ob s) = (Draining, s')"
    then obtain s' where "step (ob_stop ob) Draining (env ob s) = (Draining, s')" ..
    then show ?thesis using Cons.IH [of s'] drain_step [of "ob # obs" s] by simp
  next
    assume "\<exists>s'. step (ob_stop ob) Draining (env ob s) = (Finished, s')"
    then obtain s' where "step (ob_stop ob) Draining (env ob s) = (Finished, s')" ..
    moreover have "exec_steps env step obs Finished s' = (Finished, s')" by (cases obs) simp_all
    ultimately show ?thesis using drain_step [of "ob # obs" s] by (simp add: outcome_def)
  qed
qed

lemma spin_length: "spin_steps env step obs t s = Some (s', rest) \<Longrightarrow> length rest < length obs"
  by (induction obs arbitrary: s) (auto split: prod.splits thread_pc.splits dest: less_SucI)

lemma run_steps:
  "run obs s = outcome drain (exec_steps env step obs Polling s) \<and>
   (\<forall>t. (case spin_steps env step obs t s of None \<Rightarrow> None | Some (s', rest) \<Rightarrow> run rest s')
      = outcome drain (exec_steps env step obs (Pushing t) s))"
proof (induction "length obs" arbitrary: obs s rule: less_induct)
  case less
  show ?case
  proof (cases obs)
    case Nil
    then show ?thesis by (simp add: stage_run_def outcome_def)
  next
    case (Cons ob obs')
    then have len: "length obs' < length obs" by simp
    have poll: "run rest x = outcome drain (exec_steps env step rest Polling x)" if "length rest \<le> length obs'" for rest x
      using less.hyps [of rest x] that Cons by simp
    have spin: "(case spin_steps env step obs' t x of None \<Rightarrow> None | Some (s', rest) \<Rightarrow> run rest s')
        = outcome drain (exec_steps env step obs' (Pushing t) x)" for t x using less.hyps [OF len, of x] by blast
    have "run obs s = outcome drain (exec_steps env step obs Polling s)"
    proof (cases "ob_stop ob")
      case True
      then show ?thesis using Cons drain_steps [of obs' "env ob s"] by (simp add: stage_run_def step_stop)
    next
      case False
      from step_body [of "env ob s" obs'] show ?thesis
      proof
        assume "\<exists>s'. step False Polling (env ob s) = (Polling, s') \<and> body obs' (env ob s) = Some (s', obs')"
        then show ?thesis using Cons False poll [of obs'] by (auto simp: stage_run_def)
      next
        assume "\<exists>t s'. step False Polling (env ob s) = (Pushing t, s') \<and> body obs' (env ob s) = spin_steps env step obs' t s'"
        then obtain t s' where "step False Polling (env ob s) = (Pushing t, s')" "body obs' (env ob s) = spin_steps env step obs' t s'" by blast
        then show ?thesis using Cons False spin [of t s'] spin_length [of obs' t s']
          by (auto simp: stage_run_def split: option.splits)
      qed
    qed
    moreover have "(case spin_steps env step obs t s of None \<Rightarrow> None | Some (s', rest) \<Rightarrow> run rest s')
        = outcome drain (exec_steps env step obs (Pushing t) s)" for t
      using step_push [of "ob_stop ob" t "env ob s"] poll [of obs'] spin [of t] Cons by auto
    ultimately show ?thesis by blast
  qed
qed

end

section \<open>The three stages\<close>

definition parser_thread_step :: "bool \<Rightarrow> thread_pc \<Rightarrow> TickParser \<Rightarrow> thread_pc \<times> TickParser" where
  "parser_thread_step stop pc st = (case parser_micro stop pc st of Value (pc', st', k) \<Rightarrow> (pc', st') | Undefined \<Rightarrow> (pc, st))"

definition norm_thread_step :: "bool \<Rightarrow> thread_pc \<Rightarrow> Normalizer \<Rightarrow> thread_pc \<times> Normalizer" where
  "norm_thread_step stop pc nz = (case norm_micro stop pc nz of Value (pc', nz', k) \<Rightarrow> (pc', nz') | Undefined \<Rightarrow> (pc, nz))"

text \<open>The state of the book processor may be undefined; then the loop and the drain go on with nothing.\<close>

definition book_thread_step :: "bool \<Rightarrow> thread_pc \<Rightarrow> BookProcessor cpp \<Rightarrow> thread_pc \<times> BookProcessor cpp" where
  "book_thread_step stop pc st = (case cpp_bind st (book_micro stop pc) of
      Value (pc', bp', k) \<Rightarrow> (pc', Value bp')
    | Undefined \<Rightarrow> (if pc = Draining then Finished else if pc = Polling \<and> stop then Draining else Polling, Undefined))"

lemma parser_hand:
  "parser_thread_step stop (Pushing t) (parser_env ob st) =
     (let st1 = st\<lparr>tp_input := env_push (ob_in ob) (tp_input st), tp_output := env_pop (ob_out ob) (tp_output st)\<rparr>
      in if stop then (Polling, st1)
         else (case try_push (tp_output st1) t of
                 (True, q) \<Rightarrow> (Polling, st1\<lparr>tp_output := q, tp_processed := tp_processed st1 + 1\<rparr>)
               | (False, q) \<Rightarrow> (Pushing t, st1\<lparr>tp_output := q\<rparr>)))"
  by (simp add: parser_thread_step_def parser_env_def Let_def split: prod.splits bool.splits)

lemma norm_hand:
  "norm_thread_step stop (Pushing t) (norm_env ob nz) =
     (let nz1 = nz\<lparr>nz_input := env_push (ob_in ob) (nz_input nz), nz_output := env_pop (ob_out ob) (nz_output nz)\<rparr>
      in if stop then (Polling, nz1)
         else (case try_push (nz_output nz1) t of
                 (True, q) \<Rightarrow> (Polling, count_forwarded (nz1\<lparr>nz_output := q\<rparr>))
               | (False, q) \<Rightarrow> (Pushing t, nz1\<lparr>nz_output := q\<rparr>)))"
  by (simp add: norm_thread_step_def norm_env_def Let_def split: prod.splits bool.splits)

lemma parser_spin:
  "spin_steps parser_env parser_thread_step obs t st =
     (case push_spin obs (tp_input st) (tp_output st) t of
        None \<Rightarrow> None
      | Some (pushed, inq, outq, rest) \<Rightarrow>
          (let st1 = st\<lparr>tp_input := inq, tp_output := outq\<rparr>
           in Some (if pushed then st1\<lparr>tp_processed := tp_processed st1 + 1\<rparr> else st1, rest)))"
proof (induction obs arbitrary: st)
  case (Cons ob obs)
  show ?case
    by (cases "try_push (env_pop (ob_out ob) (tp_output st)) t" rule: prod.exhaust)
      (auto simp: parser_hand Cons.IH Let_def split: bool.splits option.splits)
qed simp

lemma norm_spin:
  "spin_steps norm_env norm_thread_step obs t nz =
     (case push_spin obs (nz_input nz) (nz_output nz) t of
        None \<Rightarrow> None
      | Some (pushed, inq, outq, rest) \<Rightarrow>
          (let nz1 = nz\<lparr>nz_input := inq, nz_output := outq\<rparr> in Some (if pushed then count_forwarded nz1 else nz1, rest)))"
proof (induction obs arbitrary: nz)
  case (Cons ob obs)
  show ?case
    by (cases "try_push (env_pop (ob_out ob) (nz_output nz)) t" rule: prod.exhaust)
      (auto simp: norm_hand Cons.IH Let_def split: bool.splits option.splits)
qed simp

interpretation parser_steps: stepwise parser_env parser_thread_step parser_body parser_drain_input
proof unfold_locales
  fix st and obs :: "MarketTick obs list"
  show "(\<exists>s'. parser_thread_step False Polling st = (Polling, s') \<and> parser_body obs st = Some (s', obs)) \<or>
      (\<exists>t s'. parser_thread_step False Polling st = (Pushing t, s') \<and> parser_body obs st = spin_steps parser_env parser_thread_step obs t s')"
    by (cases "try_pop (tp_input st)")
      (auto simp: parser_thread_step_def parser_body_def parser_process_tick_def parser_spin Let_def split: option.splits prod.splits)
next
  fix st and obs :: "MarketTick obs list"
  show "parser_drain_input obs st = (let s1 = (case obs of [] \<Rightarrow> st | ob # _ \<Rightarrow> parser_env ob st) in
      case parser_thread_step (obs \<noteq> [] \<and> ob_stop (hd obs)) Draining s1 of (Draining, s') \<Rightarrow> parser_drain_input (tl obs) s' | (_, s') \<Rightarrow> s')"
    by (subst parser_drain_input.simps) (auto simp: parser_thread_step_def Let_def split: option.splits prod.splits list.splits)
qed (auto simp: parser_thread_step_def split: prod.splits option.splits bool.splits)

interpretation norm_steps: stepwise norm_env norm_thread_step norm_body norm_drain_input
proof unfold_locales
  fix nz and obs :: "MarketTick obs list"
  show "(\<exists>s'. norm_thread_step False Polling nz = (Polling, s') \<and> norm_body obs nz = Some (s', obs)) \<or>
      (\<exists>t s'. norm_thread_step False Polling nz = (Pushing t, s') \<and> norm_body obs nz = spin_steps norm_env norm_thread_step obs t s')"
    by (cases "try_pop (nz_input nz)")
      (auto simp: norm_thread_step_def norm_body_def norm_process_tick_def norm_spin Let_def split: option.splits prod.splits)
next
  fix nz and obs :: "MarketTick obs list"
  show "norm_drain_input obs nz = (let s1 = (case obs of [] \<Rightarrow> nz | ob # _ \<Rightarrow> norm_env ob nz) in
      case norm_thread_step (obs \<noteq> [] \<and> ob_stop (hd obs)) Draining s1 of (Draining, s') \<Rightarrow> norm_drain_input (tl obs) s' | (_, s') \<Rightarrow> s')"
    by (subst norm_drain_input.simps) (auto simp: norm_thread_step_def Let_def split: option.splits prod.splits list.splits)
qed (auto simp: norm_thread_step_def Let_def split: prod.splits option.splits bool.splits)

interpretation book_steps: stepwise bp_thread_env book_thread_step bp_body "\<lambda>obs st. cpp_bind st (bp_drain obs)"
proof unfold_locales
  fix st and obs :: "book_obs list"
  show "(\<exists>s'. book_thread_step False Polling st = (Polling, s') \<and> bp_body obs st = Some (s', obs)) \<or>
      (\<exists>t s'. book_thread_step False Polling st = (Pushing t, s') \<and> bp_body obs st = spin_steps bp_thread_env book_thread_step obs t s')"
  proof (cases st)
    case (Value bp)
    then show ?thesis by (cases "bp_step bp") (auto simp: book_thread_step_def bp_body_def)
  qed (simp add: book_thread_step_def bp_body_def)
next
  fix st and obs :: "book_obs list"
  show "cpp_bind st (bp_drain obs) = (let s1 = (case obs of [] \<Rightarrow> st | ob # _ \<Rightarrow> bp_thread_env ob st) in
      case book_thread_step (obs \<noteq> [] \<and> ob_stop (hd obs)) Draining s1 of
        (Draining, s') \<Rightarrow> cpp_bind s' (bp_drain (tl obs)) | (_, s') \<Rightarrow> s')"
  proof (cases st)
    case (Value bp)
    define bp1 where "bp1 = (case obs of [] \<Rightarrow> bp | ob # _ \<Rightarrow> bp_env ob bp)"
    have s1: "(case obs of [] \<Rightarrow> st | ob # _ \<Rightarrow> bp_thread_env ob st) = Value bp1" using Value by (simp add: bp1_def split: list.splits)
    have "bp_drain obs bp = (case book_thread_step stop Draining (Value bp1) of
        (Draining, s') \<Rightarrow> cpp_bind s' (bp_drain (tl obs)) | (_, s') \<Rightarrow> s')" for stop
      unfolding book_thread_step_def
      by (subst bp_drain.simps) (cases "try_pop (bp_input bp1)", auto simp: bp1_def [symmetric] Let_def split: option.splits cpp.splits)
    then show ?thesis unfolding s1 Let_def by (simp add: Value)
  qed (auto simp: book_thread_step_def split: list.splits)
next
  fix st stop t
  show "(\<exists>s'. book_thread_step stop (Pushing t) st = (Polling, s')) \<or> (\<exists>s'. book_thread_step stop (Pushing t) st = (Pushing t, s'))"
    by (cases st) (simp_all add: book_thread_step_def)
next
  fix st
  show "book_thread_step True Polling st = (Draining, st)" by (cases st) (simp_all add: book_thread_step_def)
next
  fix st stop
  show "(\<exists>s'. book_thread_step stop Draining st = (Draining, s')) \<or> (\<exists>s'. book_thread_step stop Draining st = (Finished, s'))"
  proof (cases st)
    case (Value bp)
    obtain r q where p: "try_pop (bp_input bp) = (r, q)" by force
    show ?thesis
    proof (cases r)
      case (Some t)
      then show ?thesis using Value p by (cases "bp_process_tick t (bp\<lparr>bp_input := q\<rparr>)") (simp_all add: book_thread_step_def)
    qed (simp add: book_thread_step_def Value p)
  qed (simp add: book_thread_step_def)
qed

section \<open>Properties\<close>


end
