(* ===== verification/FeedSimulator.thy ===== *)
theory FeedSimulator
  imports TickParser
begin

text \<open>
  Pipeline stage 1, \<open>feed/FeedConfig.hpp\<close> and \<open>feed/FeedSimulator\<close>: a random walk per symbol. The
  samples of the normal distributions and the clock readings are arguments (the random number
  generator is library code); the theorems hold for all finite samples. Logging is
  left out, and of the rate control only the arithmetic is modelled, not the waiting.
\<close>

record FeedConfig =
  fc_symbols :: "string list"
  fc_initial_prices :: "double list"
  fc_tick_rate_hz :: u64
  fc_volatility :: double
  fc_buffer_size :: u64

definition default_config :: FeedConfig where
  "default_config = \<lparr>fc_symbols = [''BTCUSD'', ''ETHUSD'', ''SOLUSD''], fc_initial_prices = [Fin 60000, Fin 3000, Fin 150],
     fc_tick_rate_hz = 10000, fc_volatility = round64 (1 / 1000), fc_buffer_size = 1048576\<rparr>"

definition config_is_valid :: "FeedConfig \<Rightarrow> bool" where
  "config_is_valid c =
     (if length (fc_symbols c) \<noteq> length (fc_initial_prices c) then False
      else if fc_tick_rate_hz c = 0 then False
      else if dle (fc_volatility c) (Fin 0) then False
      else if fc_buffer_size c = 0 \<or> fc_buffer_size c AND (fc_buffer_size c - 1) \<noteq> 0 then False
      else True)"

record SymbolState =
  ss_symbol :: string
  mid_price :: double
  spread :: double
  bid_size :: double
  ask_size :: double

text \<open>The four samples one price update draws, in the order it draws them.\<close>

record noise =
  n_mid :: double
  n_spread :: double
  n_bid :: double
  n_ask :: double

definition update_price :: "noise \<Rightarrow> SymbolState \<Rightarrow> SymbolState" where
  "update_price n st =
     (let btc = (ss_symbol st = ''BTCUSD'');
          mid = dadd (mid_price st) (n_mid n);
          upper = (if btc then Fin 1000000 else Fin 10000);
          mid = dclamp mid (Fin 10) upper;
          target = (if btc then Fin 5 else round64 (1 / 100));
          s_min = (if btc then Fin (1 / 2) else round64 (1 / 1000));
          s_max = (if btc then Fin 50 else round64 (1 / 20));
          spr = dadd (spread st) (dadd (dmul (round64 (1 / 10)) (dsub target (spread st))) (n_spread n));
          spr = dclamp spr s_min s_max
      in st\<lparr>mid_price := mid, spread := spr,
            bid_size := dclamp (dadd (bid_size st) (n_bid n)) (Fin 1) (Fin 10000),
            ask_size := dclamp (dadd (ask_size st) (n_ask n)) (Fin 1) (Fin 10000)\<rparr>)"

record FeedSimulator =
  fs_config :: FeedConfig
  fs_output :: "MarketTick ring"
  symbol_states :: "SymbolState list"
  fs_published :: u64
  fs_dropped :: u64

definition initial_state :: "FeedConfig \<Rightarrow> nat \<Rightarrow> SymbolState" where
  "initial_state c i =
     (let s = fc_symbols c ! i;
          mid = (if i < length (fc_initial_prices c) then fc_initial_prices c ! i else Fin 100)
      in if s = ''BTCUSD'' then \<lparr>ss_symbol = s, mid_price = mid, spread = Fin 5, bid_size = Fin 1, ask_size = Fin 1\<rparr>
         else \<lparr>ss_symbol = s, mid_price = mid, spread = round64 (1 / 50), bid_size = Fin 100, ask_size = Fin 100\<rparr>)"

definition new_feed_simulator :: "FeedConfig \<Rightarrow> MarketTick ring \<Rightarrow> FeedSimulator" where
  "new_feed_simulator c outq = \<lparr>fs_config = c, fs_output = outq,
     symbol_states = map (initial_state c) [0..<length (fc_symbols c)], fs_published = 0, fs_dropped = 0\<rparr>"

definition bid_of :: "SymbolState \<Rightarrow> double" where
  "bid_of st = dsub (mid_price st) (ddiv (spread st) (Fin 2))"

definition ask_of :: "SymbolState \<Rightarrow> double" where
  "ask_of st = dadd (mid_price st) (ddiv (spread st) (Fin 2))"

text \<open>The assertion of the debug build.\<close>

definition tick_assert :: "SymbolState \<Rightarrow> bool" where
  "tick_assert st \<longleftrightarrow> dlt (bid_of st) (ask_of st) \<and> dlt (Fin 0) (bid_of st) \<and> dlt (Fin 0) (ask_of st) \<and>
     dlt (Fin 0) (bid_size st) \<and> dlt (Fin 0) (ask_size st)"

definition generate_tick :: "noise \<Rightarrow> i64 \<Rightarrow> nat \<Rightarrow> FeedSimulator \<Rightarrow> MarketTick \<times> FeedSimulator" where
  "generate_tick n now i fs =
     (let st = update_price n (symbol_states fs ! i);
          is_bid = (fs_published fs mod 2 = 0);
          price = (if is_bid then bid_of st else ask_of st);
          volume = (if is_bid then bid_size st else ask_size st);
          side = (if is_bid then 0 else 1)
      in (make_tick (ss_symbol st) price volume side now, fs\<lparr>symbol_states := (symbol_states fs)[i := st]\<rparr>))"

definition publish_tick :: "MarketTick \<Rightarrow> FeedSimulator \<Rightarrow> FeedSimulator" where
  "publish_tick t fs = (case try_push (fs_output fs) t of
      (True, q) \<Rightarrow> fs\<lparr>fs_output := q, fs_published := fs_published fs + 1\<rparr>
    | (False, q) \<Rightarrow> fs\<lparr>fs_output := q, fs_dropped := fs_dropped fs + 1\<rparr>)"

text \<open>
  One observation of the thread function: the stop flag at the head of the loop and, for each
  symbol of the round, the samples, the clock and what the consumer took before the push.
\<close>

record feed_obs =
  fo_stop :: bool
  fo_noise :: "nat \<Rightarrow> noise"
  fo_clock :: "nat \<Rightarrow> i64"
  fo_pops :: "nat \<Rightarrow> nat"

definition feed_symbol :: "feed_obs \<Rightarrow> nat \<Rightarrow> FeedSimulator \<Rightarrow> FeedSimulator" where
  "feed_symbol ob i fs =
     (let (t, fs1) = generate_tick (fo_noise ob i) (fo_clock ob i) i fs
      in publish_tick t (fs1\<lparr>fs_output := env_pop (fo_pops ob i) (fs_output fs1)\<rparr>))"

definition feed_round :: "feed_obs \<Rightarrow> FeedSimulator \<Rightarrow> FeedSimulator" where
  "feed_round ob fs = fold (feed_symbol ob) [0..<length (fc_symbols (fs_config fs))] fs"

fun feed_loop :: "feed_obs list \<Rightarrow> FeedSimulator \<Rightarrow> FeedSimulator option" where
  "feed_loop [] fs = None"
| "feed_loop (ob # obs) fs = (if fo_stop ob then Some fs else feed_loop obs (feed_round ob fs))"

definition feed_run :: "feed_obs list \<Rightarrow> FeedSimulator \<Rightarrow> FeedSimulator option" where
  "feed_run obs fs =
     (if fc_tick_rate_hz (fs_config fs) = 0 \<or> fc_symbols (fs_config fs) = [] then Some fs else feed_loop obs fs)"

text \<open>
  The times of \<open>rate_control\<close> in nanoseconds: the next deadline and the moment until which the thread
  sleeps; durations are cast towards zero.
\<close>

definition feed_interval :: "u64 \<Rightarrow> int" where
  "feed_interval hz = 1000000000 div int (unat hz)"

definition rate_control :: "int \<Rightarrow> int \<Rightarrow> int \<times> int" where
  "rate_control next_tick interval =
     (let next' = next_tick + interval; guard = min 50 (interval div 1000 div 10) in (next', next' - guard * 1000))"

section \<open>Bounds of the random walk\<close>

definition sane_state :: "SymbolState \<Rightarrow> bool" where
  "sane_state st \<longleftrightarrow> (\<exists>m s b a. mid_price st = Fin m \<and> spread st = Fin s \<and> bid_size st = Fin b \<and> ask_size st = Fin a)"

definition sane_noise :: "noise \<Rightarrow> bool" where
  "sane_noise n \<longleftrightarrow> (\<exists>m s b a. n_mid n = Fin m \<and> n_spread n = Fin s \<and> n_bid n = Fin b \<and> n_ask n = Fin a)"

lemma dadd_not_NaN: "a = Fin x \<Longrightarrow> b \<noteq> NaN \<Longrightarrow> dadd a b \<noteq> NaN"
  by (cases b) auto

lemma clamp_range:
  assumes "v \<noteq> NaN" "is_double v" "lo \<le> hi" "representable lo" "representable hi"
  obtains x where "dclamp v (Fin lo) (Fin hi) = Fin x" "lo \<le> x" "x \<le> hi" "representable x"
proof (cases v)
  case (Fin y)
  show ?thesis
  proof (cases "y < lo \<or> hi < y")
    case True
    then show ?thesis using that [of lo] that [of hi] assms Fin by (auto simp: dclamp_def)
  next
    case False
    then show ?thesis using that [of y] assms Fin by (simp add: dclamp_def)
  qed
next
  case MInf
  then show ?thesis using that [of lo] assms by (simp add: dclamp_def)
next
  case PInf
  then show ?thesis using that [of hi] assms by (simp add: dclamp_def)
qed (use assms in simp)

lemma representable_pow2: "-1074 \<le> k \<Longrightarrow> k < 1024 \<Longrightarrow> representable (2 powi k)"
  using powi2_less_limit [of k] dyadicI [of "2 powi k" 1 k] by (simp add: representable_iff)

lemma representable_fractions [simp]: "representable (1 / 2)" "representable (1 / 1024)" "representable (1 / 16)"
  using representable_pow2 [of "-1"] representable_pow2 [of "-10"] representable_pow2 [of "-4"]
  by (simp_all add: power_int_minus field_simps)

text \<open>The mean reversion term is a number.\<close>

lemma reversion_not_NaN: "dmul (round64 (1 / 10)) (dsub (Fin t) (Fin s)) \<noteq> NaN"
proof -
  obtain c where "round64 (1 / 10) = Fin c" "1 / 16 \<le> c" using ieee.rnd_between [of "1 / 16" 1 "1 / 10"] by auto
  then show ?thesis by (cases "dsub (Fin t) (Fin s)") (auto simp: dsub_def inf_sign_def)
qed

lemma dadd3_not_NaN: "r \<noteq> NaN \<Longrightarrow> dadd (Fin s) (dadd r (Fin n)) \<noteq> NaN"
  by (cases r; cases "dadd r (Fin n)") auto

text \<open>The bounds of the spread of a symbol.\<close>

definition spread_lo :: "string \<Rightarrow> rat" where
  "spread_lo s = (if s = ''BTCUSD'' then 1 / 2 else 1 / 1024)"

definition spread_hi :: "string \<Rightarrow> rat" where
  "spread_hi s = (if s = ''BTCUSD'' then 50 else 1 / 16)"

definition mid_hi :: "string \<Rightarrow> rat" where
  "mid_hi s = (if s = ''BTCUSD'' then 1000000 else 10000)"

definition walk_ok :: "SymbolState \<Rightarrow> bool" where
  "walk_ok st \<longleftrightarrow> (\<exists>m s b a. mid_price st = Fin m \<and> spread st = Fin s \<and> bid_size st = Fin b \<and> ask_size st = Fin a \<and>
     10 \<le> m \<and> m \<le> mid_hi (ss_symbol st) \<and> representable m \<and>
     spread_lo (ss_symbol st) \<le> s \<and> s \<le> spread_hi (ss_symbol st) \<and> 1 \<le> b \<and> b \<le> 10000 \<and> 1 \<le> a \<and> a \<le> 10000)"

lemma walk_sane: "walk_ok st \<Longrightarrow> sane_state st"
  by (auto simp: walk_ok_def sane_state_def)

lemma spread_clamp:
  assumes "v \<noteq> NaN" "is_double v"
  shows "\<exists>s. dclamp v (round64 (1 / 1000)) (round64 (1 / 20)) = Fin s \<and> 1 / 1024 \<le> s \<and> s \<le> 1 / 16"
proof -
  obtain lo where lo: "round64 (1 / 1000) = Fin lo" "1 / 1024 \<le> lo" "representable lo"
    using ieee.rnd_between [of "1 / 1024" 1 "1 / 1000"] by auto
  obtain hi where hi: "round64 (1 / 20) = Fin hi" "hi \<le> 1 / 16" "representable hi"
    using ieee.rnd_between [of "1 / 1024" "1 / 16" "1 / 20"] by auto
  have "lo \<le> hi" using round64_mono [of "1 / 1000" "1 / 20"] lo hi by simp
  then show ?thesis using clamp_range [OF assms _ lo(3) hi(3)] lo hi by (metis order_trans)
qed

lemma update_price_walk:
  assumes "sane_state st" "sane_noise n"
  shows "walk_ok (update_price n st)" "ss_symbol (update_price n st) = ss_symbol st"
proof -
  show "ss_symbol (update_price n st) = ss_symbol st" by (simp add: update_price_def Let_def)
  obtain m s b a where st: "mid_price st = Fin m" "spread st = Fin s" "bid_size st = Fin b" "ask_size st = Fin a"
    using assms(1) by (auto simp: sane_state_def)
  obtain nm ns nb na where n: "n_mid n = Fin nm" "n_spread n = Fin ns" "n_bid n = Fin nb" "n_ask n = Fin na"
    using assms(2) by (auto simp: sane_noise_def)
  have clamp: "\<exists>x. dclamp (dadd (Fin u) (Fin v)) (Fin lo) (Fin hi) = Fin x \<and> lo \<le> x \<and> x \<le> hi \<and> representable x"
    if "lo \<le> hi" "representable lo" "representable hi" for u v lo hi
    using clamp_range [OF _ is_double_dadd that, of "Fin u" "Fin v"] by (metis dadd_not_NaN double.distinct(3))
  have tgt: "\<exists>t. round64 (1 / 100) = Fin t" using ieee.rnd_between [of 0 1 "1 / 100"] by auto
  let ?v = "\<lambda>t. dadd (Fin s) (dadd (dmul (round64 (1 / 10)) (dsub t (Fin s))) (Fin ns))"
  have v: "?v (Fin t) \<noteq> NaN" for t by (intro dadd3_not_NaN reversion_not_NaN)
  show "walk_ok (update_price n st)"
  proof (cases "ss_symbol st = ''BTCUSD''")
    case True
    obtain x where "dclamp (?v (Fin 5)) (Fin (1 / 2)) (Fin 50) = Fin x" "1 / 2 \<le> x" "x \<le> 50"
      by (rule clamp_range [OF v [of 5] is_double_dadd, of "1 / 2" 50]) auto
    then show ?thesis using True clamp [of 10 1000000 m nm] clamp [of 1 10000 b nb] clamp [of 1 10000 a na]
      by (auto simp: walk_ok_def update_price_def Let_def st n mid_hi_def spread_lo_def spread_hi_def)
  next
    case False
    obtain t where "round64 (1 / 100) = Fin t" using tgt by blast
    then show ?thesis using False spread_clamp [OF v is_double_dadd, of t] clamp [of 10 10000 m nm] clamp [of 1 10000 b nb]
        clamp [of 1 10000 a na]
      by (auto simp: walk_ok_def update_price_def Let_def st n mid_hi_def spread_lo_def spread_hi_def)
  qed
qed

section \<open>Bid and ask\<close>

text \<open>A step of at least the grid width is never lost in rounding.\<close>

lemma round64_step:
  assumes "0 \<le> x" "x < 2 ^ 20" "1 / 2 ^ 33 \<le> h"
  shows "Fin x < round64 (x + h)"
proof -
  define j where "j = \<lfloor>x * 2 ^ 33\<rfloor> + 1"
  have j: "x * 2 ^ 33 < of_int j" "of_int j \<le> x * 2 ^ 33 + 1" "0 \<le> j" using assms(1) floor_correct [of "x * 2 ^ 33"] by (simp_all add: j_def)
  have "x * 2 ^ 33 < of_int (2 ^ 53)" using assms(2) by simp
  then have jle: "j \<le> 2 ^ 53" unfolding j_def by (simp add: floor_less_iff)
  have e: "(of_int j / 2 ^ 33 :: rat) = of_int j * 2 powi (-33)" by (simp add: power_int_minus field_simps)
  have "dyadic (of_int j / 2 ^ 33)" using dyadicI [OF e] jle j(3) by simp
  moreover have "\<bar>of_int j / 2 ^ 33 :: rat\<bar> < double_limit"
  proof -
    have "(of_int j / 2 ^ 33 :: rat) \<le> 2 ^ 20" using jle by (simp add: field_simps)
    also have "\<dots> = 2 powi 20" by simp
    also have "\<dots> < double_limit" by (rule powi2_less_limit) simp
    finally show ?thesis using j(3) by simp
  qed
  ultimately have "representable (of_int j / 2 ^ 33)" by (simp add: representable_iff)
  then have "Fin (of_int j / 2 ^ 33) \<le> round64 (x + h)"
    using j(2) assms(3) by (intro ieee.rnd_ge) (auto simp: field_simps)
  moreover have "Fin x < Fin (of_int j / 2 ^ 33)" using j(1) by (simp add: field_simps)
  ultimately show ?thesis by (rule less_le_trans [rotated])
qed

lemma half_spread:
  assumes "spread_lo k \<le> s" "s \<le> spread_hi k"
  obtains h where "ddiv (Fin s) (Fin 2) = Fin h" "1 / 2 ^ 33 \<le> h" "h \<le> (if k = ''BTCUSD'' then 25 else 1)" "0 \<le> h"
proof -
  have lo: "representable (1 / 2 ^ 33)" using representable_pow2 [of "-33"] by (simp add: power_int_minus field_simps)
  have hi: "representable (if k = ''BTCUSD'' then 25 else 1)" by simp
  have "1 / 2 ^ 33 \<le> s / 2" "s / 2 \<le> (if k = ''BTCUSD'' then 25 else 1)"
    using assms by (auto simp: spread_lo_def spread_hi_def field_simps split: if_splits)
  from ieee.rnd_between [OF lo hi this] obtain h where "round64 (s / 2) = Fin h" "1 / 2 ^ 33 \<le> h"
    "h \<le> (if k = ''BTCUSD'' then 25 else 1)" by metis
  then show ?thesis using that [of h] by (simp add: order_trans [of 0 "1 / 2 ^ 33"])
qed

text \<open>
  The assertion holds in every state of the walk whose mid price is at least 26, and for the
  symbols with the narrow spread at every mid price.
\<close>

lemma walk_assert:
  assumes walk: "walk_ok st" and mid: "ss_symbol st \<noteq> ''BTCUSD'' \<or> Fin 26 \<le> mid_price st"
  shows "tick_assert st" "dlt (Fin 0) (bid_of st) \<and> bid_of st \<noteq> PInf" "dlt (Fin 0) (ask_of st) \<and> ask_of st \<noteq> PInf"
proof -
  obtain m s b a where st: "mid_price st = Fin m" "spread st = Fin s" "bid_size st = Fin b" "ask_size st = Fin a"
    and m: "10 \<le> m" "m \<le> mid_hi (ss_symbol st)" "representable m"
    and s: "spread_lo (ss_symbol st) \<le> s" "s \<le> spread_hi (ss_symbol st)" and ab: "1 \<le> b" "1 \<le> a"
    using walk unfolding walk_ok_def by blast
  obtain h where h: "ddiv (Fin s) (Fin 2) = Fin h" "1 / 2 ^ 33 \<le> h" "h \<le> (if ss_symbol st = ''BTCUSD'' then 25 else 1)" "0 \<le> h"
    using half_spread [OF s] .
  have m20: "m < 2 ^ 20" "m \<le> 1000000" using m(2) by (auto simp: mid_hi_def split: if_splits)
  have gap: "1 \<le> m - h" using h(3) m(1) mid st(1) by (auto split: if_splits)
  have ask: "Fin m < round64 (m + h)" using m(1) m20 h(2) by (intro round64_step) auto
  have bid: "round64 (m - h) \<le> Fin m" "Fin 1 \<le> round64 (m - h)"
    using ieee.rnd_le [OF m(3)] ieee.rnd_ge [of 1] gap h(4) by simp_all
  have askle: "round64 (m + h) \<le> Fin 2000000"
    using ieee.rnd_le [of 2000000 "m + h"] m20(2) h(3) by (auto split: if_splits)
  have e: "bid_of st = round64 (m - h)" "ask_of st = round64 (m + h)"
    using st h(1) by (simp_all add: bid_of_def ask_of_def dsub_def del: ddiv.simps)
  show "dlt (Fin 0) (bid_of st) \<and> bid_of st \<noteq> PInf" "dlt (Fin 0) (ask_of st) \<and> ask_of st \<noteq> PInf"
    using e bid ask askle m(1) by (cases "round64 (m - h)"; cases "round64 (m + h)"; simp)+
  then show "tick_assert st"
    using e bid ask st ab by (auto simp: tick_assert_def dlt_def)
qed

section \<open>The thread\<close>

lemma publish_tick_fields [simp]:
  "fs_config (publish_tick t fs) = fs_config fs" "symbol_states (publish_tick t fs) = symbol_states fs"
  "fs_published (publish_tick t fs) + fs_dropped (publish_tick t fs) = fs_published fs + fs_dropped fs + 1"
  by (simp_all add: publish_tick_def algebra_simps split: prod.splits bool.splits)

lemma feed_symbol_fields:
  "fs_config (feed_symbol ob i fs) = fs_config fs"
  "symbol_states (feed_symbol ob i fs) = (symbol_states fs)[i := update_price (fo_noise ob i) (symbol_states fs ! i)]"
  "fs_published (feed_symbol ob i fs) + fs_dropped (feed_symbol ob i fs) = fs_published fs + fs_dropped fs + 1"
  by (simp_all add: feed_symbol_def generate_tick_def Let_def)

lemma feed_fold_count:
  "fs_published (fold (feed_symbol ob) is fs) + fs_dropped (fold (feed_symbol ob) is fs) =
     fs_published fs + fs_dropped fs + of_nat (length is)" "fs_config (fold (feed_symbol ob) is fs) = fs_config fs"
  by (induction "is" arbitrary: fs) (simp_all add: feed_symbol_fields)

text \<open>What the parser makes of a published tick.\<close>

definition feed_tick :: "MarketTick \<Rightarrow> bool" where
  "feed_tick t \<longleftrightarrow> length (mt_symbol t) = 8 \<and> (sym_string (mt_symbol t) \<noteq> ''BTCUSD'' \<longrightarrow> validate (enrich t))"

definition feed_inv :: "FeedSimulator \<Rightarrow> bool" where
  "feed_inv fs \<longleftrightarrow> ring_ok (fs_output fs) \<and> map ss_symbol (symbol_states fs) = fc_symbols (fs_config fs) \<and>
     (\<forall>s \<in> set (fc_symbols (fs_config fs)). s \<noteq> [] \<and> NUL \<notin> set s) \<and>
     (\<forall>st \<in> set (symbol_states fs). sane_state st) \<and> (\<forall>t \<in> set (ring_items (fs_output fs)). feed_tick t)"

definition feed_obs_ok :: "feed_obs \<Rightarrow> bool" where
  "feed_obs_ok ob \<longleftrightarrow> (\<forall>i. sane_noise (fo_noise ob i) \<and> 0 < sint (fo_clock ob i))"

lemma generated_tick:
  assumes walk: "walk_ok st" and symb: "ss_symbol st \<noteq> []" "NUL \<notin> set (ss_symbol st)" and now: "0 < sint now"
    and px: "p = bid_of st \<and> v = bid_size st \<or> p = ask_of st \<and> v = ask_size st" and side: "sd = 0 \<or> sd = 1"
  shows "feed_tick (make_tick (ss_symbol st) p v sd now)"
proof -
  have r: "sym_string (mt_symbol (make_tick (ss_symbol st) p v sd now)) = take 8 (ss_symbol st)"
    using sym_string_make_tick [OF symb(2)] .
  have "validate (enrich (make_tick (ss_symbol st) p v sd now))" if "ss_symbol st \<noteq> ''BTCUSD''"
  proof -
    have "dlt (Fin 0) p" "p \<noteq> PInf" using walk_assert(2,3) [OF walk] that px by auto
    moreover have "\<exists>x. v = Fin x \<and> 0 < x" using walk px by (auto simp: walk_ok_def)
    moreover have "mt_symbol (make_tick (ss_symbol st) p v sd now) ! 0 \<noteq> NUL"
      using symb by (cases "ss_symbol st") (auto simp: make_tick_symbol)
    ultimately show ?thesis using now side by (cases p) (auto simp: validate_iff)
  qed
  moreover have "take 8 (ss_symbol st) \<noteq> ''BTCUSD'' \<Longrightarrow> ss_symbol st \<noteq> ''BTCUSD''" by auto
  ultimately show ?thesis using r by (simp add: feed_tick_def length_make_tick_symbol)
qed

lemma publish_tick_inv:
  assumes "feed_inv fs" "feed_tick t" shows "feed_inv (publish_tick t fs)"
proof -
  have "ring_ok (fs_output fs)" using assms(1) by (simp add: feed_inv_def)
  then show ?thesis by (cases rule: rb.push_cases [of _ t])
      (use assms in \<open>auto simp: feed_inv_def publish_tick_def\<close>)
qed

lemma feed_symbol_inv:
  assumes inv: "feed_inv fs" and ob: "feed_obs_ok ob" and i: "i < length (symbol_states fs)"
  shows "feed_inv (feed_symbol ob i fs)"
proof -
  define st where "st = update_price (fo_noise ob i) (symbol_states fs ! i)"
  define fs1 where "fs1 = fs\<lparr>symbol_states := (symbol_states fs)[i := st], fs_output := env_pop (fo_pops ob i) (fs_output fs)\<rparr>"
  have "sane_state (symbol_states fs ! i)" using inv i by (simp add: feed_inv_def)
  then have st: "walk_ok st" "ss_symbol st = ss_symbol (symbol_states fs ! i)"
    using update_price_walk ob by (auto simp: st_def feed_obs_ok_def)
  have sm: "map ss_symbol ((symbol_states fs)[i := st]) = map ss_symbol (symbol_states fs)"
    using i st(2) by (simp add: map_update list_update_same_conv)
  have inv1: "feed_inv fs1" unfolding fs1_def
    using inv sm env_pop_ok [of "fs_output fs" "fo_pops ob i"] walk_sane [OF st(1)]
    by (auto simp: feed_inv_def dest: in_set_dropD dest!: set_update_subset_insert [THEN subsetD])
  have "ss_symbol st \<in> set (fc_symbols (fs_config fs))"
    using inv i st(2) by (metis feed_inv_def length_map nth_map nth_mem)
  then have symb: "ss_symbol st \<noteq> []" "NUL \<notin> set (ss_symbol st)" using inv by (auto simp: feed_inv_def)
  have t: "feed_tick (fst (generate_tick (fo_noise ob i) (fo_clock ob i) i fs))"
    using ob by (auto simp: generate_tick_def Let_def st_def [symmetric] feed_obs_ok_def intro!: generated_tick [OF st(1) symb])
  have "feed_symbol ob i fs = publish_tick (fst (generate_tick (fo_noise ob i) (fo_clock ob i) i fs)) fs1"
    by (simp add: feed_symbol_def generate_tick_def Let_def st_def fs1_def)
  then show ?thesis using publish_tick_inv [OF inv1 t] by simp
qed

lemma feed_fold_inv:
  "feed_inv fs \<Longrightarrow> feed_obs_ok ob \<Longrightarrow> \<forall>i \<in> set is. i < length (fc_symbols (fs_config fs)) \<Longrightarrow> feed_inv (fold (feed_symbol ob) is fs)"
proof (induction "is" arbitrary: fs)
  case (Cons i "is")
  have "length (symbol_states fs) = length (fc_symbols (fs_config fs))"
    using Cons.prems(1) by (metis feed_inv_def length_map)
  then have "feed_inv (feed_symbol ob i fs)" using feed_symbol_inv Cons.prems by simp
  then show ?case using Cons.IH [of "feed_symbol ob i fs"] Cons.prems by (simp add: feed_symbol_fields)
qed simp

lemma feed_round_ok:
  "feed_inv fs \<Longrightarrow> feed_obs_ok ob \<Longrightarrow> feed_inv (feed_round ob fs)" "fs_config (feed_round ob fs) = fs_config fs"
  "fs_published (feed_round ob fs) + fs_dropped (feed_round ob fs) =
     fs_published fs + fs_dropped fs + of_nat (length (fc_symbols (fs_config fs)))"
  using feed_fold_inv [of fs ob] feed_fold_count [of ob "[0..<length (fc_symbols (fs_config fs))]" fs]
  by (auto simp: feed_round_def)

abbreviation rounds :: "feed_obs list \<Rightarrow> nat" where
  "rounds obs \<equiv> length (takeWhile (\<lambda>ob. \<not> fo_stop ob) obs)"

lemma feed_loop_ok:
  "feed_inv fs \<Longrightarrow> \<forall>ob \<in> set obs. feed_obs_ok ob \<Longrightarrow> \<exists>ob \<in> set obs. fo_stop ob \<Longrightarrow>
     \<exists>fs'. feed_loop obs fs = Some fs' \<and> feed_inv fs' \<and>
       fs_published fs' + fs_dropped fs' = fs_published fs + fs_dropped fs + of_nat (rounds obs * length (fc_symbols (fs_config fs)))"
proof (induction obs arbitrary: fs)
  case (Cons ob obs)
  show ?case
  proof (cases "fo_stop ob")
    case False
    then obtain fs' where "feed_loop obs (feed_round ob fs) = Some fs'" "feed_inv fs'"
      "fs_published fs' + fs_dropped fs' = fs_published (feed_round ob fs) + fs_dropped (feed_round ob fs) +
        of_nat (rounds obs * length (fc_symbols (fs_config (feed_round ob fs))))"
      using Cons.IH [of "feed_round ob fs"] Cons.prems feed_round_ok(1) [of fs ob] by auto
    then show ?thesis using False feed_round_ok(2,3) [of ob fs] by (simp add: algebra_simps)
  qed (use Cons.prems in simp)
qed simp

section \<open>A concrete simulator\<close>

definition calm :: noise where
  "calm = \<lparr>n_mid = Fin 1, n_spread = Fin 0, n_bid = Fin 2, n_ask = Fin 3\<rparr>"

definition demo_eth :: SymbolState where
  "demo_eth = \<lparr>ss_symbol = ''ETHUSD'', mid_price = Fin 3000, spread = Fin 1, bid_size = Fin 100, ask_size = Fin 100\<rparr>"

definition demo_feed_obs :: "bool \<Rightarrow> feed_obs" where
  "demo_feed_obs stop = \<lparr>fo_stop = stop, fo_noise = \<lambda>i. calm, fo_clock = \<lambda>i. 7, fo_pops = \<lambda>i. 0\<rparr>"

definition demo_feed :: FeedSimulator where
  "demo_feed = new_feed_simulator default_config (filled_ring 3 zero_tick [])"

lemma calm_ok: "sane_noise calm" "sane_state demo_eth" "feed_obs_ok (demo_feed_obs stop)"
  by (simp_all add: sane_noise_def calm_def sane_state_def demo_eth_def feed_obs_ok_def demo_feed_obs_def)

lemma demo_feed_inv: "feed_inv demo_feed"
proof -
  have "\<exists>x. round64 (1 / 50) = Fin x" using ieee.rnd_between [of 0 1 "1 / 50"] by auto
  then show ?thesis
    by (simp add: feed_inv_def demo_feed_def new_feed_simulator_def default_config_def initial_state_def sane_state_def
        upt_conv_Cons)
qed

section \<open>Properties\<close>



text \<open>
  For \<open>BTCUSD\<close> the clamps do not exclude an invalid tick: the mid price may be as low as 10 while the
  spread is as wide as 50, and then the bid is negative and the assertion fails, in a state
  the walk reaches in one step with finite samples.
\<close>

theorem btc_assert_fails:
  "\<exists>st n. sane_state st \<and> sane_noise n \<and> ss_symbol st = ''BTCUSD'' \<and> walk_ok st \<and> walk_ok (update_price n st) \<and>
     bid_of (update_price n st) = Fin (- 15) \<and> \<not> tick_assert (update_price n st)"
proof -
  define st where "st = \<lparr>ss_symbol = ''BTCUSD'', mid_price = Fin 10, spread = Fin 50, bid_size = Fin 1, ask_size = Fin 1\<rparr>"
  define n where "n = \<lparr>n_mid = Fin 0, n_spread = Fin 1000, n_bid = Fin 0, n_ask = Fin 0\<rparr>"
  obtain c where c: "round64 (1 / 10) = Fin c" "0 \<le> c" "c \<le> 1" using ieee.rnd_between [of 0 1 "1 / 10"] by auto
  have neg: "round64 (- 45) = Fin (- 45)" using round64_minus [of 45] by simp
  have r45: "representable (- 45)" by (simp add: representable_minus)
  obtain y where y: "round64 (c * - 45) = Fin y" "- 45 \<le> y" "y \<le> 0"
  proof -
    have "- 45 \<le> c * - 45" "c * - 45 \<le> 0" using c(2,3) by simp_all
    then show thesis using ieee.rnd_between [OF r45, of 0 "c * - 45"] that by simp blast
  qed
  obtain z where z: "round64 (y + 1000) = Fin z" "900 \<le> z" "z \<le> 1000"
    by (rule ieee.rnd_between [of 900 1000 "y + 1000"]) (use y in simp_all)
  obtain w where w: "round64 (50 + z) = Fin w" "900 \<le> w"
    by (rule ieee.rnd_between [of 900 2000 "50 + z"]) (use z in simp_all)
  have spr: "spread (update_price n st) = Fin 50"
    using y z w by (simp add: update_price_def Let_def st_def n_def dsub_def neg c(1) dclamp_def)
  have mid: "mid_price (update_price n st) = Fin 10"
    by (simp add: update_price_def Let_def st_def n_def dclamp_def)
  have "round64 (- 15) = Fin (- 15)" using round64_minus [of 15] by simp
  then have bid: "bid_of (update_price n st) = Fin (- 15)" using spr mid by (simp add: bid_of_def dsub_def)
  have ok: "sane_state st" "sane_noise n" by (simp_all add: sane_state_def st_def sane_noise_def n_def)
  moreover have "walk_ok st" by (simp add: walk_ok_def st_def mid_hi_def spread_lo_def spread_hi_def)
  moreover have "\<not> tick_assert (update_price n st)" "ss_symbol st = ''BTCUSD''" using bid by (simp_all add: tick_assert_def st_def)
  ultimately show ?thesis using bid update_price_walk(1) [OF ok] by blast
qed



text \<open>
  The rate control never sleeps past its deadline nor before the previous one: for every rate the
  guard time is between 0 and a tenth of the interval, so the sleep target lies between the
  previous deadline and the new one.
\<close>

theorem rate_control_guard:
  assumes "hz \<noteq> 0"
  shows "let interval = feed_interval hz; (next', target) = rate_control t interval
    in next' = t + interval \<and> target \<le> next' \<and> 10 * (next' - target) \<le> interval \<and> t \<le> target"
proof -
  define g where "g = min 50 (feed_interval hz div 1000 div 10)"
  have i: "0 \<le> feed_interval hz" by (simp add: feed_interval_def pos_imp_zdiv_nonneg_iff unat_gt_0 assms div_int_pos_iff)
  then have "0 \<le> g" "10000 * g \<le> feed_interval hz" by (auto simp: g_def min_def)
  then show ?thesis using i by (simp add: Let_def rate_control_def g_def [symmetric])
qed

theorem rate_control_guard_witness: "rate_control 0 (feed_interval 10000) = (100000, 90000)"
  using rate_control_guard [of 10000 0] by (simp add: rate_control_def feed_interval_def)

end
