(* ===== verification/ProcessorMain.thy ===== *)
theory ProcessorMain
  imports FeedSimulator "HOL-Library.Sublist"
begin

text \<open>
  The start of the service, \<open>tools/processor_main.cpp\<close>: the list of symbols and the configuration that \<open>main\<close> makes of
  the environment, its early returns, the signal handler and the loop that waits for a signal.
  The environment is a parameter, a function from names to values. Logging is left out; the
  threads that \<open>main\<close> starts and stops are the subject of the theories of the stages and of \<open>Pipeline\<close>.
\<close>

text \<open>
  \<open>std::getline(stream, item, ',')\<close> on what is left of the stream: it fails if nothing is left, and otherwise
  takes the characters up to the next comma, which it removes, or up to the end.
\<close>

definition getline :: "string \<Rightarrow> (string \<times> string) option" where
  "getline stream = (if stream = [] then None
     else Some (takeWhile (\<lambda>c. c \<noteq> CHR '','') stream, drop 1 (dropWhile (\<lambda>c. c \<noteq> CHR '','') stream)))"

lemma length_getline: "getline stream = Some (item, rest) \<Longrightarrow> length rest < length stream"
proof -
  assume "getline stream = Some (item, rest)"
  then have "stream \<noteq> []" "rest = drop 1 (dropWhile (\<lambda>c. c \<noteq> CHR '','') stream)" by (auto simp: getline_def split: if_splits)
  then show ?thesis using length_dropWhile_le [of "\<lambda>c. c \<noteq> CHR '',''" stream]
    by (cases "dropWhile (\<lambda>c. c \<noteq> CHR '','') stream") auto
qed

function split_loop :: "string \<Rightarrow> string list \<Rightarrow> string list" where
  "split_loop stream symbols = (case getline stream of
      None \<Rightarrow> symbols
    | Some (item, rest) \<Rightarrow> split_loop rest (if item \<noteq> [] then symbols @ [item] else symbols))"
  by pat_completeness auto
termination
  by (relation "measure (\<lambda>(stream, symbols). length stream)") (auto dest: length_getline)

declare split_loop.simps [simp del]

definition split_symbols :: "string \<Rightarrow> string list" where
  "split_symbols input = split_loop input []"

text \<open>The configuration \<open>main\<close> builds, and the part of \<open>main\<close> before the threads: an exit code or the configuration.\<close>

definition processor_config :: "string list \<Rightarrow> FeedConfig" where
  "processor_config symbols = default_config\<lparr>fc_symbols := symbols,
     fc_initial_prices := replicate (length symbols) (Fin 0), fc_tick_rate_hz := 1\<rparr>"

definition main_setup :: "(string \<Rightarrow> string option) \<Rightarrow> int + string \<times> FeedConfig" where
  "main_setup getenv = (case getenv ''MDP_DB_CONNECTION'' of
      None \<Rightarrow> Inl 1
    | Some db_conn_str \<Rightarrow> (case getenv ''MDP_SYMBOLS'' of
        None \<Rightarrow> Inl 1
      | Some symbols_str \<Rightarrow>
          (let symbols = split_symbols symbols_str
           in if symbols = [] then Inl 1 else Inr (db_conn_str, processor_config symbols))))"

text \<open>
  \<open>signal_handler\<close> with the POSIX numbers of \<open>SIGINT\<close> and \<open>SIGTERM\<close>, and the waiting loop of \<open>main\<close>: one list of delivered
  signals for each time the flag is read. The result is the number of reads.
\<close>

definition signal_handler :: "int \<Rightarrow> bool \<Rightarrow> bool" where
  "signal_handler signal running = (if signal = 2 \<or> signal = 15 then False else running)"

fun wait_for_signal :: "int list list \<Rightarrow> bool \<Rightarrow> nat option" where
  "wait_for_signal [] running = None"
| "wait_for_signal (sigs # polls) running =
     (let running' = fold signal_handler sigs running
      in if running' then map_option Suc (wait_for_signal polls running') else Some 1)"

section \<open>Splitting\<close>

abbreviation comma :: char where
  "comma \<equiv> CHR '',''"

fun join_comma :: "string list \<Rightarrow> string" where
  "join_comma [] = []"
| "join_comma [x] = x"
| "join_comma (x # xs) = x @ comma # join_comma xs"

lemma split_loop_acc: "split_loop s acc = acc @ split_loop s []"
proof (induction "length s" arbitrary: s acc rule: less_induct)
  case less
  show ?case
  proof (cases "getline s")
    case None then show ?thesis by (simp add: split_loop.simps [of s])
  next
    case (Some p)
    obtain item rest where p: "p = (item, rest)" by force
    have IH: "split_loop rest a = a @ split_loop rest []" for a using less length_getline Some p by blast
    show ?thesis using Some p IH [of "acc @ [item]"] IH [of "[item]"] IH [of acc]
      by (simp add: split_loop.simps [of s])
  qed
qed

lemma split_loop_Nil [simp]: "split_loop [] acc = acc"
  by (subst split_loop.simps) (simp add: getline_def)

lemma split_symbols_Nil [simp]: "split_symbols [] = []"
  by (simp add: split_symbols_def)

lemma comma_free:
  assumes "comma \<notin> set w"
  shows "takeWhile (\<lambda>c. c \<noteq> comma) w = w" "dropWhile (\<lambda>c. c \<noteq> comma) w = []" "filter (\<lambda>c. c \<noteq> comma) w = w"
    "set w \<subseteq> {comma} \<longleftrightarrow> w = []"
  using assms by (induction w) auto

lemma split_symbols_item:
  assumes "comma \<notin> set w"
  shows "split_symbols (w @ comma # s) = (if w = [] then [] else [w]) @ split_symbols s"
    and "split_symbols w = (if w = [] then [] else [w])"
proof -
  have "getline (w @ comma # s) = Some (w, s)" using assms by (auto simp: getline_def takeWhile_append dropWhile_append)
  then show "split_symbols (w @ comma # s) = (if w = [] then [] else [w]) @ split_symbols s"
    unfolding split_symbols_def by (subst split_loop.simps) (simp add: split_loop_acc [of s "[w]"])
  have "w \<noteq> [] \<Longrightarrow> getline w = Some (w, [])" using assms by (auto simp: getline_def comma_free)
  then show "split_symbols w = (if w = [] then [] else [w])"
    by (cases "w = []") (simp_all add: split_symbols_def split_loop.simps [of w])
qed

text \<open>Every string is a comma-free word, or such a word, a comma and a shorter string.\<close>

lemma comma_cases [case_names word item]:
  assumes "comma \<notin> set s \<Longrightarrow> P" and "\<And>w r. s = w @ comma # r \<Longrightarrow> comma \<notin> set w \<Longrightarrow> P"
  shows P
  using assms split_list_first [of comma s] by blast

lemma split_symbols_induct [case_names word item]:
  assumes "\<And>w. comma \<notin> set w \<Longrightarrow> P w" and "\<And>w s. comma \<notin> set w \<Longrightarrow> P s \<Longrightarrow> P (w @ comma # s)"
  shows "P s"
proof (induction "length s" arbitrary: s rule: less_induct)
  case less
  show ?case by (rule comma_cases [of s]) (use assms less in auto)
qed

section \<open>Properties\<close>

text \<open>
  C34. The list of symbols: \<open>split_symbols\<close> returns non-empty words without commas, which together are the input without its
  commas, so that no character is lost and none invented; and it is the inverse of joining
  such words with commas.
\<close>

theorem split_symbols_correct:
  "(\<forall>w \<in> set (split_symbols s). w \<noteq> [] \<and> comma \<notin> set w) \<and>
   concat (split_symbols s) = filter (\<lambda>c. c \<noteq> comma) s \<and>
   ((\<forall>w \<in> set ws. w \<noteq> [] \<and> comma \<notin> set w) \<longrightarrow> split_symbols (join_comma ws) = ws)"
proof (intro conjI impI)
  show "\<forall>w \<in> set (split_symbols s). w \<noteq> [] \<and> comma \<notin> set w"
    by (induction s rule: split_symbols_induct) (auto simp: split_symbols_item)
  show "concat (split_symbols s) = filter (\<lambda>c. c \<noteq> comma) s"
    by (induction s rule: split_symbols_induct) (auto simp: split_symbols_item comma_free)
  show "split_symbols (join_comma ws) = ws" if "\<forall>w \<in> set ws. w \<noteq> [] \<and> comma \<notin> set w"
    using that by (induction ws rule: join_comma.induct) (auto simp: split_symbols_item)
qed

theorem split_symbols_correct_witness:
  "split_symbols (join_comma [''BTC'', ''ETH'']) = [''BTC'', ''ETH''] \<and> concat (split_symbols '',A,,B,'') = ''AB''"
  using split_symbols_correct [of "'',A,,B,''" "[''BTC'', ''ETH'']"] by simp

text \<open>
  C35. The start of the service: \<open>main\<close> returns 1 exactly if one of the two variables is missing or \<open>MDP_SYMBOLS\<close> consists of
  commas only; otherwise it runs with a valid configuration that has at least one symbol, none
  of them empty, and one initial price for each.
\<close>

theorem main_setup_correct:
  "(main_setup env = Inl 1 \<longleftrightarrow> env ''MDP_DB_CONNECTION'' = None \<or>
      (\<forall>s. env ''MDP_SYMBOLS'' = Some s \<longrightarrow> set s \<subseteq> {comma})) \<and>
   (\<forall>db c. main_setup env = Inr (db, c) \<longrightarrow> config_is_valid c \<and> fc_symbols c \<noteq> [] \<and> [] \<notin> set (fc_symbols c) \<and>
      env ''MDP_DB_CONNECTION'' = Some db) \<and>
   (main_setup env = Inl 1 \<or> (\<exists>r. main_setup env = Inr r))"
proof -
  have e: "split_symbols s = [] \<longleftrightarrow> set s \<subseteq> {comma}" for s
    by (induction s rule: split_symbols_induct) (auto simp: split_symbols_item comma_free)
  have ne: "[] \<notin> set (split_symbols s)" for s
    by (induction s rule: split_symbols_induct) (auto simp: split_symbols_item)
  have v: "\<not> dle (fc_volatility default_config) (Fin 0)"
    using round64_eval [of "-10" "1 / 1000" 4611686018427388] by (simp add: default_config_def power_int_def power_divide)
  have valid: "config_is_valid (processor_config xs)" for xs
    using v by (simp add: config_is_valid_def processor_config_def) (simp add: default_config_def)
  show ?thesis
    using e ne valid by (auto simp: main_setup_def Let_def processor_config_def split: option.splits if_splits)
qed

definition demo_env :: "string \<Rightarrow> string option" where
  "demo_env name = (if name = ''MDP_DB_CONNECTION'' then Some ''db'' else if name = ''MDP_SYMBOLS'' then Some '',BTC,,ETH'' else None)"

lemma main_setup_demo: "\<exists>r. main_setup demo_env = Inr r"
  by (simp add: main_setup_def demo_env_def split_symbols_def split_loop.simps getline_def)

theorem main_setup_correct_witness:
  "\<exists>db c. main_setup demo_env = Inr (db, c) \<and> config_is_valid c \<and> fc_symbols c \<noteq> []"
  using main_setup_correct [of demo_env] by (fastforce simp: demo_env_def)

text \<open>
  The wait: \<open>main\<close> leaves its loop at the first reading of the flag after \<open>SIGINT\<close> or \<open>SIGTERM\<close> was delivered, and no other signal
  ends it.
\<close>

theorem wait_for_signal_first:
  "wait_for_signal polls True = Some n \<longleftrightarrow>
     0 < n \<and> n \<le> length polls \<and> (\<exists>sig \<in> set (polls ! (n - 1)). sig \<in> {2, 15}) \<and>
     (\<forall>sigs \<in> set (take (n - 1) polls). \<forall>sig \<in> set sigs. sig \<notin> {2, 15})"
proof -
  have f: "fold signal_handler sigs b \<longleftrightarrow> b \<and> (\<forall>sig \<in> set sigs. sig \<notin> {2, 15})" for sigs b
    by (induction sigs arbitrary: b) (auto simp: signal_handler_def)
  show ?thesis
  proof (induction polls arbitrary: n)
    case (Cons sigs polls)
    show ?case
    proof (cases n)
      case (Suc m)
      then show ?thesis using Cons.IH [of m] by (cases m) (auto simp: f Let_def)
    qed (auto simp: Let_def split: if_splits)
  qed auto
qed

theorem wait_for_signal_first_witness: "wait_for_signal [[1], [], [28, 15], [2]] True = Some 3"
  using wait_for_signal_first [of "[[1], [], [28, 15], [2]]" 3] by simp

end
