(* ===== verification/Pipeline.thy ===== *)
theory Pipeline
  imports StageSteps ProcessorMain
begin

text \<open>
  The pipeline as \<open>main\<close> of \<open>tools/processor_main.cpp\<close> wires it: the feed, the parser, the normalizer and the book
  processor share three rings, and the main thread stops them one after the other, waiting for
  each thread to end. The threads take steps in any order; a step of a stage is one access to a
  ring with the computation that follows it (\<open>StageSteps\<close>), so that every interleaving of ring operations is
  covered. The feed is
  represented by the ticks it offers, the two consumers of snapshots by what they take.
  The counts of ticks fed and lost are not part of the program: they serve to state that no
  tick disappears unaccounted.
\<close>

declare length_ring_items [simp del]

section \<open>The system\<close>

text \<open>
  \<open>q1\<close>, \<open>q2\<close> and \<open>q3\<close> are \<open>sim_to_parser\<close>, \<open>parser_to_norm\<close> and \<open>norm_to_book\<close>; the ring fields of the three stage records are
  set from them before a step. \<open>pl_ctl\<close> is the progress of \<open>main\<close>: how many of the stop requests to
  feed, parser, normalizer and book have been made, and 5 when all four have ended.
\<close>

record pipe =
  q1 :: "MarketTick ring"
  q2 :: "MarketTick ring"
  q3 :: "MarketTick ring"
  pl_ctl :: nat
  pl_feed_done :: bool
  pl_parser_pc :: thread_pc
  pl_parser :: TickParser
  pl_norm_pc :: thread_pc
  pl_norm :: Normalizer
  pl_book_pc :: thread_pc
  pl_book :: BookProcessor
  pl_fed :: nat
  pl_parser_lost :: nat
  pl_norm_lost :: nat

definition parser_view :: "pipe \<Rightarrow> TickParser" where
  "parser_view s = (pl_parser s)\<lparr>tp_input := q1 s, tp_output := q2 s\<rparr>"

definition norm_view :: "pipe \<Rightarrow> Normalizer" where
  "norm_view s = (pl_norm s)\<lparr>nz_input := q2 s, nz_output := q3 s\<rparr>"

definition book_view :: "pipe \<Rightarrow> BookProcessor" where
  "book_view s = (pl_book s)\<lparr>bp_input := q3 s\<rparr>"

datatype act = FeedPush MarketTick | FeedExit | ParserStep | NormStep | BookStep | DbTake | SignalTake | MainStep

text \<open>
  The main thread: it requests the stop of a stage and goes on to the next when the thread has ended,
  \<open>sim.stop(); parser.stop(); norm.stop(); book.stop();\<close>.
\<close>

definition main_step :: "pipe \<Rightarrow> pipe" where
  "main_step s =
     (if pl_ctl s = 0 then s\<lparr>pl_ctl := 1\<rparr>
      else if pl_ctl s = 1 \<and> pl_feed_done s then s\<lparr>pl_ctl := 2\<rparr>
      else if pl_ctl s = 2 \<and> pl_parser_pc s = Finished then s\<lparr>pl_ctl := 3\<rparr>
      else if pl_ctl s = 3 \<and> pl_norm_pc s = Finished then s\<lparr>pl_ctl := 4\<rparr>
      else if pl_ctl s = 4 \<and> pl_book_pc s = Finished then s\<lparr>pl_ctl := 5\<rparr>
      else s)"

fun pipe_step :: "act \<Rightarrow> pipe \<Rightarrow> pipe cpp" where
  "pipe_step (FeedPush t) s =
     (if pl_feed_done s then Value s
      else (case try_push (q1 s) t of (b, q) \<Rightarrow> Value (s\<lparr>q1 := q, pl_fed := pl_fed s + (if b then 1 else 0)\<rparr>)))"
| "pipe_step FeedExit s = Value (if 1 \<le> pl_ctl s then s\<lparr>pl_feed_done := True\<rparr> else s)"
| "pipe_step ParserStep s = cpp_bind (parser_micro (2 \<le> pl_ctl s) (pl_parser_pc s) (parser_view s)) (\<lambda>(pc, st, k).
     Value (s\<lparr>q1 := tp_input st, q2 := tp_output st, pl_parser_pc := pc, pl_parser := st, pl_parser_lost := pl_parser_lost s + k\<rparr>))"
| "pipe_step NormStep s = cpp_bind (norm_micro (3 \<le> pl_ctl s) (pl_norm_pc s) (norm_view s)) (\<lambda>(pc, nz, k).
     Value (s\<lparr>q2 := nz_input nz, q3 := nz_output nz, pl_norm_pc := pc, pl_norm := nz, pl_norm_lost := pl_norm_lost s + k\<rparr>))"
| "pipe_step BookStep s = cpp_bind (book_micro (4 \<le> pl_ctl s) (pl_book_pc s) (book_view s)) (\<lambda>(pc, bp, k).
     Value (s\<lparr>q3 := bp_input bp, pl_book_pc := pc, pl_book := bp\<rparr>))"
| "pipe_step DbTake s = Value (s\<lparr>pl_book := (pl_book s)\<lparr>db_queue := map_option (env_pop 1) (db_queue (pl_book s))\<rparr>\<rparr>)"
| "pipe_step SignalTake s = Value (s\<lparr>pl_book := (pl_book s)\<lparr>signal_queue := map_option (env_pop 1) (signal_queue (pl_book s))\<rparr>\<rparr>)"
| "pipe_step MainStep s = Value (main_step s)"

fun pipe_run :: "act list \<Rightarrow> pipe \<Rightarrow> pipe cpp" where
  "pipe_run [] s = Value s"
| "pipe_run (a # as) s = cpp_bind (pipe_step a s) (pipe_run as)"

section \<open>The contract of a stage\<close>

definition in_flight :: "thread_pc \<Rightarrow> MarketTick ring \<Rightarrow> nat" where
  "in_flight pc q = length (ring_items q) + (case pc of Pushing t \<Rightarrow> 1 | _ \<Rightarrow> 0)"

definition stop_work :: "thread_pc \<Rightarrow> MarketTick ring \<Rightarrow> nat" where
  "stop_work pc q = length (ring_items q) + (case pc of Pushing t \<Rightarrow> 3 | Polling \<Rightarrow> 2 | Draining \<Rightarrow> 1 | Finished \<Rightarrow> 0)"

definition stopping :: "thread_pc \<Rightarrow> bool" where
  "stopping pc \<longleftrightarrow> pc = Draining \<or> pc = Finished"

text \<open>
  What a step does to the flow of ticks, from position, input and counter to the new ones: a tick leaves the
  stage only by being counted or lost; the input only shrinks; the stage drains only after a
  stop and ends only with an empty input, after which nothing changes; and while it is asked
  to stop every step brings it closer to its end.
\<close>

definition flow_ok :: "bool \<Rightarrow> thread_pc \<Rightarrow> MarketTick ring \<Rightarrow> u64 \<Rightarrow> nat \<Rightarrow> thread_pc \<Rightarrow> MarketTick ring \<Rightarrow> u64 \<Rightarrow> bool" where
  "flow_ok stop pc q c k pc' q' c' \<longleftrightarrow>
     c' + of_nat k + of_nat (in_flight pc' q') = c + of_nat (in_flight pc q) \<and>
     suffix (ring_items q') (ring_items q) \<and>
     (stopping pc' \<longrightarrow> stop \<or> stopping pc) \<and>
     (pc' = Finished \<longrightarrow> pc = Finished \<or> ring_items q' = []) \<and>
     (pc = Finished \<longrightarrow> pc' = Finished \<and> q' = q \<and> k = 0 \<and> c' = c) \<and>
     (stop \<and> pc \<noteq> Finished \<longrightarrow> stop_work pc' q' < stop_work pc q)"

lemmas flow_defs = flow_ok_def in_flight_def stop_work_def stopping_def

lemma flow_idle [simp]:
  "flow_ok True Polling q c 0 Draining q c" "ring_items q = [] \<Longrightarrow> flow_ok False Polling q c 0 Polling q c"
  "ring_items q = [] \<Longrightarrow> flow_ok stop Draining q c 0 Finished q c" "flow_ok stop Finished q c 0 Finished q c"
  by (simp_all add: flow_defs)

lemma flow_hand [simp]:
  "flow_ok True (Pushing t) q c 1 Polling q c" "flow_ok False (Pushing t) q c 0 (Pushing t) q c"
  "c' = c + 1 \<Longrightarrow> flow_ok False (Pushing t) q c 0 Polling q c'"
  by (simp_all add: flow_defs)

lemma flow_pop:
  assumes "ring_items q = x # ring_items q'"
  shows "flow_ok False Polling q c 0 (Pushing t) q' c"
    and "c' = c + 1 \<Longrightarrow> flow_ok False Polling q c 0 Polling q' c'"
    and "c' + of_nat k = c + 1 \<Longrightarrow> flow_ok stop Draining q c k Draining q' c'"
  using assms by (simp_all add: flow_defs suffix_ConsI)

lemma flow_balance:
  "flow_ok stop pc q c k pc' q' c' \<Longrightarrow> c' + of_nat k + of_nat (in_flight pc' q') = c + of_nat (in_flight pc q)"
  by (simp only: flow_ok_def)

lemma flow_control:
  assumes "flow_ok stop pc q c k pc' q' c'"
  shows "stopping pc' \<Longrightarrow> stop \<or> stopping pc" "pc' = Finished \<Longrightarrow> pc = Finished \<or> ring_items q' = []"
    "pc = Finished \<Longrightarrow> pc' = Finished \<and> q' = q" "suffix (ring_items q') (ring_items q)"
  using assms by (simp_all only: flow_ok_def)

lemma flow_work: "flow_ok stop pc q c k pc' q' c' \<Longrightarrow> stop \<Longrightarrow> pc \<noteq> Finished \<Longrightarrow> stop_work pc' q' < stop_work pc q"
  unfolding flow_ok_def by blast

text \<open>What one stage adds to the input of the next.\<close>

definition emits :: "MarketTick ring \<Rightarrow> u64 \<Rightarrow> MarketTick ring \<Rightarrow> u64 \<Rightarrow> bool" where
  "emits q c q' c' \<longleftrightarrow> ring_ok q' \<and> (\<exists>ys. ring_items q' = ring_items q @ ys \<and> (\<forall>y \<in> set ys. bookable y) \<and> c' = c + of_nat (length ys))"

lemma emits_same [simp]: "emits q c q c \<longleftrightarrow> ring_ok q"
  by (auto simp: emits_def)

lemma emits_one: "ring_ok q' \<Longrightarrow> ring_items q' = ring_items q @ [y] \<Longrightarrow> bookable y \<Longrightarrow> c' = c + 1 \<Longrightarrow> emits q c q' c'"
  by (auto simp: emits_def)

locale pipe_stage =
  fixes micro :: "bool \<Rightarrow> thread_pc \<Rightarrow> 's \<Rightarrow> (thread_pc \<times> 's \<times> nat) cpp" and inq :: "'s \<Rightarrow> MarketTick ring"
    and good :: "thread_pc \<Rightarrow> 's \<Rightarrow> bool" and counted :: "'s \<Rightarrow> u64"
  assumes good_ring: "good pc s \<Longrightarrow> ring_ok (inq s)"
    and micro_ok: "good pc s \<Longrightarrow> \<exists>pc' s' k. micro stop pc s = Value (pc', s', k) \<and> good pc' s' \<and>
      flow_ok stop pc (inq s) (counted s) k pc' (inq s') (counted s')"
begin

lemma micro_cases:
  assumes "good pc s"
  obtains pc' s' k where "micro stop pc s = Value (pc', s', k)" "good pc' s'" "ring_ok (inq s')"
    "flow_ok stop pc (inq s) (counted s) k pc' (inq s') (counted s')"
  using micro_ok [OF assms, of stop] good_ring by blast

text \<open>A stage that is asked to stop ends after finitely many of its own steps, with an empty input.\<close>

lemma stop_ends:
  assumes "good pc s" and "pc = Finished \<longrightarrow> ring_items (inq s) = []"
  shows "\<exists>n s'. ((\<lambda>x. cpp_bind x (\<lambda>(pc, s). cpp_bind (micro True pc s) (\<lambda>(pc', s', k). Value (pc', s')))) ^^ n) (Value (pc, s))
      = Value (Finished, s') \<and> good Finished s' \<and> ring_items (inq s') = []"
  using assms
proof (induction "stop_work pc (inq s)" arbitrary: pc s rule: less_induct)
  case less
  show ?case
  proof (cases "pc = Finished")
    case True
    then show ?thesis using less.prems by (intro exI [of _ 0] exI [of _ s]) simp
  next
    case False
    obtain pc1 s1 k where m: "micro True pc s = Value (pc1, s1, k)" "good pc1 s1"
      "flow_ok True pc (inq s) (counted s) k pc1 (inq s1) (counted s1)"
      by (rule micro_cases [OF less.prems(1), where stop = True])
    have "stop_work pc1 (inq s1) < stop_work pc (inq s)" "pc1 = Finished \<longrightarrow> ring_items (inq s1) = []"
      using m(3) False by (auto simp: flow_ok_def)
    from less.hyps [OF this(1) m(2) this(2)] obtain n s' where
      "((\<lambda>x. cpp_bind x (\<lambda>(pc, s). cpp_bind (micro True pc s) (\<lambda>(pc', s', k). Value (pc', s')))) ^^ n) (Value (pc1, s1))
      = Value (Finished, s') \<and> good Finished s' \<and> ring_items (inq s') = []" by blast
    then show ?thesis using m(1) by (intro exI [of _ "Suc n"] exI [of _ s']) (simp only: funpow_Suc_right o_apply, simp)
  qed
qed

end

text \<open>A stage with an output.\<close>

locale pipe_producer = pipe_stage +
  fixes outq :: "'s \<Rightarrow> MarketTick ring" and passed :: "'s \<Rightarrow> u64"
  assumes micro_out: "good pc s \<Longrightarrow> micro stop pc s = Value (pc', s', k) \<Longrightarrow> emits (outq s) (passed s) (outq s') (passed s')"

section \<open>The stages fulfil it\<close>

text \<open>A raw tick that the pipeline can take: what the parser accepts of it, the book can use.\<close>

definition feedable :: "MarketTick \<Rightarrow> bool" where
  "feedable t \<longleftrightarrow> length (mt_symbol t) = 8 \<and> is_double (mt_price t) \<and> mt_volume t \<noteq> PInf \<and>
     (\<forall>v. mt_volume t = Fin v \<longrightarrow> v < 2 ^ 64)"

lemma feedable_bookable: "feedable t \<Longrightarrow> validate (enrich t) \<Longrightarrow> bookable (enrich t)"
  using clean_enrich [of t] by (auto simp: feedable_def bookable_def validate_iff)

lemma bookable_feedable: "bookable t \<Longrightarrow> feedable t"
  by (auto simp: feedable_def bookable_def clean_tick_def)

definition parser_good :: "thread_pc \<Rightarrow> TickParser \<Rightarrow> bool" where
  "parser_good pc st \<longleftrightarrow> ring_ok (tp_input st) \<and> ring_ok (tp_output st) \<and> (\<forall>t \<in> set (ring_items (tp_input st)). feedable t) \<and>
     (\<forall>t \<in> set (ring_items (tp_output st)). bookable t) \<and> (\<forall>t. pc = Pushing t \<longrightarrow> bookable t)"

definition norm_good :: "thread_pc \<Rightarrow> Normalizer \<Rightarrow> bool" where
  "norm_good pc nz \<longleftrightarrow> norm_inv nz \<and> (\<forall>t \<in> set (ring_items (nz_input nz)). bookable t) \<and>
     (\<forall>t \<in> set (ring_items (nz_output nz)). bookable t) \<and>
     (\<forall>t. pc = Pushing t \<longrightarrow> bookable t \<and> norm_out_ok nz (ring_items (nz_output nz) @ [t]))"

definition bp_good :: "thread_pc \<Rightarrow> BookProcessor \<Rightarrow> bool" where
  "bp_good pc bp \<longleftrightarrow> bp_inv bp \<and> (\<forall>t. pc \<noteq> Pushing t)"

abbreviation parser_counted :: "TickParser \<Rightarrow> u64" where
  "parser_counted st \<equiv> tp_processed st + tp_rejected st"

abbreviation norm_counted :: "Normalizer \<Rightarrow> u64" where
  "norm_counted nz \<equiv> ticks_forwarded (nz_stats nz) + ticks_deduplicated (nz_stats nz) + ticks_reordered (nz_stats nz)"

subsection \<open>Parser\<close>

definition parser_step_ok :: "bool \<Rightarrow> thread_pc \<Rightarrow> TickParser \<Rightarrow> bool" where
  "parser_step_ok stop pc st \<longleftrightarrow> (\<exists>pc' st' k. parser_micro stop pc st = Value (pc', st', k) \<and> parser_good pc' st' \<and>
     flow_ok stop pc (tp_input st) (parser_counted st) k pc' (tp_input st') (parser_counted st') \<and>
     emits (tp_output st) (tp_processed st) (tp_output st') (tp_processed st'))"

lemma parser_step_okI:
  "parser_micro stop pc st = Value (pc', st', k) \<Longrightarrow> parser_good pc' st' \<Longrightarrow>
   flow_ok stop pc (tp_input st) (parser_counted st) k pc' (tp_input st') (parser_counted st') \<Longrightarrow>
   emits (tp_output st) (tp_processed st) (tp_output st') (tp_processed st') \<Longrightarrow> parser_step_ok stop pc st"
  unfolding parser_step_ok_def by blast

lemma parser_step_polling: assumes g: "parser_good Polling st" shows "parser_step_ok stop Polling st"
proof (cases stop)
  case True
  then show ?thesis using g by (intro parser_step_okI [of _ _ _ Draining st 0]) (auto simp: parser_good_def)
next
  case False
  have ok: "ring_ok (tp_input st)" "ring_ok (tp_output st)" using g by (auto simp: parser_good_def)
  from ok(1) show ?thesis
  proof (cases rule: rb.pop_cases)
    case none
    then show ?thesis using False g ok by (intro parser_step_okI [of _ _ _ Polling st 0]) auto
  next
    case (some raw xs q)
    then have "ring_items (tp_input st) = raw # ring_items q" by simp
    note p = flow_pop [OF this]
    show ?thesis
    proof (cases "validate (enrich raw)")
      case True
      then have "bookable (enrich raw)" using feedable_bookable g some(1) by (simp add: parser_good_def)
      then show ?thesis using False g True some ok p
        by (intro parser_step_okI [of _ _ _ "Pushing (enrich raw)" "st\<lparr>tp_input := q\<rparr>" 0]) (auto simp: parser_good_def)
    next
      case inv: False
      then show ?thesis using False g some ok
        by (intro parser_step_okI [of _ _ _ Polling "st\<lparr>tp_input := q, tp_rejected := tp_rejected st + 1\<rparr>" 0])
          (auto simp: parser_good_def intro: p(2))
    qed
  qed
qed

lemma parser_step_pushing: assumes g: "parser_good (Pushing t) st" shows "parser_step_ok stop (Pushing t) st"
proof (cases stop)
  case True
  then show ?thesis using g flow_hand(1) by (intro parser_step_okI [of _ _ _ Polling st 1]) (auto simp: parser_good_def)
next
  case False
  have ok: "ring_ok (tp_output st)" using g by (auto simp: parser_good_def)
  then show ?thesis
  proof (cases rule: rb.push_cases [of _ t])
    case full
    then show ?thesis using False g ok by (intro parser_step_okI [of _ _ _ "Pushing t" st 0]) auto
  next
    case (room q)
    then show ?thesis using False g
      by (intro parser_step_okI [of _ _ _ Polling "st\<lparr>tp_output := q, tp_processed := tp_processed st + 1\<rparr>" 0])
        (auto simp: parser_good_def intro: emits_one)
  qed
qed

lemma parser_step_draining: assumes g: "parser_good Draining st" shows "parser_step_ok stop Draining st"
proof -
  have ok: "ring_ok (tp_input st)" "ring_ok (tp_output st)" using g by (auto simp: parser_good_def)
  from ok(1) show ?thesis
  proof (cases rule: rb.pop_cases)
    case none
    then show ?thesis using g ok by (intro parser_step_okI [of _ _ _ Finished st 0]) (auto simp: parser_good_def)
  next
    case (some raw xs q)
    have b: "validate (enrich raw) \<Longrightarrow> bookable (enrich raw)" using feedable_bookable g some(1) by (simp add: parser_good_def)
    have "ring_items (tp_input st) = raw # ring_items q" using some by simp
    note p = flow_pop(3) [OF this]
    show ?thesis
      by (rule parser_step_okI [of _ _ _ Draining "parser_drain_tick raw (st\<lparr>tp_input := q\<rparr>)"
            "if validate (enrich raw) \<and> \<not> fst (try_push (tp_output st) (enrich raw)) then 1 else 0"];
          rule rb.push_cases [OF ok(2), of "enrich raw"];
          use g some b ok in \<open>auto simp: parser_good_def parser_drain_tick_def Let_def intro: emits_one p\<close>)
  qed
qed

lemma parser_step: assumes "parser_good pc st" shows "parser_step_ok stop pc st"
proof (cases pc)
  case Finished
  then show ?thesis using assms by (intro parser_step_okI [of _ _ _ Finished st 0]) (auto simp: parser_good_def)
qed (use assms parser_step_polling parser_step_pushing parser_step_draining in auto)

interpretation parser_flow: pipe_producer parser_micro tp_input parser_good parser_counted tp_output tp_processed
proof unfold_locales
  fix pc st stop assume "parser_good pc st"
  from parser_step [OF this, of stop] show "\<exists>pc' st' k. parser_micro stop pc st = Value (pc', st', k) \<and> parser_good pc' st' \<and>
      flow_ok stop pc (tp_input st) (parser_counted st) k pc' (tp_input st') (parser_counted st')"
    by (auto simp: parser_step_ok_def)
next
  fix pc st stop pc' st' k assume "parser_good pc st" "parser_micro stop pc st = Value (pc', st', k)"
  then show "emits (tp_output st) (tp_processed st) (tp_output st') (tp_processed st')"
    using parser_step [of pc st stop] by (auto simp: parser_step_ok_def)
qed (simp add: parser_good_def)

subsection \<open>Normalizer\<close>

definition norm_step_ok :: "bool \<Rightarrow> thread_pc \<Rightarrow> Normalizer \<Rightarrow> bool" where
  "norm_step_ok stop pc nz \<longleftrightarrow> (\<exists>pc' nz' k. norm_micro stop pc nz = Value (pc', nz', k) \<and> norm_good pc' nz' \<and>
     flow_ok stop pc (nz_input nz) (norm_counted nz) k pc' (nz_input nz') (norm_counted nz') \<and>
     emits (nz_output nz) (ticks_forwarded (nz_stats nz)) (nz_output nz') (ticks_forwarded (nz_stats nz')))"

lemma norm_step_okI:
  "norm_micro stop pc nz = Value (pc', nz', k) \<Longrightarrow> norm_good pc' nz' \<Longrightarrow>
   flow_ok stop pc (nz_input nz) (norm_counted nz) k pc' (nz_input nz') (norm_counted nz') \<Longrightarrow>
   emits (nz_output nz) (ticks_forwarded (nz_stats nz)) (nz_output nz') (ticks_forwarded (nz_stats nz')) \<Longrightarrow> norm_step_ok stop pc nz"
  unfolding norm_step_ok_def by blast

lemma norm_good_idle: "norm_good pc nz \<Longrightarrow> (\<And>t. pc' \<noteq> Pushing t) \<Longrightarrow> norm_good pc' nz"
  by (auto simp: norm_good_def)

lemma norm_good_rings: "norm_good pc nz \<Longrightarrow> ring_ok (nz_input nz) \<and> ring_ok (nz_output nz)"
  by (simp add: norm_good_def norm_inv_def)

lemma norm_good_pop:
  assumes "norm_good pc nz" "try_pop (nz_input nz) = (Some t, q)"
  shows "norm_good Polling (nz\<lparr>nz_input := q\<rparr>)" "bookable t" "ring_items (nz_input nz) = t # ring_items q"
  using norm_inv_pop [of nz t q] assms by (auto simp: norm_good_def)

lemma norm_good_count:
  "norm_good Polling (count_dedup nz) = norm_good Polling nz" "norm_good Polling (count_reordered nz) = norm_good Polling nz"
  "norm_good Polling (count_forwarded nz) = norm_good Polling nz"
  by (simp_all add: norm_good_def norm_inv_count) (simp_all add: stage_simps)

lemma count_fields:
  "nz_input (count_dedup nz) = nz_input nz" "nz_output (count_dedup nz) = nz_output nz"
  "nz_stats (count_dedup nz) = (nz_stats nz)\<lparr>ticks_deduplicated := ticks_deduplicated (nz_stats nz) + 1\<rparr>"
  "nz_input (count_reordered nz) = nz_input nz" "nz_output (count_reordered nz) = nz_output nz"
  "nz_stats (count_reordered nz) = (nz_stats nz)\<lparr>ticks_reordered := ticks_reordered (nz_stats nz) + 1\<rparr>"
  "nz_input (count_forwarded nz) = nz_input nz" "nz_output (count_forwarded nz) = nz_output nz"
  "nz_stats (count_forwarded nz) = (nz_stats nz)\<lparr>ticks_forwarded := ticks_forwarded (nz_stats nz) + 1\<rparr>"
  by (simp_all add: stage_simps)

lemma norm_good_hold:
  assumes "norm_good Polling nz" "bookable t" "\<not> is_duplicate nz t" "\<not> is_reordered nz t"
  shows "norm_good (Pushing t) (update_state t nz)"
proof -
  have m: "norm_maps_ok nz" "norm_out_ok nz (ring_items (nz_output nz))" "clean_tick t"
    using assms by (auto simp: norm_good_def norm_inv_def bookable_def)
  then have "\<not> stale (um_find (last_tick nz)) t" using stale_iff assms(3,4) by blast
  from norm_out_update [OF m(2) this m(3)] norm_maps_update [OF m(1), of t] show ?thesis
    using assms by (simp add: norm_good_def norm_inv_def)
qed

lemma norm_good_push:
  assumes "norm_good (Pushing t) nz" "ring_ok q" "ring_items q = ring_items (nz_output nz) @ [t]"
  shows "norm_good Polling (nz\<lparr>nz_output := q\<rparr>)"
  using assms by (auto simp: norm_good_def norm_inv_def norm_maps_ok_def norm_out_ok_def)

lemma norm_step_polling: assumes g: "norm_good Polling nz" shows "norm_step_ok stop Polling nz"
proof (cases stop)
  case True
  then show ?thesis using g norm_good_rings [OF g] norm_good_idle [OF g]
    by (intro norm_step_okI [of _ _ _ Draining nz 0]) auto
next
  case False
  have ok: "ring_ok (nz_input nz)" "ring_ok (nz_output nz)" using norm_good_rings [OF g] by auto
  from ok(1) show ?thesis
  proof (cases rule: rb.pop_cases)
    case none
    then show ?thesis using False g ok by (intro norm_step_okI [of _ _ _ Polling nz 0]) auto
  next
    case (some t xs q)
    note pop = norm_good_pop [OF g some(2)]
    note p = flow_pop [OF pop(3)]
    let ?nz = "nz\<lparr>nz_input := q\<rparr>"
    consider "is_duplicate ?nz t" | "\<not> is_duplicate ?nz t" "is_reordered ?nz t" | "\<not> is_duplicate ?nz t" "\<not> is_reordered ?nz t" by blast
    then show ?thesis
    proof cases
      case 1
      then show ?thesis using False some ok pop
        by (intro norm_step_okI [of _ _ _ Polling "count_dedup ?nz" 0]) (auto simp: norm_good_count count_fields intro: p(2))
    next
      case 2
      then show ?thesis using False some ok pop
        by (intro norm_step_okI [of _ _ _ Polling "count_reordered ?nz" 0]) (auto simp: norm_good_count count_fields intro: p(2))
    next
      case 3
      then show ?thesis using False some ok p norm_good_hold [OF pop(1,2)]
        by (intro norm_step_okI [of _ _ _ "Pushing t" "update_state t ?nz" 0]) auto
    qed
  qed
qed

lemma norm_step_pushing: assumes g: "norm_good (Pushing t) nz" shows "norm_step_ok stop (Pushing t) nz"
proof (cases stop)
  case True
  then show ?thesis using flow_hand(1) norm_good_rings [OF g] norm_good_idle [OF g]
    by (intro norm_step_okI [of _ _ _ Polling nz 1]) auto
next
  case False
  have ok: "ring_ok (nz_output nz)" using norm_good_rings [OF g] by simp
  then show ?thesis
  proof (cases rule: rb.push_cases [of _ t])
    case full
    then show ?thesis using False g ok by (intro norm_step_okI [of _ _ _ "Pushing t" nz 0]) auto
  next
    case (room q)
    have "bookable t" using g by (simp add: norm_good_def)
    with room show ?thesis using False norm_good_push [OF g room(4,3)]
      by (intro norm_step_okI [of _ _ _ Polling "count_forwarded (nz\<lparr>nz_output := q\<rparr>)" 0])
        (auto simp: norm_good_count count_fields intro: emits_one)
  qed
qed

text \<open>Draining one tick: it is counted, or passed on and counted, or lost.\<close>

lemma norm_drain_step:
  assumes g: "norm_good Polling nz" and t: "bookable t"
  defines "k \<equiv> if \<not> is_duplicate nz t \<and> \<not> is_reordered nz t \<and> \<not> fst (try_push (nz_output nz) t) then 1 else 0"
  shows "norm_good Draining (norm_drain_tick t nz)" "norm_counted (norm_drain_tick t nz) + of_nat k = norm_counted nz + 1"
    "emits (nz_output nz) (ticks_forwarded (nz_stats nz)) (nz_output (norm_drain_tick t nz)) (ticks_forwarded (nz_stats (norm_drain_tick t nz)))"
proof -
  have ok: "ring_ok (nz_output nz)" using norm_good_rings [OF g] by simp
  have dg: "norm_good Polling x \<Longrightarrow> norm_good Draining x" for x by (erule norm_good_idle) simp
  consider "is_duplicate nz t" | "\<not> is_duplicate nz t" "is_reordered nz t" | "\<not> is_duplicate nz t" "\<not> is_reordered nz t" by blast
  then have "norm_good Draining (norm_drain_tick t nz) \<and> norm_counted (norm_drain_tick t nz) + of_nat k = norm_counted nz + 1 \<and>
    emits (nz_output nz) (ticks_forwarded (nz_stats nz)) (nz_output (norm_drain_tick t nz)) (ticks_forwarded (nz_stats (norm_drain_tick t nz)))"
  proof cases
    case 3
    note h = norm_good_hold [OF g t 3]
    from ok show ?thesis
    proof (cases rule: rb.push_cases [of _ t])
      case full
      have "norm_drain_tick t nz = update_state t nz" "k = 1"
        using full 3 by (simp_all add: norm_drain_tick_def Let_def k_def update_state_def)
      then show ?thesis using ok norm_good_idle [OF h] by simp
    next
      case (room q)
      have "norm_drain_tick t nz = count_forwarded ((update_state t nz)\<lparr>nz_output := q\<rparr>)" "k = 0"
        using room 3 by (simp_all add: norm_drain_tick_def k_def)
      then show ?thesis using room t norm_good_push [OF h, of q] norm_good_count(3) dg by (auto simp: count_fields intro: emits_one)
    qed
  qed (use g ok norm_good_count dg in \<open>auto simp: norm_drain_tick_def k_def count_fields\<close>)
  then show "norm_good Draining (norm_drain_tick t nz)" "norm_counted (norm_drain_tick t nz) + of_nat k = norm_counted nz + 1"
    "emits (nz_output nz) (ticks_forwarded (nz_stats nz)) (nz_output (norm_drain_tick t nz)) (ticks_forwarded (nz_stats (norm_drain_tick t nz)))"
    by blast+
qed

lemma norm_step: assumes g: "norm_good pc nz" shows "norm_step_ok stop pc nz"
proof (cases pc)
  case Draining
  have ok: "ring_ok (nz_input nz)" "ring_ok (nz_output nz)" using norm_good_rings [OF g] by auto
  from ok(1) show ?thesis
  proof (cases rule: rb.pop_cases)
    case none
    then show ?thesis using Draining ok norm_good_idle [OF g] by (intro norm_step_okI [of _ _ _ Finished nz 0]) auto
  next
    case (some t xs q)
    note pop = norm_good_pop [OF g some(2)]
    note d = norm_drain_step [OF pop(1,2)]
    show ?thesis using Draining some(2) d flow_pop(3) [OF pop(3) d(2), of stop]
      by (intro norm_step_okI [OF _ d(1)]) (simp_all add: Let_def)
  qed
next
  case Finished
  then show ?thesis using g norm_good_rings [OF g] by (intro norm_step_okI [of _ _ _ Finished nz 0]) auto
qed (use g norm_step_polling norm_step_pushing in auto)

interpretation norm_flow: pipe_producer norm_micro nz_input norm_good norm_counted nz_output "\<lambda>nz. ticks_forwarded (nz_stats nz)"
proof unfold_locales
  fix pc nz stop assume "norm_good pc nz"
  from norm_step [OF this, of stop] show "\<exists>pc' nz' k. norm_micro stop pc nz = Value (pc', nz', k) \<and> norm_good pc' nz' \<and>
      flow_ok stop pc (nz_input nz) (norm_counted nz) k pc' (nz_input nz') (norm_counted nz')"
    by (auto simp: norm_step_ok_def)
next
  fix pc nz stop pc' nz' k assume "norm_good pc nz" "norm_micro stop pc nz = Value (pc', nz', k)"
  then show "emits (nz_output nz) (ticks_forwarded (nz_stats nz)) (nz_output nz') (ticks_forwarded (nz_stats nz'))"
    using norm_step [of pc nz stop] by (auto simp: norm_step_ok_def)
qed (simp add: norm_good_rings)

subsection \<open>Book\<close>

lemma bp_tick:
  assumes "bp_inv bp" "try_pop (bp_input bp) = (Some t, q)"
  obtains bp' where "bp_process_tick t (bp\<lparr>bp_input := q\<rparr>) = Value bp'" "bp_inv bp'" "bp_input bp' = q"
    "bp_ticks_processed bp' = bp_ticks_processed bp + 1" "ring_items (bp_input bp) = t # ring_items q"
proof -
  note pop = bp_inv_pop [OF assms]
  have "ring_ok (bp_input bp)" using assms(1) by (simp add: bp_inv_def)
  then have i: "ring_items (bp_input bp) = t # ring_items q" using assms(2) by (auto elim: rb.pop_cases)
  obtain bp' where "bp_process_tick t (bp\<lparr>bp_input := q\<rparr>) = Value bp'" "bp_inv bp'" "bp_input bp' = bp_input (bp\<lparr>bp_input := q\<rparr>)"
    "bp_ticks_processed bp' = bp_ticks_processed (bp\<lparr>bp_input := q\<rparr>) + 1"
    using bp_process_tick_effect [OF pop] by blast
  then show thesis using that i by simp
qed

lemma book_micro_lossless: "book_micro stop pc bp = Value (pc', bp', k) \<Longrightarrow> k = 0"
  by (cases "(stop, pc, bp)" rule: book_micro.cases)
    (auto split: prod.splits option.splits if_splits cpp.splits elim!: cpp_bind.elims)

interpretation book_flow: pipe_stage book_micro bp_input bp_good bp_ticks_processed
proof unfold_locales
  fix pc bp stop assume g: "bp_good pc bp"
  then have inv: "bp_inv bp" "ring_ok (bp_input bp)" by (auto simp: bp_good_def bp_inv_def)
  show "\<exists>pc' bp' k. book_micro stop pc bp = Value (pc', bp', k) \<and> bp_good pc' bp' \<and>
      flow_ok stop pc (bp_input bp) (bp_ticks_processed bp) k pc' (bp_input bp') (bp_ticks_processed bp')"
    using inv(2)
  proof (cases rule: rb.pop_cases)
    case none
    then show ?thesis using g by (cases pc; cases stop) (auto simp: bp_good_def bp_step_def)
  next
    case (some t xs q)
    obtain bp' where b: "bp_process_tick t (bp\<lparr>bp_input := q\<rparr>) = Value bp'" "bp_inv bp'" "bp_input bp' = q"
      "bp_ticks_processed bp' = bp_ticks_processed bp + 1" "ring_items (bp_input bp) = t # ring_items q"
      using bp_tick [OF inv(1) some(2)] .
    note p = flow_pop [OF b(5)]
    show ?thesis using g b p some(2) by (cases pc; cases stop) (auto simp: bp_good_def bp_step_def)
  qed
qed (simp add: bp_good_def bp_inv_def)

section \<open>The invariant of the system\<close>

definition pipe_good :: "pipe \<Rightarrow> bool" where
  "pipe_good s \<longleftrightarrow> parser_good (pl_parser_pc s) (parser_view s) \<and> norm_good (pl_norm_pc s) (norm_view s) \<and>
     bp_good (pl_book_pc s) (book_view s)"

definition pipe_control :: "pipe \<Rightarrow> bool" where
  "pipe_control s \<longleftrightarrow> pl_ctl s \<le> 5 \<and> (pl_feed_done s \<longrightarrow> 1 \<le> pl_ctl s) \<and> (2 \<le> pl_ctl s \<longrightarrow> pl_feed_done s) \<and>
     (stopping (pl_parser_pc s) \<longrightarrow> 2 \<le> pl_ctl s) \<and> (3 \<le> pl_ctl s \<longrightarrow> pl_parser_pc s = Finished) \<and>
     (stopping (pl_norm_pc s) \<longrightarrow> 3 \<le> pl_ctl s) \<and> (4 \<le> pl_ctl s \<longrightarrow> pl_norm_pc s = Finished) \<and>
     (stopping (pl_book_pc s) \<longrightarrow> 4 \<le> pl_ctl s) \<and> (5 \<le> pl_ctl s \<longrightarrow> pl_book_pc s = Finished)"

definition pipe_drained :: "pipe \<Rightarrow> bool" where
  "pipe_drained s \<longleftrightarrow> (pl_parser_pc s = Finished \<longrightarrow> ring_items (q1 s) = []) \<and>
     (pl_norm_pc s = Finished \<longrightarrow> ring_items (q2 s) = []) \<and> (pl_book_pc s = Finished \<longrightarrow> ring_items (q3 s) = [])"

definition pipe_counts :: "pipe \<Rightarrow> bool" where
  "pipe_counts s \<longleftrightarrow>
     of_nat (pl_fed s) = parser_counted (pl_parser s) + of_nat (pl_parser_lost s) + of_nat (in_flight (pl_parser_pc s) (q1 s)) \<and>
     tp_processed (pl_parser s) = norm_counted (pl_norm s) + of_nat (pl_norm_lost s) + of_nat (in_flight (pl_norm_pc s) (q2 s)) \<and>
     ticks_forwarded (nz_stats (pl_norm s)) = bp_ticks_processed (pl_book s) + of_nat (in_flight (pl_book_pc s) (q3 s))"

definition pipe_inv :: "pipe \<Rightarrow> bool" where
  "pipe_inv s \<longleftrightarrow> pipe_good s \<and> pipe_control s \<and> pipe_drained s \<and> pipe_counts s"

lemmas pipe_defs = pipe_inv_def pipe_good_def pipe_control_def pipe_drained_def pipe_counts_def

lemma parser_fields [simp]: "st\<lparr>tp_input := tp_input st, tp_output := tp_output st\<rparr> = st"
  by simp

lemma norm_fields [simp]: "nz\<lparr>nz_input := nz_input nz, nz_output := nz_output nz\<rparr> = nz"
  by simp

lemma view_fields [simp]:
  "tp_input (parser_view s) = q1 s" "tp_output (parser_view s) = q2 s" "tp_processed (parser_view s) = tp_processed (pl_parser s)"
  "tp_rejected (parser_view s) = tp_rejected (pl_parser s)" "nz_input (norm_view s) = q2 s" "nz_output (norm_view s) = q3 s"
  "nz_stats (norm_view s) = nz_stats (pl_norm s)" "bp_input (book_view s) = q3 s"
  "bp_ticks_processed (book_view s) = bp_ticks_processed (pl_book s)"
  by (simp_all add: parser_view_def norm_view_def book_view_def)

lemma norm_out_suffix: "norm_out_ok nz xs \<Longrightarrow> suffix ys xs \<Longrightarrow> norm_out_ok nz ys"
  by (auto simp: norm_out_ok_def suffix_def sorted_wrt_append)

text \<open>What a neighbour does to a ring keeps a stage good.\<close>

lemma parser_good_rings:
  "parser_good pc st \<Longrightarrow> ring_ok q \<Longrightarrow> \<forall>t \<in> set (ring_items q). feedable t \<Longrightarrow> parser_good pc (st\<lparr>tp_input := q\<rparr>)"
  "parser_good pc st \<Longrightarrow> ring_ok q \<Longrightarrow> suffix (ring_items q) (ring_items (tp_output st)) \<Longrightarrow> parser_good pc (st\<lparr>tp_output := q\<rparr>)"
  by (auto simp: parser_good_def dest: set_mono_suffix)

lemma norm_good_input:
  assumes "norm_good pc nz" "emits (nz_input nz) c q c'"
  shows "norm_good pc (nz\<lparr>nz_input := q\<rparr>)"
  using assms by (auto simp: norm_good_def norm_inv_def norm_maps_ok_def norm_out_ok_def emits_def bookable_def)

lemma norm_good_output:
  assumes "norm_good pc nz" "ring_ok q" "suffix (ring_items q) (ring_items (nz_output nz))"
  shows "norm_good pc (nz\<lparr>nz_output := q\<rparr>)"
proof -
  have s: "norm_out_ok nz (ring_items q)" using norm_out_suffix assms by (auto simp: norm_good_def norm_inv_def)
  have h: "norm_out_ok nz (ring_items q @ [t])" if "pc = Pushing t" for t
    by (rule norm_out_suffix [of _ "ring_items (nz_output nz) @ [t]"]) (use that assms in \<open>auto simp: norm_good_def\<close>)
  have "norm_out_ok (nz\<lparr>nz_output := q\<rparr>) xs = norm_out_ok nz xs" for xs by (simp add: norm_out_ok_def)
  moreover have "set (ring_items q) \<subseteq> set (ring_items (nz_output nz))" using assms(3) by (rule set_mono_suffix)
  ultimately show ?thesis using assms s h by (auto simp: norm_good_def norm_inv_def norm_maps_ok_def)
qed

lemma bp_good_input: "bp_good pc bp \<Longrightarrow> emits (bp_input bp) c q c' \<Longrightarrow> bp_good pc (bp\<lparr>bp_input := q\<rparr>)"
  by (auto simp: bp_good_def bp_inv_def emits_def)

lemma emits_load: "emits q c q' c' \<Longrightarrow> c' + of_nat (in_flight pc q) = c + of_nat (in_flight pc q')"
  by (auto simp: emits_def in_flight_def)

lemma stopping_Finished [simp]: "stopping Finished" "stopping Draining" "\<not> stopping Polling" "\<not> stopping (Pushing t)"
  by (simp_all add: stopping_def)

text \<open>The balance of a stage after one of its steps, and after its producer has added to its input.\<close>

lemma balance_step:
  fixes c :: u64
  assumes "fed = c + l + f" and "c' + k + f' = c + f"
  shows "fed = c' + (l + k) + f'"
proof -
  have "fed = (c + f) + l" using assms(1) by (simp add: ac_simps)
  also have "\<dots> = c' + (l + k) + f'" unfolding assms(2) [symmetric] by (simp add: ac_simps)
  finally show ?thesis .
qed

lemma balance_input:
  fixes c :: u64
  assumes "p = c + f" and "p' + f = p + f'"
  shows "p' = c + f'"
proof -
  have "p' + f = (c + f') + f" using assms by (simp add: ac_simps)
  then show ?thesis by (rule add_right_imp_eq)
qed

lemma pipe_invD: "pipe_inv s \<Longrightarrow> pipe_good s" "pipe_inv s \<Longrightarrow> pipe_control s" "pipe_inv s \<Longrightarrow> pipe_drained s"
  "pipe_inv s \<Longrightarrow> pipe_counts s"
  by (simp_all add: pipe_inv_def)

lemma pipe_goodD: "pipe_inv s \<Longrightarrow> parser_good (pl_parser_pc s) (parser_view s)" "pipe_inv s \<Longrightarrow> norm_good (pl_norm_pc s) (norm_view s)"
  "pipe_inv s \<Longrightarrow> bp_good (pl_book_pc s) (book_view s)"
  by (simp_all add: pipe_inv_def pipe_good_def)

subsection \<open>Every step keeps it\<close>

lemma feed_push_inv:
  assumes inv: "pipe_inv s" and t: "feedable t"
  shows "\<exists>s'. pipe_step (FeedPush t) s = Value s' \<and> pipe_inv s'"
proof (cases "pl_feed_done s")
  case False
  have pc: "pl_parser_pc s \<noteq> Finished" using pipe_invD(2) [OF inv] False by (auto simp: pipe_control_def)
  note g = pipe_goodD(1) [OF inv]
  then have ok: "ring_ok (q1 s)" "\<forall>x \<in> set (ring_items (q1 s)). feedable x" by (auto simp: parser_good_def)
  from rb.push_result [OF ok(1), of t] obtain b q where p: "try_push (q1 s) t = (b, q)" "ring_ok q"
    "ring_items q = ring_items (q1 s) @ (if b then [t] else [])" by metis
  define s' where "s' = s\<lparr>q1 := q, pl_fed := pl_fed s + (if b then 1 else 0)\<rparr>"
  have v: "parser_view s' = (parser_view s)\<lparr>tp_input := q\<rparr>" "norm_view s' = norm_view s" "book_view s' = book_view s"
    by (simp_all add: s'_def parser_view_def norm_view_def book_view_def)
  have "parser_good (pl_parser_pc s) ((parser_view s)\<lparr>tp_input := q\<rparr>)"
    using parser_good_rings(1) [OF g p(2)] ok(2) t p(3) by auto
  then have "pipe_good s'" using pipe_invD(1) [OF inv] unfolding pipe_good_def v by (simp add: s'_def)
  moreover have "pipe_control s'" using pipe_invD(2) [OF inv] by (simp add: pipe_control_def s'_def)
  moreover have "pipe_drained s'" using pipe_invD(3) [OF inv] pc by (simp add: pipe_drained_def s'_def)
  moreover have "pipe_counts s'" using pipe_invD(4) [OF inv] p(3) by (auto simp: pipe_counts_def s'_def in_flight_def)
  ultimately show ?thesis using False p(1) by (simp add: s'_def pipe_inv_def)
qed (use inv in simp)

lemma parser_step_inv:
  assumes inv: "pipe_inv s"
  shows "\<exists>s'. pipe_step ParserStep s = Value s' \<and> pipe_inv s'"
proof -
  note g = pipe_goodD [OF inv] and I = pipe_invD [OF inv]
  obtain pc st k where m: "parser_micro (2 \<le> pl_ctl s) (pl_parser_pc s) (parser_view s) = Value (pc, st, k)" "parser_good pc st"
    and f: "flow_ok (2 \<le> pl_ctl s) (pl_parser_pc s) (q1 s) (parser_counted (pl_parser s)) k pc (tp_input st) (parser_counted st)"
    by (rule parser_flow.micro_cases [OF g(1), of "2 \<le> pl_ctl s", unfolded view_fields])
  have e: "emits (q2 s) (tp_processed (pl_parser s)) (tp_output st) (tp_processed st)"
    using parser_flow.micro_out [OF g(1) m(1)] by simp
  have fin: "tp_output st = q2 s" if "pl_parser_pc s = Finished" using m(1) that by auto
  define s' where "s' = s\<lparr>q1 := tp_input st, q2 := tp_output st, pl_parser_pc := pc, pl_parser := st, pl_parser_lost := pl_parser_lost s + k\<rparr>"
  have v: "parser_view s' = st" "norm_view s' = (norm_view s)\<lparr>nz_input := tp_output st\<rparr>" "book_view s' = book_view s"
    by (simp_all add: s'_def parser_view_def norm_view_def book_view_def)
  have "norm_good (pl_norm_pc s) ((norm_view s)\<lparr>nz_input := tp_output st\<rparr>)"
    using norm_good_input [OF g(2)] e by simp
  then have "pipe_good s'" using m(2) g(3) unfolding pipe_good_def v by (simp add: s'_def)
  moreover have "pipe_control s'" using I(2) flow_control [OF f] by (auto simp: pipe_control_def s'_def)
  moreover have "pipe_drained s'" using I(2,3) flow_control [OF f] fin by (auto simp: pipe_control_def pipe_drained_def s'_def)
  moreover have "pipe_counts s'"
  proof -
    have F: "pl_fed s' = pl_fed s" "pl_parser s' = st" "pl_parser_lost s' = pl_parser_lost s + k" "pl_parser_pc s' = pc"
      "q1 s' = tp_input st" "q2 s' = tp_output st" "q3 s' = q3 s" "pl_norm s' = pl_norm s" "pl_norm_lost s' = pl_norm_lost s"
      "pl_norm_pc s' = pl_norm_pc s" "pl_book s' = pl_book s" "pl_book_pc s' = pl_book_pc s"
      by (simp_all add: s'_def)
    note I = I(4) [unfolded pipe_counts_def]
    show ?thesis unfolding pipe_counts_def F of_nat_add
      using balance_step [OF conjunct1 [OF I] flow_balance [OF f]] balance_input [OF conjunct1 [OF conjunct2 [OF I]] emits_load [OF e]]
        conjunct2 [OF conjunct2 [OF I]] by blast
  qed
  ultimately show ?thesis using m(1) by (simp add: s'_def pipe_inv_def)
qed

lemma norm_step_inv:
  assumes inv: "pipe_inv s"
  shows "\<exists>s'. pipe_step NormStep s = Value s' \<and> pipe_inv s'"
proof -
  note g = pipe_goodD [OF inv] and I = pipe_invD [OF inv]
  obtain pc nz k where m: "norm_micro (3 \<le> pl_ctl s) (pl_norm_pc s) (norm_view s) = Value (pc, nz, k)" "norm_good pc nz"
    and f: "flow_ok (3 \<le> pl_ctl s) (pl_norm_pc s) (q2 s) (norm_counted (pl_norm s)) k pc (nz_input nz) (norm_counted nz)"
    and ok: "ring_ok (nz_input nz)"
    by (rule norm_flow.micro_cases [OF g(2), of "3 \<le> pl_ctl s", unfolded view_fields])
  have e: "emits (q3 s) (ticks_forwarded (nz_stats (pl_norm s))) (nz_output nz) (ticks_forwarded (nz_stats nz))"
    using norm_flow.micro_out [OF g(2) m(1)] by simp
  have fin: "nz_output nz = q3 s" if "pl_norm_pc s = Finished" using m(1) that by auto
  define s' where "s' = s\<lparr>q2 := nz_input nz, q3 := nz_output nz, pl_norm_pc := pc, pl_norm := nz, pl_norm_lost := pl_norm_lost s + k\<rparr>"
  have v: "parser_view s' = (parser_view s)\<lparr>tp_output := nz_input nz\<rparr>" "norm_view s' = nz" "book_view s' = (book_view s)\<lparr>bp_input := nz_output nz\<rparr>"
    by (simp_all add: s'_def parser_view_def norm_view_def book_view_def)
  have "parser_good (pl_parser_pc s) ((parser_view s)\<lparr>tp_output := nz_input nz\<rparr>)"
    using parser_good_rings(2) [OF g(1) ok] flow_control(4) [OF f] by simp
  moreover have "bp_good (pl_book_pc s) ((book_view s)\<lparr>bp_input := nz_output nz\<rparr>)" using bp_good_input [OF g(3)] e by simp
  ultimately have "pipe_good s'" using m(2) unfolding pipe_good_def v by (simp add: s'_def)
  moreover have "pipe_control s'" using I(2) flow_control [OF f] by (auto simp: pipe_control_def s'_def)
  moreover have "pipe_drained s'" using I(2,3) flow_control [OF f] fin by (auto simp: pipe_control_def pipe_drained_def s'_def)
  moreover have "pipe_counts s'"
  proof -
    have F: "pl_fed s' = pl_fed s" "pl_parser s' = pl_parser s" "pl_parser_lost s' = pl_parser_lost s" "pl_parser_pc s' = pl_parser_pc s"
      "q1 s' = q1 s" "q2 s' = nz_input nz" "q3 s' = nz_output nz" "pl_norm s' = nz" "pl_norm_lost s' = pl_norm_lost s + k"
      "pl_norm_pc s' = pc" "pl_book s' = pl_book s" "pl_book_pc s' = pl_book_pc s"
      by (simp_all add: s'_def)
    note I = I(4) [unfolded pipe_counts_def]
    show ?thesis unfolding pipe_counts_def F of_nat_add
      using balance_step [OF conjunct1 [OF conjunct2 [OF I]] flow_balance [OF f]]
        balance_input [OF conjunct2 [OF conjunct2 [OF I]] emits_load [OF e]] conjunct1 [OF I] by blast
  qed
  ultimately show ?thesis using m(1) by (simp add: s'_def pipe_inv_def)
qed

lemma book_step_inv:
  assumes inv: "pipe_inv s"
  shows "\<exists>s'. pipe_step BookStep s = Value s' \<and> pipe_inv s'"
proof -
  note g = pipe_goodD [OF inv] and I = pipe_invD [OF inv]
  obtain pc bp k where m: "book_micro (4 \<le> pl_ctl s) (pl_book_pc s) (book_view s) = Value (pc, bp, k)" "bp_good pc bp"
    and f: "flow_ok (4 \<le> pl_ctl s) (pl_book_pc s) (q3 s) (bp_ticks_processed (pl_book s)) k pc (bp_input bp) (bp_ticks_processed bp)"
    and ok: "ring_ok (bp_input bp)"
    by (rule book_flow.micro_cases [OF g(3), of "4 \<le> pl_ctl s", unfolded view_fields])
  have k: "k = 0" using book_micro_lossless [OF m(1)] .
  define s' where "s' = s\<lparr>q3 := bp_input bp, pl_book_pc := pc, pl_book := bp\<rparr>"
  have v: "parser_view s' = parser_view s" "norm_view s' = (norm_view s)\<lparr>nz_output := bp_input bp\<rparr>" "book_view s' = bp"
    by (simp_all add: s'_def parser_view_def norm_view_def book_view_def)
  have "norm_good (pl_norm_pc s) ((norm_view s)\<lparr>nz_output := bp_input bp\<rparr>)"
    using norm_good_output [OF g(2) ok] flow_control(4) [OF f] by simp
  then have "pipe_good s'" using m(2) g(1) unfolding pipe_good_def v by (simp add: s'_def)
  moreover have "pipe_control s'" using I(2) flow_control [OF f] by (auto simp: pipe_control_def s'_def)
  moreover have "pipe_drained s'" using I(2,3) flow_control [OF f] by (auto simp: pipe_control_def pipe_drained_def s'_def)
  moreover have "pipe_counts s'"
  proof -
    have F: "pl_fed s' = pl_fed s" "pl_parser s' = pl_parser s" "pl_parser_lost s' = pl_parser_lost s" "pl_parser_pc s' = pl_parser_pc s"
      "q1 s' = q1 s" "q2 s' = q2 s" "q3 s' = bp_input bp" "pl_norm s' = pl_norm s" "pl_norm_lost s' = pl_norm_lost s"
      "pl_norm_pc s' = pl_norm_pc s" "pl_book s' = bp" "pl_book_pc s' = pc"
      by (simp_all add: s'_def)
    note I = I(4) [unfolded pipe_counts_def]
    have "bp_ticks_processed bp + of_nat (in_flight pc (bp_input bp)) = bp_ticks_processed (pl_book s) + of_nat (in_flight (pl_book_pc s) (q3 s))"
      using flow_balance [OF f] by (simp add: k)
    then show ?thesis unfolding pipe_counts_def F using I by metis
  qed
  ultimately show ?thesis using m(1) by (simp add: s'_def pipe_inv_def)
qed

text \<open>Steps that leave the rings, the positions and the counters alone.\<close>

lemma pipe_inv_same:
  assumes inv: "pipe_inv s" and "pipe_control s'" and "bp_good (pl_book_pc s) (book_view s')"
    and v: "parser_view s' = parser_view s" "norm_view s' = norm_view s"
    and F: "q1 s' = q1 s" "q2 s' = q2 s" "q3 s' = q3 s" "pl_fed s' = pl_fed s" "pl_parser_lost s' = pl_parser_lost s"
      "pl_norm_lost s' = pl_norm_lost s" "pl_parser_pc s' = pl_parser_pc s" "pl_norm_pc s' = pl_norm_pc s"
      "pl_book_pc s' = pl_book_pc s" "pl_parser s' = pl_parser s" "pl_norm s' = pl_norm s"
      "bp_ticks_processed (pl_book s') = bp_ticks_processed (pl_book s)"
  shows "pipe_inv s'"
  using pipe_invD [OF inv] assms(2,3) unfolding pipe_inv_def pipe_good_def pipe_drained_def pipe_counts_def v F by blast

lemma main_step_inv: assumes "pipe_inv s" shows "pipe_inv (main_step s)"
proof (rule pipe_inv_same [OF assms])
  show "pipe_control (main_step s)" using pipe_invD(2) [OF assms] by (auto simp: pipe_control_def main_step_def)
  show "bp_good (pl_book_pc s) (book_view (main_step s))"
    using pipe_goodD(3) [OF assms] by (auto simp: main_step_def book_view_def)
qed (simp_all add: main_step_def parser_view_def norm_view_def)

lemma feed_exit_inv: assumes "pipe_inv s" "1 \<le> pl_ctl s" shows "pipe_inv (s\<lparr>pl_feed_done := True\<rparr>)"
proof (rule pipe_inv_same [OF assms(1)])
  show "pipe_control (s\<lparr>pl_feed_done := True\<rparr>)" using pipe_invD(2) [OF assms(1)] assms(2) by (simp add: pipe_control_def)
  show "bp_good (pl_book_pc s) (book_view (s\<lparr>pl_feed_done := True\<rparr>))"
    using pipe_goodD(3) [OF assms(1)] by (simp add: book_view_def)
qed (simp_all add: parser_view_def norm_view_def)

lemma take_inv:
  assumes "pipe_inv s" and "queue_ok d" "queue_ok g"
  shows "pipe_inv (s\<lparr>pl_book := (pl_book s)\<lparr>db_queue := d, signal_queue := g\<rparr>\<rparr>)"
proof (rule pipe_inv_same [OF assms(1)])
  let ?s = "s\<lparr>pl_book := (pl_book s)\<lparr>db_queue := d, signal_queue := g\<rparr>\<rparr>"
  show "pipe_control ?s" using pipe_invD(2) [OF assms(1)] by (simp add: pipe_control_def)
  show "bp_good (pl_book_pc s) (book_view ?s)"
    using pipe_goodD(3) [OF assms(1)] assms(2,3) by (simp add: book_view_def bp_good_def bp_inv_def)
qed (simp_all add: parser_view_def norm_view_def)

lemma pipe_step_inv:
  assumes inv: "pipe_inv s" and ok: "\<And>t. a = FeedPush t \<Longrightarrow> feedable t"
  shows "\<exists>s'. pipe_step a s = Value s' \<and> pipe_inv s'"
proof -
  have q: "queue_ok (db_queue (pl_book s))" "queue_ok (signal_queue (pl_book s))"
    using pipe_goodD(3) [OF inv] by (auto simp: bp_good_def bp_inv_def book_view_def)
  show ?thesis
  proof (cases a)
    case DbTake
    have "(pl_book s)\<lparr>db_queue := d\<rparr> = (pl_book s)\<lparr>db_queue := d, signal_queue := signal_queue (pl_book s)\<rparr>" for d by simp
    then show ?thesis using DbTake take_inv [OF inv env_pop_queue_ok [OF q(1)] q(2), of 1] by simp
  next
    case SignalTake
    have "(pl_book s)\<lparr>signal_queue := g\<rparr> = (pl_book s)\<lparr>db_queue := db_queue (pl_book s), signal_queue := g\<rparr>" for g by simp
    then show ?thesis using SignalTake take_inv [OF inv q(1) env_pop_queue_ok [OF q(2)], of 1] by simp
  qed (use inv ok feed_push_inv feed_exit_inv parser_step_inv norm_step_inv book_step_inv main_step_inv in auto)
qed

lemma pipe_run_inv:
  "pipe_inv s \<Longrightarrow> \<forall>t. FeedPush t \<in> set as \<longrightarrow> feedable t \<Longrightarrow> \<exists>s'. pipe_run as s = Value s' \<and> pipe_inv s'"
proof (induction as arbitrary: s)
  case (Cons a as)
  obtain s1 where s1: "pipe_step a s = Value s1" "pipe_inv s1" using pipe_step_inv [OF Cons.prems(1), of a] Cons.prems(2) by auto
  then show ?case using Cons.IH [OF s1(2)] Cons.prems(2) by auto
qed simp

lemma pipe_run_append: "pipe_run (as @ bs) s = cpp_bind (pipe_run as s) (pipe_run bs)"
proof (induction as arbitrary: s)
  case (Cons a as)
  show ?case by (cases "pipe_step a s") (simp_all add: Cons.IH)
qed simp

section \<open>The service\<close>

text \<open>
  The pipeline as \<open>main\<close> builds it, with rings of any power-of-two size, and the parts of a fresh stage. The two snapshot
  queues are optional: the service has both, the health check none.
\<close>

definition new_parser :: "MarketTick ring \<Rightarrow> MarketTick ring \<Rightarrow> TickParser" where
  "new_parser inq outq = \<lparr>tp_input = inq, tp_output = outq, tp_processed = 0, tp_rejected = 0\<rparr>"

definition new_normalizer :: "MarketTick ring \<Rightarrow> MarketTick ring \<Rightarrow> Normalizer" where
  "new_normalizer inq outq = \<lparr>nz_input = inq, nz_output = outq, last_timestamp = [], last_tick = [],
     nz_stats = \<lparr>ticks_forwarded = 0, ticks_deduplicated = 0, ticks_reordered = 0\<rparr>\<rparr>"

definition new_pipe :: "MarketTick ring \<Rightarrow> MarketTick ring \<Rightarrow> MarketTick ring \<Rightarrow> MarketSnapshot ring option \<Rightarrow> MarketSnapshot ring option \<Rightarrow> pipe" where
  "new_pipe sim_to_parser parser_to_norm norm_to_book db sig =
     \<lparr>q1 = sim_to_parser, q2 = parser_to_norm, q3 = norm_to_book, pl_ctl = 0, pl_feed_done = False,
      pl_parser_pc = Polling, pl_parser = new_parser sim_to_parser parser_to_norm,
      pl_norm_pc = Polling, pl_norm = new_normalizer parser_to_norm norm_to_book,
      pl_book_pc = Polling, pl_book = new_book_processor norm_to_book db sig,
      pl_fed = 0, pl_parser_lost = 0, pl_norm_lost = 0\<rparr>"

text \<open>The two wirings of the repository: the service with both snapshot queues, and the health check without.\<close>

definition service_pipe :: pipe where
  "service_pipe = new_pipe (new_ring 16384 zero_tick) (new_ring 4096 zero_tick) (new_ring 4096 zero_tick)
     (Some (new_ring 4096 zero_snapshot)) (Some (new_ring 4096 zero_snapshot))"

definition health_pipe :: pipe where
  "health_pipe = new_pipe (new_ring 16384 zero_tick) (new_ring 4096 zero_tick) (new_ring 4096 zero_tick) None None"

lemma new_pipe_inv:
  assumes "ring_ok r1" "ring_ok r2" "ring_ok r3" "queue_ok d" "queue_ok g" "ring_items r1 = []" "ring_items r2 = []" "ring_items r3 = []"
  shows "pipe_inv (new_pipe r1 r2 r3 d g)"
  using assms
  by (simp add: pipe_defs new_pipe_def new_parser_def new_normalizer_def new_book_processor_def parser_view_def norm_view_def book_view_def
      parser_good_def norm_good_def bp_good_def norm_inv_def norm_maps_ok_def norm_out_ok_def bp_inv_def queue_ok_def in_flight_def um_wf_def)

lemma wirings_inv: "pipe_inv service_pipe" "pipe_inv health_pipe"
proof -
  have "ring_ok (new_ring 16384 d)" "ring_ok (new_ring 4096 d)" "ring_ok (new_ring 4096 e)"
    for d :: MarketTick and e :: MarketSnapshot
    using ring_new_ok [of 14 d] ring_new_ok [of 12 d] ring_new_ok [of 12 e] by simp_all
  then show "pipe_inv service_pipe" "pipe_inv health_pipe"
    unfolding service_pipe_def health_pipe_def by (intro new_pipe_inv; simp add: queue_ok_def)+
qed

subsection \<open>Shutdown\<close>

text \<open>A schedule that brings the shutdown to its end: the stage that \<open>main\<close> waits for takes a step, and \<open>main\<close> goes on when it has ended.\<close>

definition shutdown_act :: "pipe \<Rightarrow> act" where
  "shutdown_act s =
     (if pl_ctl s = 1 \<and> \<not> pl_feed_done s then FeedExit
      else if pl_ctl s = 2 \<and> pl_parser_pc s \<noteq> Finished then ParserStep
      else if pl_ctl s = 3 \<and> pl_norm_pc s \<noteq> Finished then NormStep
      else if pl_ctl s = 4 \<and> pl_book_pc s \<noteq> Finished then BookStep
      else MainStep)"

definition shutdown_work :: "pipe \<Rightarrow> nat" where
  "shutdown_work s =
     (if pl_ctl s = 1 then (if pl_feed_done s then 0 else 1)
      else if pl_ctl s = 2 then stop_work (pl_parser_pc s) (q1 s)
      else if pl_ctl s = 3 then stop_work (pl_norm_pc s) (q2 s)
      else stop_work (pl_book_pc s) (q3 s))"

lemma stage_work:
  assumes inv: "pipe_inv s"
  shows "2 \<le> pl_ctl s \<Longrightarrow> pl_parser_pc s \<noteq> Finished \<Longrightarrow> \<exists>s'. pipe_step ParserStep s = Value s' \<and> pl_ctl s' = pl_ctl s \<and>
      stop_work (pl_parser_pc s') (q1 s') < stop_work (pl_parser_pc s) (q1 s)"
    and "3 \<le> pl_ctl s \<Longrightarrow> pl_norm_pc s \<noteq> Finished \<Longrightarrow> \<exists>s'. pipe_step NormStep s = Value s' \<and> pl_ctl s' = pl_ctl s \<and>
      stop_work (pl_norm_pc s') (q2 s') < stop_work (pl_norm_pc s) (q2 s)"
    and "4 \<le> pl_ctl s \<Longrightarrow> pl_book_pc s \<noteq> Finished \<Longrightarrow> \<exists>s'. pipe_step BookStep s = Value s' \<and> pl_ctl s' = pl_ctl s \<and>
      stop_work (pl_book_pc s') (q3 s') < stop_work (pl_book_pc s) (q3 s)"
proof -
  note g = pipe_goodD [OF inv]
  show "\<exists>s'. pipe_step ParserStep s = Value s' \<and> pl_ctl s' = pl_ctl s \<and> stop_work (pl_parser_pc s') (q1 s') < stop_work (pl_parser_pc s) (q1 s)"
    if "2 \<le> pl_ctl s" "pl_parser_pc s \<noteq> Finished"
    by (rule parser_flow.micro_cases [OF g(1), of "2 \<le> pl_ctl s"]) (use that in \<open>auto dest: flow_work\<close>)
  show "\<exists>s'. pipe_step NormStep s = Value s' \<and> pl_ctl s' = pl_ctl s \<and> stop_work (pl_norm_pc s') (q2 s') < stop_work (pl_norm_pc s) (q2 s)"
    if "3 \<le> pl_ctl s" "pl_norm_pc s \<noteq> Finished"
    by (rule norm_flow.micro_cases [OF g(2), of "3 \<le> pl_ctl s"]) (use that in \<open>auto dest: flow_work\<close>)
  show "\<exists>s'. pipe_step BookStep s = Value s' \<and> pl_ctl s' = pl_ctl s \<and> stop_work (pl_book_pc s') (q3 s') < stop_work (pl_book_pc s) (q3 s)"
    if "4 \<le> pl_ctl s" "pl_book_pc s \<noteq> Finished"
    by (rule book_flow.micro_cases [OF g(3), of "4 \<le> pl_ctl s"]) (use that in \<open>auto dest: flow_work\<close>)
qed

lemma shutdown_progress:
  assumes inv: "pipe_inv s" and "pl_ctl s < 5"
  obtains s' where "pipe_step (shutdown_act s) s = Value s'"
    "(s', s) \<in> measures [\<lambda>s. 5 - pl_ctl s, shutdown_work]"
proof -
  have "shutdown_act s = FeedExit \<and> pl_ctl s = 1 \<and> \<not> pl_feed_done s \<or> shutdown_act s = ParserStep \<and> pl_ctl s = 2 \<and> pl_parser_pc s \<noteq> Finished \<or>
      shutdown_act s = NormStep \<and> pl_ctl s = 3 \<and> pl_norm_pc s \<noteq> Finished \<or> shutdown_act s = BookStep \<and> pl_ctl s = 4 \<and> pl_book_pc s \<noteq> Finished \<or>
      shutdown_act s = MainStep \<and> pl_ctl s < pl_ctl (main_step s)"
    using assms(2) by (auto simp: shutdown_act_def main_step_def)
  then consider "shutdown_act s = FeedExit" "pl_ctl s = 1" "\<not> pl_feed_done s" | "shutdown_act s = ParserStep" "pl_ctl s = 2" "pl_parser_pc s \<noteq> Finished"
    | "shutdown_act s = NormStep" "pl_ctl s = 3" "pl_norm_pc s \<noteq> Finished" | "shutdown_act s = BookStep" "pl_ctl s = 4" "pl_book_pc s \<noteq> Finished"
    | "shutdown_act s = MainStep" "pl_ctl s < pl_ctl (main_step s)" by blast
  then have "\<exists>s'. pipe_step (shutdown_act s) s = Value s' \<and> (s', s) \<in> measures [\<lambda>s. 5 - pl_ctl s, shutdown_work]"
  proof cases
    case 2 then show ?thesis using stage_work(1) [OF inv] by (auto simp: shutdown_work_def simp del: pipe_step.simps)
  next
    case 3 then show ?thesis using stage_work(2) [OF inv] by (auto simp: shutdown_work_def simp del: pipe_step.simps)
  next
    case 4
    then obtain s' where "pipe_step BookStep s = Value s'" "pl_ctl s' = 4"
      "stop_work (pl_book_pc s') (q3 s') < stop_work (pl_book_pc s) (q3 s)" using stage_work(3) [OF inv] by auto
    then show ?thesis using 4 by (intro exI [of _ s']) (simp add: shutdown_work_def del: pipe_step.simps)
  next
    case 5 then show ?thesis using assms(2) by (auto intro: diff_less_mono2)
  qed (simp add: shutdown_work_def)
  then show thesis using that by blast
qed

lemma shutdown_reaches_end:
  assumes "pipe_inv s"
  shows "\<exists>as s'. (\<forall>t. FeedPush t \<notin> set as) \<and> pipe_run as s = Value s' \<and> pl_ctl s' = 5"
  using assms
proof (induction s rule: wf_induct_rule [OF wf_measures [of "[\<lambda>s. 5 - pl_ctl s, shutdown_work]"]])
  case (1 s)
  show ?case
  proof (cases "pl_ctl s < 5")
    case True
    obtain s1 where s1: "pipe_step (shutdown_act s) s = Value s1" "(s1, s) \<in> measures [\<lambda>s. 5 - pl_ctl s, shutdown_work]"
      using shutdown_progress [OF "1.prems" True] .
    have nf: "shutdown_act s \<noteq> FeedPush t" for t by (simp add: shutdown_act_def)
    then have "pipe_inv s1" using pipe_step_inv [OF "1.prems", of "shutdown_act s"] s1(1) by auto
    from "1.IH" [OF s1(2) this] obtain as s' where "\<forall>t. FeedPush t \<notin> set as" "pipe_run as s1 = Value s'" "pl_ctl s' = 5" by blast
    then show ?thesis using s1(1) nf by (intro exI [of _ "shutdown_act s # as"] exI [of _ s']) (auto dest: sym)
  next
    case False
    then have "pl_ctl s = 5" using pipe_invD(2) [OF "1.prems"] by (simp add: pipe_control_def)
    then show ?thesis by (intro exI [of _ "[]"] exI [of _ s]) simp
  qed
qed

text \<open>When all threads have ended, nothing is in flight and the balances are exact.\<close>

lemma stopped_counts:
  assumes inv: "pipe_inv s" and "pl_ctl s = 5"
  shows "of_nat (pl_fed s) = tp_processed (pl_parser s) + tp_rejected (pl_parser s) + of_nat (pl_parser_lost s)"
    and "tp_processed (pl_parser s) = norm_counted (pl_norm s) + of_nat (pl_norm_lost s)"
    and "ticks_forwarded (nz_stats (pl_norm s)) = bp_ticks_processed (pl_book s)"
    and "ring_items (q1 s) = []" and "ring_items (q2 s) = []" and "ring_items (q3 s) = []"
proof -
  have pcs: "pl_parser_pc s = Finished" "pl_norm_pc s = Finished" "pl_book_pc s = Finished"
    using pipe_invD(2) [OF inv] assms(2) by (auto simp: pipe_control_def)
  have e: "ring_items (q1 s) = []" "ring_items (q2 s) = []" "ring_items (q3 s) = []"
    using pipe_invD(3) [OF inv] pcs by (auto simp: pipe_drained_def)
  have z: "in_flight Finished q = 0" if "ring_items q = []" for q using that by (simp add: in_flight_def)
  have "of_nat 0 = (0 :: u64)" by simp
  note c = pipe_invD(4) [OF inv, unfolded pipe_counts_def pcs z [OF e(1)] z [OF e(2)] z [OF e(3)] this add_0_right]
  show "of_nat (pl_fed s) = tp_processed (pl_parser s) + tp_rejected (pl_parser s) + of_nat (pl_parser_lost s)"
    "tp_processed (pl_parser s) = norm_counted (pl_norm s) + of_nat (pl_norm_lost s)"
    "ticks_forwarded (nz_stats (pl_norm s)) = bp_ticks_processed (pl_book s)" using c by blast+
  show "ring_items (q1 s) = []" "ring_items (q2 s) = []" "ring_items (q3 s) = []" by (fact e)+
qed

section \<open>Properties\<close>

definition demo_pipe :: pipe where
  "demo_pipe = new_pipe (filled_ring 2 zero_tick []) (filled_ring 1 zero_tick []) (filled_ring 1 zero_tick [])
     (Some (filled_ring 1 zero_snapshot [])) (Some (filled_ring 1 zero_snapshot []))"

definition demo_acts :: "act list" where
  "demo_acts = [FeedPush (demo_btc 100 5), ParserStep, FeedPush (demo_btc 101 6), MainStep, ParserStep, NormStep, BookStep, DbTake]"

lemma demo_acts_ok: "\<forall>t. FeedPush t \<in> set demo_acts \<longrightarrow> feedable t"
  using demo_btc_bookable bookable_feedable by (auto simp: demo_acts_def)

lemma demo_pipe_inv: "pipe_inv demo_pipe"
  unfolding demo_pipe_def by (rule new_pipe_inv) (simp_all add: queue_ok_def)

text \<open>
  C4. The running pipeline: with fresh stages and rings of any size, in every interleaving of the feed, the parser,
  the normalizer, the book processor, the consumers of the snapshots and the main thread, no
  thread has undefined behaviour; every book is sorted, uncrossed and filed under its symbol, and the
  ticks waiting for the book are in timestamp order per symbol. No tick is unaccounted for: every tick the feed
  has queued was counted by the parser as processed or rejected, is waiting, in hand, or was
  lost at the stop, and the same holds for the normalizer and the book with what the stage
  before has passed on.
\<close>

theorem pipeline_safe:
  assumes "ring_ok r1" "ring_ok r2" "ring_ok r3" "queue_ok d" "queue_ok g" "ring_items r1 = []" "ring_items r2 = []" "ring_items r3 = []"
    and "\<forall>t. FeedPush t \<in> set acts \<longrightarrow> feedable t"
  shows "\<exists>s. pipe_run acts (new_pipe r1 r2 r3 d g) = Value s \<and>
     (\<forall>k b. book (pl_book s) k = Some b \<longrightarrow> book_ok b \<and> book_prices pos_price b \<and> book_symbol b = k) \<and>
     sorted_wrt in_order (ring_items (q3 s)) \<and>
     of_nat (pl_fed s) = tp_processed (pl_parser s) + tp_rejected (pl_parser s) + of_nat (pl_parser_lost s) +
       of_nat (in_flight (pl_parser_pc s) (q1 s)) \<and>
     tp_processed (pl_parser s) = norm_counted (pl_norm s) + of_nat (pl_norm_lost s) + of_nat (in_flight (pl_norm_pc s) (q2 s)) \<and>
     ticks_forwarded (nz_stats (pl_norm s)) = bp_ticks_processed (pl_book s) + of_nat (in_flight (pl_book_pc s) (q3 s))"
proof -
  obtain s where s: "pipe_run acts (new_pipe r1 r2 r3 d g) = Value s" "pipe_inv s"
    using pipe_run_inv [OF new_pipe_inv [OF assms(1-8)] assms(9)] by blast
  have b: "\<forall>k b. book (pl_book s) k = Some b \<longrightarrow> book_ok b \<and> book_prices pos_price b \<and> book_symbol b = k"
    using pipe_goodD(3) [OF s(2)]
    by (auto simp: bp_good_def bp_inv_def book_view_def book_def book_good_def book_prices_def good_price_def)
  have "sorted_wrt in_order (ring_items (q3 s))"
    using pipe_goodD(2) [OF s(2)] by (simp add: norm_good_def norm_inv_def norm_out_ok_def)
  then show ?thesis using s(1) b pipe_invD(4) [OF s(2), unfolded pipe_counts_def] by blast
qed

theorem pipeline_safe_witness:
  "\<exists>s. pipe_run demo_acts demo_pipe = Value s \<and> (\<forall>k b. book (pl_book s) k = Some b \<longrightarrow> book_ok b)"
  using pipeline_safe [OF _ _ _ _ _ _ _ _ demo_acts_ok, of "filled_ring 2 zero_tick []" "filled_ring 1 zero_tick []"
      "filled_ring 1 zero_tick []" "Some (filled_ring 1 zero_snapshot [])" "Some (filled_ring 1 zero_snapshot [])"]
  by (simp add: demo_pipe_def queue_ok_def) blast

text \<open>
  The shutdown: because \<open>main\<close> stops the stages in the order of the flow and waits for each, when the last has
  ended the three tick rings are empty. Every tick the feed queued was processed, rejected or lost at the stop
  of the parser; every processed tick was forwarded, deduplicated, dropped as out of order or lost at the stop of the
  normalizer; and every forwarded tick has reached its book.
\<close>

theorem pipeline_shutdown:
  assumes "ring_ok r1" "ring_ok r2" "ring_ok r3" "queue_ok d" "queue_ok g" "ring_items r1 = []" "ring_items r2 = []" "ring_items r3 = []"
    and "\<forall>t. FeedPush t \<in> set acts \<longrightarrow> feedable t"
    and "pipe_run acts (new_pipe r1 r2 r3 d g) = Value s" and "pl_ctl s = 5"
  shows "ring_items (q1 s) = [] \<and> ring_items (q2 s) = [] \<and> ring_items (q3 s) = [] \<and>
     of_nat (pl_fed s) = tp_processed (pl_parser s) + tp_rejected (pl_parser s) + of_nat (pl_parser_lost s) \<and>
     tp_processed (pl_parser s) = norm_counted (pl_norm s) + of_nat (pl_norm_lost s) \<and>
     ticks_forwarded (nz_stats (pl_norm s)) = bp_ticks_processed (pl_book s)"
proof -
  have inv: "pipe_inv s" using pipe_run_inv [OF new_pipe_inv [OF assms(1-8)] assms(9)] assms(10) by auto
  show ?thesis using stopped_counts [OF inv assms(11)] by blast
qed

theorem pipeline_shutdown_witness:
  "\<exists>acts' s. pipe_run (demo_acts @ acts') demo_pipe = Value s \<and> pl_ctl s = 5 \<and> ring_items (q1 s) = [] \<and>
     ring_items (q2 s) = [] \<and> ring_items (q3 s) = []"
proof -
  obtain s1 where s1: "pipe_run demo_acts demo_pipe = Value s1" "pipe_inv s1"
    using pipe_run_inv [OF demo_pipe_inv demo_acts_ok] by blast
  then obtain acts' s where a: "\<forall>t. FeedPush t \<notin> set acts'" "pipe_run acts' s1 = Value s" "pl_ctl s = 5"
    using shutdown_reaches_end by blast
  then have r: "pipe_run (demo_acts @ acts') demo_pipe = Value s" using s1(1) by (simp add: pipe_run_append)
  have "\<forall>t. FeedPush t \<in> set (demo_acts @ acts') \<longrightarrow> feedable t" using a(1) demo_acts_ok by auto
  from pipeline_shutdown [OF _ _ _ _ _ _ _ _ this r [unfolded demo_pipe_def] a(3)] r a(3) show ?thesis by (auto simp: queue_ok_def)
qed

text \<open>
  The shutdown can always complete: from every state the running service can be in, whatever is queued, in hand or
  full, there is a continuation without new ticks in which all four threads end.
\<close>

theorem pipeline_can_stop:
  assumes "ring_ok r1" "ring_ok r2" "ring_ok r3" "queue_ok d" "queue_ok g" "ring_items r1 = []" "ring_items r2 = []" "ring_items r3 = []"
    and "\<forall>t. FeedPush t \<in> set acts \<longrightarrow> feedable t"
  shows "\<exists>acts' s. (\<forall>t. FeedPush t \<notin> set acts') \<and> pipe_run (acts @ acts') (new_pipe r1 r2 r3 d g) = Value s \<and> pl_ctl s = 5"
proof -
  obtain s1 where s1: "pipe_run acts (new_pipe r1 r2 r3 d g) = Value s1" "pipe_inv s1"
    using pipe_run_inv [OF new_pipe_inv [OF assms(1-8)] assms(9)] by blast
  then show ?thesis using shutdown_reaches_end [OF s1(2)] by (auto simp: pipe_run_append)
qed

theorem pipeline_can_stop_witness:
  "\<exists>acts' s. pipe_run (demo_acts @ acts') demo_pipe = Value s \<and> pl_ctl s = 5"
  using pipeline_can_stop [OF _ _ _ _ _ _ _ _ demo_acts_ok, of "filled_ring 2 zero_tick []" "filled_ring 1 zero_tick []"
      "filled_ring 1 zero_tick []" "Some (filled_ring 1 zero_snapshot [])" "Some (filled_ring 1 zero_snapshot [])"]
  by (simp add: demo_pipe_def queue_ok_def) blast

end
