(* ===== verification/SignalEngine.thy ===== *)
theory SignalEngine
  imports OrderBook Stage
begin

text \<open>
  The strategy stage, \<open>strategy/SignalEngine\<close>: keeps an exponential moving average per symbol and
  turns every snapshot into a BUY, SELL or HOLD signal. Logging is left out. The constructor
  computes \<open>period_ + 1\<close> in \<open>int\<close>, which overflows for the largest period.
\<close>

datatype SignalType = HOLD | BUY | SELL

record Signal =
  sg_symbol :: symbol8
  sg_price :: double
  sg_ema_value :: double
  sg_timestamp_ns :: i64
  sg_type :: SignalType

definition symbol_view :: "Signal \<Rightarrow> string" where
  "symbol_view s = takeWhile (\<lambda>c. c \<noteq> NUL) (sg_symbol s)"

definition zero_signal :: Signal where
  "zero_signal = \<lparr>sg_symbol = replicate 8 NUL, sg_price = Fin 0, sg_ema_value = Fin 0, sg_timestamp_ns = 0, sg_type = HOLD\<rparr>"

record SignalEngine =
  se_in :: "MarketSnapshot ring"
  se_out :: "Signal ring"
  se_period :: int
  se_alpha :: double
  ema_map :: "(string, double) umap"

definition new_signal_engine :: "MarketSnapshot ring \<Rightarrow> Signal ring \<Rightarrow> int \<Rightarrow> SignalEngine cpp" where
  "new_signal_engine inq outq period =
     (let p = (if period \<le> 0 then 20 else period)
      in if 2 ^ 31 \<le> p + 1 then Undefined
         else Value \<lparr>se_in = inq, se_out = outq, se_period = p, se_alpha = ddiv (Fin 2) (Fin (of_int (p + 1))), ema_map = []\<rparr>)"

definition ema_step :: "double \<Rightarrow> double \<Rightarrow> double \<Rightarrow> double" where
  "ema_step alpha price ema = dadd (dmul price alpha) (dmul ema (dsub (Fin 1) alpha))"

text \<open>The trading rules, with the literals 0.999 and 1.001.\<close>

definition signal_type :: "double \<Rightarrow> double \<Rightarrow> SignalType" where
  "signal_type price ema =
     (if dlt ema (dmul price (round64 (999 / 1000))) then BUY
      else if dlt (dmul price (round64 (1001 / 1000))) ema then SELL
      else HOLD)"

definition make_signal :: "MarketSnapshot \<Rightarrow> SignalEngine \<Rightarrow> Signal \<times> SignalEngine" where
  "make_signal snap se =
     (let symb = sym_string (ms_symbol snap);
          price = ms_price snap;
          ema = (case um_find (ema_map se) symb of None \<Rightarrow> price | Some e \<Rightarrow> ema_step (se_alpha se) price e)
      in (\<lparr>sg_symbol = ms_symbol snap, sg_price = price, sg_ema_value = ema, sg_timestamp_ns = ms_timestamp_ns snap,
           sg_type = signal_type price ema\<rparr>,
          se\<lparr>ema_map := um_put (ema_map se) symb ema\<rparr>))"

text \<open>The body of the loop of \<open>run\<close>: one snapshot, and the loop that pushes its signal.\<close>

definition signal_body ::
  "MarketSnapshot obs list \<Rightarrow> SignalEngine \<Rightarrow> (SignalEngine \<times> MarketSnapshot obs list) option" where
  "signal_body obs se = (case try_pop (se_in se) of
      (None, _) \<Rightarrow> Some (se, obs)
    | (Some snap, inq) \<Rightarrow>
        (let sig = fst (make_signal snap se); se1 = snd (make_signal snap se)
         in case push_first obs inq (se_out se1) sig of
              None \<Rightarrow> None
            | Some (pushed, inq2, outq2, rest) \<Rightarrow> Some (se1\<lparr>se_in := inq2, se_out := outq2\<rparr>, rest)))"

definition signal_env :: "MarketSnapshot obs \<Rightarrow> SignalEngine \<Rightarrow> SignalEngine" where
  "signal_env ob se = se\<lparr>se_in := env_push (ob_in ob) (se_in se), se_out := env_pop (ob_out ob) (se_out se)\<rparr>"

definition signal_run :: "MarketSnapshot obs list \<Rightarrow> SignalEngine \<Rightarrow> SignalEngine option" where
  "signal_run obs se = map_option fst (stage_loop signal_env signal_body obs se)"

section \<open>The rules\<close>

text \<open>What a signal promises: BUY only below the price, SELL only above it.\<close>

definition sound_signal :: "Signal \<Rightarrow> bool" where
  "sound_signal s \<longleftrightarrow> (sg_type s = BUY \<longrightarrow> dlt (sg_ema_value s) (sg_price s)) \<and>
     (sg_type s = SELL \<longrightarrow> dlt (sg_price s) (sg_ema_value s))"

text \<open>What the engine needs of a snapshot: a price that is not negative and no NaN; 0 and infinity are allowed.\<close>

definition quotable :: "MarketSnapshot \<Rightarrow> bool" where
  "quotable s \<longleftrightarrow> dle (Fin 0) (ms_price s) \<and> is_double (ms_price s)"

lemma margin_below:
  assumes "representable x" "0 \<le> x" shows "dmul (Fin x) (round64 (999 / 1000)) \<le> Fin x" "dmul PInf (round64 (999 / 1000)) = PInf"
proof -
  have "representable (1 / 2 :: rat)"
    using powi2_less_limit [of "-1"] unfolding representable_iff by (intro conjI dyadicI [of _ 1 "-1"]) (simp_all add: power_int_minus)
  then obtain c where c: "round64 (999 / 1000) = Fin c" "1 / 2 \<le> c" "c \<le> 1"
    using ieee.rnd_between [of "1 / 2" 1 "999 / 1000"] by auto
  then have "round64 (x * c) \<le> Fin x" using assms by (intro ieee.rnd_le) (auto simp: mult_left_le)
  then show "dmul (Fin x) (round64 (999 / 1000)) \<le> Fin x" using c by simp
  show "dmul PInf (round64 (999 / 1000)) = PInf" using c by (simp add: inf_sign_def)
qed

lemma margin_above:
  assumes "representable x" "0 \<le> x" shows "Fin x \<le> dmul (Fin x) (round64 (1001 / 1000))" "dmul PInf (round64 (1001 / 1000)) = PInf"
proof -
  obtain c where c: "round64 (1001 / 1000) = Fin c" "1 \<le> c" "c \<le> 2"
    using ieee.rnd_between [of 1 2 "1001 / 1000"] by auto
  then have "Fin x \<le> round64 (x * c)" using assms by (intro ieee.rnd_ge) (auto simp: mult_le_cancel_left1)
  then show "Fin x \<le> dmul (Fin x) (round64 (1001 / 1000))" using c by simp
  show "dmul PInf (round64 (1001 / 1000)) = PInf" using c by (simp add: inf_sign_def)
qed

lemma signal_type_sound:
  assumes "dle (Fin 0) p" "is_double p"
  shows "signal_type p e = BUY \<Longrightarrow> dlt e p" "signal_type p e = SELL \<Longrightarrow> dlt p e"
proof -
  consider x where "p = Fin x" "0 \<le> x" "representable x" | "p = PInf" using assms by (cases p) auto
  then have "(signal_type p e = BUY \<longrightarrow> dlt e p) \<and> (signal_type p e = SELL \<longrightarrow> dlt p e)"
  proof cases
    case 1
    then show ?thesis using margin_below(1) [OF 1(3,2)] margin_above(1) [OF 1(3,2)]
      by (auto simp: signal_type_def dlt_def split: if_splits)
  next
    case 2
    then show ?thesis using margin_below(2) [of 0] margin_above(2) [of 0] by (auto simp: signal_type_def dlt_def split: if_splits)
  qed
  then show "signal_type p e = BUY \<Longrightarrow> dlt e p" "signal_type p e = SELL \<Longrightarrow> dlt p e" by blast+
qed

lemma make_signal_sound: "quotable snap \<Longrightarrow> sound_signal (fst (make_signal snap se))"
  using signal_type_sound [of "ms_price snap"] by (simp add: sound_signal_def make_signal_def Let_def quotable_def)

section \<open>The thread\<close>

definition signal_inv :: "SignalEngine \<Rightarrow> bool" where
  "signal_inv se \<longleftrightarrow> ring_ok (se_in se) \<and> ring_ok (se_out se) \<and> (\<forall>s \<in> set (ring_items (se_in se)). quotable s) \<and>
     (\<forall>s \<in> set (ring_items (se_out se)). sound_signal s)"

lemma signal_body_inv:
  assumes inv: "signal_inv se" and ok: "obs_ok quotable obs" and step: "signal_body obs se = Some (se', rest)"
  shows "signal_inv se'"
proof -
  have "ring_ok (se_in se)" using inv by (simp add: signal_inv_def)
  then show ?thesis
  proof (cases rule: rb.pop_cases)
    case none
    then show ?thesis using step inv by (simp add: signal_body_def)
  next
    case (some snap xs q)
    define sig se1 where "sig = fst (make_signal snap se)" and "se1 = snd (make_signal snap se)"
    have se1: "se_out se1 = se_out se" by (simp add: se1_def make_signal_def Let_def)
    obtain b inq outq where p: "push_first obs q (se_out se) sig = Some (b, inq, outq, rest)"
      "se' = se1\<lparr>se_in := inq, se_out := outq\<rparr>"
      using step some(2) se1 by (auto simp: signal_body_def Let_def sig_def se1_def split: option.splits)
    have q: "quotable snap" "\<forall>s \<in> set (ring_items q). quotable s" "ring_ok (se_out se)"
      using inv some by (auto simp: signal_inv_def)
    obtain n where "ring_items outq = drop n (ring_items (se_out se)) @ (if b then [sig] else [])"
      "ring_ok inq" "ring_ok outq" "\<forall>s \<in> set (ring_items inq). quotable s"
      using push_first_ok [OF some(4) q(3) p(1) ok q(2)] by blast
    then show ?thesis using inv p(2) make_signal_sound [OF q(1), of se]
      by (auto simp: signal_inv_def sig_def dest: in_set_dropD)
  qed
qed

interpretation signal: stage signal_env signal_body signal_inv quotable
proof unfold_locales
  fix se and ob :: "MarketSnapshot obs" assume "signal_inv se" "\<forall>x \<in> set (ob_in ob). quotable x"
  then show "signal_inv (signal_env ob se)"
    using env_push_ok [of "se_in se" "ob_in ob"] env_pop_ok [of "se_out se" "ob_out ob"] env_push_set [of "se_in se" "ob_in ob"]
    by (auto simp: signal_inv_def signal_env_def dest: in_set_dropD)
next
  fix se obs se' rest
  assume "signal_inv se" "obs_ok quotable obs" "signal_body obs se = Some (se', rest)"
  then show "signal_inv se'" by (rule signal_body_inv)
next
  fix obs se se' rest
  assume "signal_body obs se = Some (se', rest)"
  then show "suffix rest obs \<and> stops obs \<le> Suc (stops rest)"
    by (auto simp: signal_body_def Let_def split: prod.splits option.splits dest: push_first_rest)
next
  fix obs :: "MarketSnapshot obs list" and se
  assume "0 < stops obs"
  then show "signal_body obs se \<noteq> None"
    by (auto simp: signal_body_def Let_def push_first_returns split: prod.splits option.splits simp del: not_None_eq)
qed

section \<open>The moving average\<close>

lemma dadd_mono_Fin: "a \<le> a' \<Longrightarrow> b \<le> b' \<Longrightarrow> a \<noteq> NaN \<Longrightarrow> b \<noteq> NaN \<Longrightarrow> Fin 0 \<le> a \<Longrightarrow> Fin 0 \<le> b \<Longrightarrow> dadd a b \<le> dadd a' b'"
  by (cases "(a, b)" rule: dadd.cases; cases "(a', b')" rule: dadd.cases)
    (auto intro!: round64_mono add_mono, (metis less_eq_double.simps double.exhaust round64_not_NaN)+)

lemma alpha_range:
  assumes "new_signal_engine inq outq period = Value se"
  obtains a where "se_alpha se = Fin a" "0 < a" "a \<le> 1"
proof -
  define p where "p = (if period \<le> 0 then 20 else period)"
  have p: "1 \<le> p" "p + 1 < 2 ^ 31" and al: "se_alpha se = round64 (2 / of_int (p + 1))"
    using assms by (auto simp: new_signal_engine_def Let_def p_def split: if_splits)
  have r: "(2::rat) \<le> of_int (p + 1)" "(of_int (p + 1) :: rat) \<le> 2 ^ 31"
    using p by (simp, metis less_imp_le of_int_le_iff of_int_numeral of_int_power)
  have rep: "representable (1 / 2 ^ 30)"
  proof -
    have e: "(1 / 2 ^ 30 :: rat) = of_int 1 * 2 powi (-30)" by (simp add: power_int_minus field_simps)
    have "(1::rat) < double_limit" unfolding double_limit_def by (simp add: one_less_power)
    then show ?thesis unfolding representable_iff using dyadicI [OF e] by (simp add: field_simps)
  qed
  have "1 / 2 ^ 30 \<le> 2 / (of_int (p + 1) :: rat)" "2 / (of_int (p + 1) :: rat) \<le> 1"
    using r by (simp_all add: field_simps)
  then obtain a where "round64 (2 / of_int (p + 1)) = Fin a" "1 / 2 ^ 30 \<le> a" "a \<le> 1"
    using ieee.rnd_between [OF rep, of 1 "2 / of_int (p + 1)"] by auto
  then show ?thesis using that [of a] al by (simp add: order_less_le_trans [of 0 "1 / 2 ^ 30"])
qed

lemma ema_step_mono:
  assumes "0 \<le> a" "a \<le> 1" "0 \<le> x" "x \<le> x'" "0 \<le> e" "e \<le> e'"
  shows "ema_step (Fin a) (Fin x) (Fin e) \<le> ema_step (Fin a) (Fin x') (Fin e')" "Fin 0 \<le> ema_step (Fin a) (Fin x) (Fin e)"
proof -
  obtain c where c: "dsub (Fin 1) (Fin a) = Fin c" "0 \<le> c"
    using ieee.rnd_between [of 0 1 "1 - a"] assms by (auto simp: dsub_def)
  have z: "Fin 0 \<le> round64 (x * a)" "Fin 0 \<le> round64 (e * c)" using assms c by (auto intro!: round64_sign)
  have m: "round64 (x * a) \<le> round64 (x' * a)" "round64 (e * c) \<le> round64 (e' * c)"
    using assms c by (auto intro!: round64_mono mult_right_mono)
  show "ema_step (Fin a) (Fin x) (Fin e) \<le> ema_step (Fin a) (Fin x') (Fin e')"
    using dadd_mono_Fin [OF m _ _ z] by (simp add: ema_step_def c(1))
  have "dadd (Fin 0) (Fin 0) \<le> dadd (round64 (x * a)) (round64 (e * c))" by (rule dadd_mono_Fin [OF z]) simp_all
  then show "Fin 0 \<le> ema_step (Fin a) (Fin x) (Fin e)" by (simp add: ema_step_def c(1))
qed

text \<open>A concrete engine of the default period with one snapshot waiting.\<close>

definition demo_snap :: MarketSnapshot where
  "demo_snap = zero_snapshot\<lparr>ms_symbol := ''BTC'' @ replicate 5 NUL, ms_price := Fin 100, ms_timestamp_ns := 7\<rparr>"

definition demo_engine :: SignalEngine where
  "demo_engine = \<lparr>se_in = filled_ring 1 zero_snapshot [demo_snap], se_out = filled_ring 1 zero_signal [],
     se_period = 20, se_alpha = ddiv (Fin 2) (Fin 21), ema_map = []\<rparr>"

definition demo_snap_schedule :: "MarketSnapshot obs list" where
  "demo_snap_schedule = [\<lparr>ob_stop = False, ob_in = [], ob_out = 0\<rparr>, \<lparr>ob_stop = True, ob_in = [], ob_out = 0\<rparr>,
     \<lparr>ob_stop = True, ob_in = [], ob_out = 0\<rparr>]"

lemma demo_snap_ok: "quotable demo_snap" "signal_inv demo_engine"
  "obs_ok P demo_snap_schedule" "stop_persists demo_snap_schedule" "2 \<le> stops demo_snap_schedule"
  by (simp_all add: quotable_def demo_snap_def signal_inv_def demo_engine_def demo_snap_schedule_def stop_persists_def)

lemma demo_engine_new:
  "new_signal_engine (filled_ring 1 zero_snapshot [demo_snap]) (filled_ring 1 zero_signal []) 0 = Value demo_engine"
  by (simp add: new_signal_engine_def demo_engine_def)

section \<open>Properties\<close>

text \<open>
  \<open>SignalEngine::run\<close> returns once a stop is requested, and every signal it has put into its output
  is sound: BUY is only given while the average is below the price, SELL only while it is
  above, with all rounding of the margins taken into account.
\<close>

theorem signal_run_sound:
  assumes "signal_inv se" and "obs_ok quotable obs" and "stop_persists obs" and "2 \<le> stops obs"
  shows "\<exists>se'. signal_run obs se = Some se' \<and> ring_ok (se_out se') \<and> (\<forall>s \<in> set (ring_items (se_out se')). sound_signal s)"
proof -
  obtain se' rest where l: "stage_loop signal_env signal_body obs se = Some (se', rest)"
    using signal.loop_returns [of obs se] assms(3,4) by auto
  then show ?thesis using signal.loop_inv [OF assms(1,2) l] by (auto simp: signal_run_def signal_inv_def)
qed

theorem signal_run_sound_witness:
  "\<exists>se'. signal_run demo_snap_schedule demo_engine = Some se' \<and> (\<forall>s \<in> set (ring_items (se_out se')). sound_signal s)"
  using signal_run_sound [OF demo_snap_ok(2-5)] by blast

text \<open>
  The signal of one snapshot: it carries the symbol, price and timestamp of the snapshot and the
  average that is stored for the symbol, the averages of other symbols are untouched, the type
  is sound, and the first snapshot of a symbol always gives HOLD with the price as average.
\<close>

theorem signal_of_snapshot:
  assumes "quotable snap"
  shows "let sig = fst (make_signal snap se); se' = snd (make_signal snap se); symb = sym_string (ms_symbol snap)
    in sg_symbol sig = ms_symbol snap \<and> sg_price sig = ms_price snap \<and> sg_timestamp_ns sig = ms_timestamp_ns snap \<and>
       (\<forall>k. um_find (ema_map se') k = (if k = symb then Some (sg_ema_value sig) else um_find (ema_map se) k)) \<and>
       sound_signal sig \<and>
       (um_find (ema_map se) symb = None \<longrightarrow> sg_type sig = HOLD \<and> sg_ema_value sig = ms_price snap)"
proof -
  have "signal_type p p = HOLD" if "dle (Fin 0) p" "is_double p" for p
    using signal_type_sound [OF that, of p] by (cases "signal_type p p") (auto simp: dlt_def)
  then show ?thesis using make_signal_sound [OF assms, of se] assms
    by (auto simp: Let_def make_signal_def quotable_def)
qed

theorem signal_of_snapshot_witness:
  "sg_type (fst (make_signal demo_snap demo_engine)) = HOLD \<and> sg_ema_value (fst (make_signal demo_snap demo_engine)) = Fin 100"
  using signal_of_snapshot [OF demo_snap_ok(1), of demo_engine]
  by (simp add: Let_def demo_engine_def) (simp add: demo_snap_def)

text \<open>
  For every period the constructor accepts, the smoothing factor lies in (0, 1], and the rounded
  average is monotone in the price and in the previous average and never negative.
\<close>

theorem ema_monotone:
  assumes "new_signal_engine inq outq period = Value se" and "0 \<le> x" and "x \<le> x'" and "0 \<le> e" and "e \<le> e'"
  shows "dlt (Fin 0) (se_alpha se) \<and> dle (se_alpha se) (Fin 1) \<and>
    ema_step (se_alpha se) (Fin x) (Fin e) \<le> ema_step (se_alpha se) (Fin x') (Fin e') \<and>
    Fin 0 \<le> ema_step (se_alpha se) (Fin x) (Fin e)"
proof -
  obtain a where "se_alpha se = Fin a" "0 < a" "a \<le> 1" using alpha_range [OF assms(1)] .
  then show ?thesis using ema_step_mono [of a x x' e e'] assms(2-5) by simp
qed

theorem ema_monotone_witness:
  "dlt (Fin 0) (se_alpha demo_engine) \<and>
   ema_step (se_alpha demo_engine) (Fin 100) (Fin 90) \<le> ema_step (se_alpha demo_engine) (Fin 110) (Fin 95)"
  using ema_monotone [OF demo_engine_new, of 100 110 90 95] by simp

end
