(* ===== verification/DbWriter.thy ===== *)
theory DbWriter
  imports SignalEngine "HOL-Library.Multiset"
begin

text \<open>
  The two database writers, \<open>infra/DbWriter\<close> and \<open>infra/SignalDbWriter\<close>, which differ only in the row they
  make of an item. They collect items in a batch, write a batch as one transaction when it is
  full or 10 ms have passed, and reconnect after an exception. The database is a parameter: an
  observation of the stop flag carries the clock, whether a connection can be opened and
  whether a transaction that is tried now commits. The fields \<open>w_popped\<close>, \<open>w_saved\<close> and \<open>w_lost\<close>
  record what became of the items and are not part of the program. Logging is left out.
\<close>

record 'a writer_obs = "'a obs" +
  wo_connect :: bool
  wo_now :: int
  wo_commit :: bool

record ('a, 'r) writer =
  w_input :: "'a ring"
  w_txns :: "'r list list"
  w_popped :: "'a list"
  w_saved :: "'a list"
  w_lost :: "'a list"

text \<open>The rows of a batch; undefined if the row of one item is.\<close>

fun batch_rows :: "('a \<Rightarrow> 'r cpp) \<Rightarrow> 'a list \<Rightarrow> 'r list cpp" where
  "batch_rows row [] = Value []"
| "batch_rows row (x # xs) = cpp_bind (row x) (\<lambda>r. cpp_bind (batch_rows row xs) (\<lambda>rs. Value (r # rs)))"

text \<open>\<open>flush_to_db\<close>: one transaction; the boolean says whether it threw.\<close>

definition flush_to_db :: "('a \<Rightarrow> 'r cpp) \<Rightarrow> bool \<Rightarrow> 'a list \<Rightarrow> ('a, 'r) writer \<Rightarrow> (bool \<times> ('a, 'r) writer) cpp" where
  "flush_to_db row commit batch w = cpp_bind (batch_rows row batch) (\<lambda>rs.
     Value (if commit then (False, w\<lparr>w_txns := w_txns w @ [rs], w_saved := w_saved w @ batch\<rparr>)
            else (True, w\<lparr>w_lost := w_lost w @ batch\<rparr>)))"

definition writer_env :: "'a writer_obs \<Rightarrow> ('a, 'r) writer \<Rightarrow> ('a, 'r) writer" where
  "writer_env ob w = w\<lparr>w_input := env_push (ob_in ob) (w_input w)\<rparr>"

text \<open>
  The body of the loop of \<open>process_queue\<close>: pop at most one item, then flush if the batch has 100 items
  or the last flush is 10 ms ago. The result is the exception flag, the batch, the time of
  the last flush and the writer.
\<close>

definition queue_step :: "('a \<Rightarrow> 'r cpp) \<Rightarrow> 'a writer_obs \<Rightarrow> 'a list \<Rightarrow> int \<Rightarrow> ('a, 'r) writer
    \<Rightarrow> (bool \<times> 'a list \<times> int \<times> ('a, 'r) writer) cpp" where
  "queue_step row ob batch last_flush w =
     (let (batch1, w1) = (case try_pop (w_input w) of
            (None, _) \<Rightarrow> (batch, w)
          | (Some x, q) \<Rightarrow> (batch @ [x], w\<lparr>w_input := q, w_popped := w_popped w @ [x]\<rparr>))
      in if 100 \<le> length batch1 \<or> 10 \<le> (wo_now ob - last_flush) div 1000000 then
           (if batch1 \<noteq> [] then
              cpp_bind (flush_to_db row (wo_commit ob) batch1 w1) (\<lambda>(threw, w2). Value (threw, [], wo_now ob, w2))
            else Value (False, batch1, wo_now ob, w1))
         else Value (False, batch1, last_flush, w1))"

fun process_queue :: "('a \<Rightarrow> 'r cpp) \<Rightarrow> 'a writer_obs list \<Rightarrow> 'a list \<Rightarrow> int \<Rightarrow> ('a, 'r) writer
    \<Rightarrow> (bool \<times> ('a, 'r) writer \<times> 'a writer_obs list) cpp option" where
  "process_queue row [] batch last_flush w = None"
| "process_queue row (ob # obs) batch last_flush w =
     (let w1 = writer_env ob w
      in if ob_stop ob then
           (if batch \<noteq> [] then
              Some (cpp_bind (flush_to_db row (wo_commit ob) batch w1) (\<lambda>(threw, w2). Value (threw, w2, obs)))
            else Some (Value (False, w1, obs)))
         else (case queue_step row ob batch last_flush w1 of
                 Undefined \<Rightarrow> Some Undefined
               | Value (threw, batch', last', w') \<Rightarrow>
                   (if threw then Some (Value (True, w', obs)) else process_queue row obs batch' last' w')))"

text \<open>The wait of up to 50 slices after an exception.\<close>

fun backoff :: "nat \<Rightarrow> 'a writer_obs list \<Rightarrow> ('a, 'r) writer \<Rightarrow> (('a, 'r) writer \<times> 'a writer_obs list) option" where
  "backoff 0 obs w = Some (w, obs)"
| "backoff (Suc n) [] w = None"
| "backoff (Suc n) (ob # obs) w =
     (let w1 = writer_env ob w in if ob_stop ob then Some (w1, obs) else backoff n obs w1)"

lemma backoff_rest: "backoff n obs w = Some (w', rest) \<Longrightarrow> length rest \<le> length obs"
  by (induction n obs w rule: backoff.induct) (auto simp: Let_def split: if_splits)

lemma process_queue_rest:
  "process_queue row obs batch l w = Some (Value (threw, w', rest)) \<Longrightarrow> length rest \<le> length obs"
proof (induction obs arbitrary: batch l w)
  case (Cons ob obs)
  show ?case
  proof (cases "ob_stop ob")
    case True
    then show ?thesis using Cons.prems
      by (cases "flush_to_db row (wo_commit ob) batch (writer_env ob w)") (auto simp: Let_def split: if_splits)
  next
    case False
    show ?thesis
    proof (cases "queue_step row ob batch l (writer_env ob w)")
      case (Value x)
      obtain t b' l' w'' where "x = (t, b', l', w'')" by (metis prod_cases4)
      then show ?thesis using Cons.prems False Value by (cases t) (auto dest: Cons.IH)
    qed (use Cons.prems False in simp)
  qed
qed simp

text \<open>One attempt: connect, process the queue, and the handler if one of them threw.\<close>

definition writer_attempt :: "('a \<Rightarrow> 'r cpp) \<Rightarrow> 'a writer_obs \<Rightarrow> 'a writer_obs list \<Rightarrow> ('a, 'r) writer
    \<Rightarrow> (('a, 'r) writer \<times> 'a writer_obs list) cpp option" where
  "writer_attempt row ob obs w =
     (if wo_connect ob then
        (case process_queue row obs [] (wo_now ob) w of
           None \<Rightarrow> None
         | Some Undefined \<Rightarrow> Some Undefined
         | Some (Value (threw, w2, rest)) \<Rightarrow> if threw then map_option Value (backoff 50 rest w2) else Some (Value (w2, rest)))
      else map_option Value (backoff 50 obs w))"

lemma writer_attempt_rest: "writer_attempt row ob obs w = Some (Value (w', rest)) \<Longrightarrow> length rest \<le> length obs"
  by (auto simp: writer_attempt_def split: if_splits option.splits cpp.splits dest!: process_queue_rest backoff_rest)

function writer_run :: "('a \<Rightarrow> 'r cpp) \<Rightarrow> 'a writer_obs list \<Rightarrow> ('a, 'r) writer \<Rightarrow> ('a, 'r) writer cpp option" where
  "writer_run row [] w = None"
| "writer_run row (ob # obs) w =
     (let w1 = writer_env ob w
      in if ob_stop ob then Some (Value w1)
         else (case writer_attempt row ob obs w1 of
                 None \<Rightarrow> None
               | Some Undefined \<Rightarrow> Some Undefined
               | Some (Value (w2, rest)) \<Rightarrow> writer_run row rest w2))"
  by pat_completeness auto
termination
  by (relation "measure (\<lambda>(row, obs, w). length obs)") (auto dest!: writer_attempt_rest)

section \<open>The rows\<close>

text \<open>
  The parameters of the prepared statements. The volume of a snapshot is cast to \<open>int64_t\<close>, which may
  be undefined; times are in seconds.
\<close>

record price_row =
  pw_symbol :: string
  pw_price :: double
  pw_volume :: i64
  pw_recorded_at :: double

definition db_row :: "MarketSnapshot \<Rightarrow> price_row cpp" where
  "db_row snap = (case to_i64 (ms_volume snap) of
      None \<Rightarrow> Undefined
    | Some v \<Rightarrow> Value \<lparr>pw_symbol = sym_string (ms_symbol snap), pw_price = ms_price snap, pw_volume = v,
                      pw_recorded_at = ddiv (of_i64 (ms_timestamp_ns snap)) (Fin 1000000000)\<rparr>)"

record signal_rec =
  sr_symbol :: string
  sr_type :: string
  sr_price :: double
  sr_timestamp :: double

definition signal_row :: "Signal \<Rightarrow> signal_rec cpp" where
  "signal_row sig = Value \<lparr>sr_symbol = sym_string (sg_symbol sig),
     sr_type = (if sg_type sig = BUY then ''BUY'' else if sg_type sig = SELL then ''SELL'' else ''HOLD''),
     sr_price = sg_price sig, sr_timestamp = ddiv (of_i64 (sg_timestamp_ns sig)) (Fin 1000000000)\<rparr>"

definition db_flush :: "bool \<Rightarrow> MarketSnapshot list \<Rightarrow> (MarketSnapshot, price_row) writer \<Rightarrow> (bool \<times> (MarketSnapshot, price_row) writer) cpp" where
  "db_flush = flush_to_db db_row"

definition signal_flush :: "bool \<Rightarrow> Signal list \<Rightarrow> (Signal, signal_rec) writer \<Rightarrow> (bool \<times> (Signal, signal_rec) writer) cpp" where
  "signal_flush = flush_to_db signal_row"

definition signal_process_queue ::
  "Signal writer_obs list \<Rightarrow> Signal list \<Rightarrow> int \<Rightarrow> (Signal, signal_rec) writer
    \<Rightarrow> (bool \<times> (Signal, signal_rec) writer \<times> Signal writer_obs list) cpp option" where
  "signal_process_queue = process_queue signal_row"

definition db_writer_run :: "MarketSnapshot writer_obs list \<Rightarrow> (MarketSnapshot, price_row) writer \<Rightarrow> (MarketSnapshot, price_row) writer cpp option" where
  "db_writer_run = writer_run db_row"

definition signal_writer_run :: "Signal writer_obs list \<Rightarrow> (Signal, signal_rec) writer \<Rightarrow> (Signal, signal_rec) writer cpp option" where
  "signal_writer_run = writer_run signal_row"

section \<open>Conservation\<close>

text \<open>
  The invariant of a writer that holds a batch of at most \<open>n\<close> items: all items are admissible, what is in the committed
  transactions is the rows of the saved items in order, no transaction is empty or has more
  than 100 rows, and every popped item is saved, lost or in the batch.
\<close>

definition winv :: "('a \<Rightarrow> 'r cpp) \<Rightarrow> ('a \<Rightarrow> bool) \<Rightarrow> nat \<Rightarrow> 'a list \<Rightarrow> ('a, 'r) writer \<Rightarrow> bool" where
  "winv row ok n b w \<longleftrightarrow> ring_ok (w_input w) \<and> (\<forall>x \<in> set (ring_items (w_input w)) \<union> set b \<union> set (w_saved w). ok x) \<and> length b \<le> n \<and>
     batch_rows row (w_saved w) = Value (concat (w_txns w)) \<and> (\<forall>t \<in> set (w_txns w). t \<noteq> [] \<and> length t \<le> 100) \<and>
     mset (w_popped w) = mset (w_saved w) + mset (w_lost w) + mset b \<and> (w_lost w = [] \<longrightarrow> w_popped w = w_saved w @ b)"

text \<open>What has entered the queue, in order; it only grows.\<close>

definition stream :: "('a, 'r) writer \<Rightarrow> 'a list" where
  "stream w = w_popped w @ ring_items (w_input w)"

definition new_writer :: "'a ring \<Rightarrow> ('a, 'r) writer" where
  "new_writer q = \<lparr>w_input = q, w_txns = [], w_popped = [], w_saved = [], w_lost = []\<rparr>"

lemma new_writer_inv: "ring_ok q \<Longrightarrow> \<forall>x \<in> set (ring_items q). ok x \<Longrightarrow> winv row ok 99 [] (new_writer q)"
  by (simp add: winv_def new_writer_def)

lemma winv_env: "winv row ok n b w \<Longrightarrow> \<forall>x \<in> set (ob_in ob). ok x \<Longrightarrow> winv row ok n b (writer_env ob w)"
proof -
  assume a: "winv row ok n b w" "\<forall>x \<in> set (ob_in ob). ok x"
  then have "set (ring_items (env_push (ob_in ob) (w_input w))) \<subseteq> set (ring_items (w_input w)) \<union> set (ob_in ob)"
    by (intro env_push_set) (simp add: winv_def)
  then have "\<forall>x \<in> set (ring_items (env_push (ob_in ob) (w_input w))). ok x" using a by (auto simp: winv_def)
  then show ?thesis using a env_push_ok [of "w_input w" "ob_in ob"] by (simp add: winv_def writer_env_def ball_Un)
qed

lemma env_stream: "ring_ok (w_input w) \<Longrightarrow> prefix (stream w) (stream (writer_env ob w))"
  using env_push_ok [of "w_input w" "ob_in ob"] by (auto simp: stream_def writer_env_def)

lemma winv_ring: "winv row ok n b w \<Longrightarrow> ring_ok (w_input w)"
  by (simp add: winv_def)

lemma winv_pop:
  assumes "winv row ok n b w" "try_pop (w_input w) = (Some x, q)"
  shows "winv row ok (Suc n) (b @ [x]) (w\<lparr>w_input := q, w_popped := w_popped w @ [x]\<rparr>)"
    "stream (w\<lparr>w_input := q, w_popped := w_popped w @ [x]\<rparr>) = stream w"
proof -
  have "ring_items (w_input w) = x # ring_items q" "ring_ok q"
    using assms by (auto simp: winv_def elim: rb.pop_cases)
  then show "winv row ok (Suc n) (b @ [x]) (w\<lparr>w_input := q, w_popped := w_popped w @ [x]\<rparr>)"
    "stream (w\<lparr>w_input := q, w_popped := w_popped w @ [x]\<rparr>) = stream w"
    using assms(1) by (auto simp: winv_def stream_def)
qed

section \<open>Termination\<close>

lemma process_returns:
  "persists ob_stop obs \<Longrightarrow> 1 \<le> flags ob_stop obs \<Longrightarrow> \<exists>r. process_queue row obs b l w = Some r \<and>
     (\<forall>threw w' rest. r = Value (threw, w', rest) \<longrightarrow> leaves ob_stop 1 obs rest)"
proof (induction obs arbitrary: b l w)
  case (Cons ob obs)
  show ?case
  proof (cases "ob_stop ob")
    case True
    then have "leaves ob_stop 1 (ob # obs) obs" using leaves_stop [OF Cons.prems(1), of 0] by simp
    then show ?thesis using True
      by (cases "flush_to_db row (wo_commit ob) b (writer_env ob w)") (auto simp: Let_def)
  next
    case False
    show ?thesis
    proof (cases "queue_step row ob b l (writer_env ob w)")
      case Undefined
      then show ?thesis using False by simp
    next
      case (Value x)
      obtain t b' l' w' where x: "x = (t, b', l', w')" by (metis prod_cases4)
      have "persists ob_stop obs" "1 \<le> flags ob_stop obs" using Cons.prems False by auto
      from Cons.IH [OF this, of b' l' w'] show ?thesis
        using False Value x leaves_Cons [of ob_stop, OF False] leaves_refl [of ob_stop 1 obs] by (cases t) auto
    qed
  qed
qed simp

lemma backoff_returns:
  "persists ob_stop obs \<Longrightarrow> 1 \<le> flags ob_stop obs \<Longrightarrow> \<exists>w' rest. backoff n obs w = Some (w', rest) \<and> leaves ob_stop 1 obs rest"
proof (induction n obs w rule: backoff.induct)
  case (3 n ob obs w)
  then show ?case using leaves_stop [of ob_stop ob obs 0] leaves_Cons [of ob_stop ob 1 obs]
    by (cases "ob_stop ob") (auto simp: Let_def)
qed (auto simp: leaves_refl)

lemma attempt_returns:
  assumes "persists ob_stop obs" "2 \<le> flags ob_stop obs"
  shows "\<exists>r. writer_attempt row ob obs w = Some r \<and> (\<forall>w' rest. r = Value (w', rest) \<longrightarrow> leaves ob_stop 2 obs rest)"
proof (cases "wo_connect ob")
  note f = le_trans [OF one_le_numeral assms(2)]
  case False
  obtain w2 r2 where "backoff 50 obs w = Some (w2, r2)" "leaves ob_stop 1 obs r2" using backoff_returns [OF assms(1) f] by blast
  then show ?thesis using False leaves_mono [of ob_stop 1 obs r2 2] by (simp add: writer_attempt_def)
next
  note f = le_trans [OF one_le_numeral assms(2)]
  case True
  obtain r where r: "process_queue row obs [] (wo_now ob) w = Some r"
    "\<forall>threw w' rest. r = Value (threw, w', rest) \<longrightarrow> leaves ob_stop 1 obs rest" using process_returns [OF assms(1) f] by blast
  show ?thesis
  proof (cases r)
    case Undefined
    then show ?thesis using r(1) True by (simp add: writer_attempt_def)
  next
    case (Value x)
    obtain threw w2 rest where x: "x = (threw, w2, rest)" by (metis prod_cases3)
    have lv: "leaves ob_stop 1 obs rest" using r(2) Value x by simp
    then have "persists ob_stop rest" "1 \<le> flags ob_stop rest" using assms persists_suffix by (auto simp: leaves_def)
    then obtain w3 r3 where b: "backoff 50 rest w2 = Some (w3, r3)" "leaves ob_stop 1 rest r3" using backoff_returns by blast
    have "leaves ob_stop 2 obs r3" "leaves ob_stop 2 obs rest"
      using leaves_trans [OF lv b(2)] leaves_mono [OF lv] by (simp_all add: numeral_2_eq_2)
    then show ?thesis using r(1) b(1) Value x True by (simp add: writer_attempt_def)
  qed
qed

lemma writer_run_returns: "persists ob_stop obs \<Longrightarrow> 3 \<le> flags ob_stop obs \<Longrightarrow> \<exists>r. writer_run row obs w = Some r"
proof (induction "length obs" arbitrary: obs w rule: less_induct)
  case less
  obtain ob os where obs: "obs = ob # os" using less.prems(2) by (cases obs) auto
  show ?case
  proof (cases "ob_stop ob")
    case False
    then have os: "persists ob_stop os" "3 \<le> flags ob_stop os" "2 \<le> flags ob_stop os" using less.prems obs by auto
    obtain r where r: "writer_attempt row ob os (writer_env ob w) = Some r"
      "\<forall>w' rest. r = Value (w', rest) \<longrightarrow> leaves ob_stop 2 os rest" using attempt_returns [OF os(1,3)] by blast
    show ?thesis
    proof (cases r)
      case (Value x)
      obtain w2 rest where x: "x = (w2, rest)" by (cases x)
      have lv: "leaves ob_stop 2 os rest" using r(2) Value x by simp
      have "2 < flags ob_stop os" using os(2) by simp
      note again = leaves_again [OF os(1) this lv]
      from again(3) have "\<exists>r'. writer_run row rest w2 = Some r'"
        using less.hyps [of rest w2] again(1,2) obs os(2) by (auto simp: Let_def)
      then show ?thesis using r(1) Value x False obs by simp
    qed (use r obs False in simp)
  qed (use obs in \<open>simp add: Let_def\<close>)
qed

section \<open>The writer interface\<close>

text \<open>
  What the queue logic relies on: the row of an admissible item is defined. The rest is proved once
  for both writers.
\<close>

locale row_writer =
  fixes row :: "'a \<Rightarrow> 'r cpp" and ok :: "'a \<Rightarrow> bool"
  assumes row_defined: "ok x \<Longrightarrow> \<exists>r. row x = Value r"
begin

lemma batch_rows_ok: "\<forall>x \<in> set xs. ok x \<Longrightarrow> \<exists>rs. batch_rows row xs = Value rs \<and> length rs = length xs"
  by (induction xs) (auto dest!: row_defined)

lemma batch_rows_append:
  "batch_rows row xs = Value rs \<Longrightarrow> batch_rows row ys = Value ss \<Longrightarrow> batch_rows row (xs @ ys) = Value (rs @ ss)"
proof (induction xs arbitrary: rs)
  case (Cons x xs)
  then obtain r where "row x = Value r" by (cases "row x") auto
  moreover from this Cons.prems(1) obtain rs' where "batch_rows row xs = Value rs'" "rs = r # rs'"
    by (cases "batch_rows row xs") auto
  ultimately show ?case using Cons.IH Cons.prems(2) by simp
qed simp

lemma flush_ok:
  assumes f: "winv row ok 100 b w" and ne: "b \<noteq> []"
  shows "\<exists>w'. flush_to_db row c b w = Value (\<not> c, w') \<and> winv row ok 99 [] w' \<and> stream w' = stream w \<and> (c \<longrightarrow> w_lost w' = w_lost w)"
proof -
  obtain rs where rs: "batch_rows row b = Value rs" "length rs = length b" using batch_rows_ok [of b] f by (auto simp: winv_def)
  have app: "batch_rows row (w_saved w @ b) = Value (concat (w_txns w) @ rs)"
    using batch_rows_append [OF _ rs(1)] f by (simp add: winv_def)
  have "rs \<noteq> []" "length rs \<le> 100" using rs(2) ne f by (auto simp: winv_def)
  then show ?thesis using rs f ne app by (cases c) (auto simp: flush_to_db_def winv_def stream_def)
qed

lemma step_ok:
  assumes "winv row ok 99 b w"
  obtains threw b' l' w' where "queue_step row ob b l w = Value (threw, b', l', w')" "winv row ok 99 b' w'"
    "stream w' = stream w" "threw \<longrightarrow> b' = []" "wo_commit ob \<longrightarrow> \<not> threw \<and> w_lost w' = w_lost w"
proof -
  define p where "p = (case try_pop (w_input w) of (None, _) \<Rightarrow> (b, w)
    | (Some x, q) \<Rightarrow> (b @ [x], w\<lparr>w_input := q, w_popped := w_popped w @ [x]\<rparr>))"
  obtain b1 w1 where p: "p = (b1, w1)" by (cases p)
  have w1: "winv row ok 100 b1 w1" "stream w1 = stream w" "w_lost w1 = w_lost w"
    using winv_pop [OF assms] assms p
    by (auto simp: p_def winv_def split: prod.splits option.splits)
  have step: "queue_step row ob b l w =
     (if 100 \<le> length b1 \<or> 10 \<le> (wo_now ob - l) div 1000000 then
        (if b1 \<noteq> [] then cpp_bind (flush_to_db row (wo_commit ob) b1 w1) (\<lambda>(threw, w2). Value (threw, [], wo_now ob, w2))
         else Value (False, b1, wo_now ob, w1))
      else Value (False, b1, l, w1))"
    unfolding queue_step_def p_def [symmetric] p by simp
  show ?thesis
  proof (cases "(100 \<le> length b1 \<or> 10 \<le> (wo_now ob - l) div 1000000) \<and> b1 \<noteq> []")
    case True
    obtain w' where "flush_to_db row (wo_commit ob) b1 w1 = Value (\<not> wo_commit ob, w')" "winv row ok 99 [] w'"
      "stream w' = stream w1" "wo_commit ob \<longrightarrow> w_lost w' = w_lost w1"
      using flush_ok [OF w1(1)] True by blast
    then show ?thesis using that [of "\<not> wo_commit ob" "[]" "wo_now ob" w'] step True w1 by auto
  next
    case False
    then have "winv row ok 99 b1 w1" using w1(1) by (auto simp: winv_def)
    then show ?thesis using that [of False b1 _ w1] step False w1 by (auto split: if_splits)
  qed
qed

lemma process_queue_ok:
  assumes "winv row ok 99 b w" "obs_ok ok obs" "process_queue row obs b l w = Some res"
  shows "\<exists>threw w' rest. res = Value (threw, w', rest) \<and> winv row ok 99 [] w' \<and> prefix (stream w) (stream w') \<and> suffix rest obs \<and>
     ((\<forall>ob \<in> set obs. wo_commit ob) \<longrightarrow> w_lost w' = w_lost w)"
  using assms
proof (induction obs arbitrary: b l w)
  case (Cons ob obs)
  define w1 where "w1 = writer_env ob w"
  have inv1: "winv row ok 99 b w1" using winv_env Cons.prems(1,2) by (auto simp: w1_def)
  have pre: "prefix (stream w) (stream w1)" unfolding w1_def by (rule env_stream [OF winv_ring [OF Cons.prems(1)]])
  have lost: "w_lost w1 = w_lost w" by (simp add: w1_def writer_env_def)
  show ?case
  proof (cases "ob_stop ob")
    case True
    show ?thesis
    proof (cases "b = []")
      case True
      then show ?thesis using Cons.prems(3) \<open>ob_stop ob\<close> inv1 pre lost by (auto simp: w1_def suffix_ConsI Let_def)
    next
      case False
      have "winv row ok 100 b w1" using inv1 by (auto simp: winv_def)
      then obtain w' where "flush_to_db row (wo_commit ob) b w1 = Value (\<not> wo_commit ob, w')" "winv row ok 99 [] w'"
        "stream w' = stream w1" "wo_commit ob \<longrightarrow> w_lost w' = w_lost w1" using flush_ok [OF _ False] by blast
      then show ?thesis using Cons.prems(3) True False pre lost by (auto simp: w1_def [symmetric] suffix_ConsI Let_def)
    qed
  next
    case False
    obtain threw b' l' w' where st: "queue_step row ob b l w1 = Value (threw, b', l', w')" "winv row ok 99 b' w'"
      "stream w' = stream w1" "threw \<longrightarrow> b' = []" "wo_commit ob \<longrightarrow> \<not> threw \<and> w_lost w' = w_lost w1"
      using step_ok [OF inv1] by metis
    show ?thesis
    proof (cases threw)
      case True
      then show ?thesis using Cons.prems(3) False st pre lost by (auto simp: w1_def [symmetric] suffix_ConsI Let_def)
    next
      case thr: False
      then have "process_queue row obs b' l' w' = Some res" using Cons.prems(3) False st(1) by (simp add: w1_def [symmetric])
      from Cons.IH [OF st(2) _ this] Cons.prems(2) show ?thesis
        using pre st(3,5) lost by (auto simp: suffix_ConsI intro: prefix_order.trans)
    qed
  qed
qed simp

lemma backoff_ok:
  assumes "winv row ok 99 [] w" "obs_ok ok obs" "backoff n obs w = Some (w', rest)"
  shows "winv row ok 99 [] w' \<and> prefix (stream w) (stream w') \<and> suffix rest obs \<and> w_lost w' = w_lost w"
  using assms
proof (induction n obs w rule: backoff.induct)
  case (3 n ob obs w)
  define w1 where "w1 = writer_env ob w"
  have inv1: "winv row ok 99 [] w1" using winv_env "3.prems"(1,2) by (auto simp: w1_def)
  have pre: "prefix (stream w) (stream w1)" unfolding w1_def by (rule env_stream [OF winv_ring [OF "3.prems"(1)]])
  have lost: "w_lost w1 = w_lost w" by (simp add: w1_def writer_env_def)
  show ?case
  proof (cases "ob_stop ob")
    case True
    then show ?thesis using "3.prems"(3) inv1 pre lost by (auto simp: w1_def suffix_ConsI Let_def)
  next
    case False
    then show ?thesis using "3.IH" [OF w1_def False inv1] "3.prems"(2,3) pre lost
      by (auto simp: w1_def [symmetric] Let_def suffix_ConsI intro: prefix_order.trans)
  qed
qed auto

lemma attempt_ok:
  assumes inv: "winv row ok 99 [] w" and ok: "obs_ok ok obs" and res: "writer_attempt row ob obs w = Some res"
  shows "\<exists>w' rest. res = Value (w', rest) \<and> winv row ok 99 [] w' \<and> prefix (stream w) (stream w') \<and> suffix rest obs \<and>
     ((\<forall>ob \<in> set obs. wo_commit ob) \<longrightarrow> w_lost w' = w_lost w)"
proof (cases "wo_connect ob")
  case False
  then obtain w' rest where b: "backoff 50 obs w = Some (w', rest)" "res = Value (w', rest)"
    using res by (auto simp: writer_attempt_def)
  then show ?thesis using backoff_ok [OF inv ok b(1)] by simp
next
  case conn: True
  then obtain r where r: "process_queue row obs [] (wo_now ob) w = Some r"
    using res by (auto simp: writer_attempt_def split: option.splits)
  obtain threw w2 rest where q: "r = Value (threw, w2, rest)" "winv row ok 99 [] w2" "prefix (stream w) (stream w2)"
    "suffix rest obs" "(\<forall>ob \<in> set obs. wo_commit ob) \<longrightarrow> w_lost w2 = w_lost w"
    using process_queue_ok [OF inv ok r] by blast
  show ?thesis
  proof (cases threw)
    case False
    then show ?thesis using res conn r q by (auto simp: writer_attempt_def)
  next
    case True
    then obtain w3 rest' where b: "backoff 50 rest w2 = Some (w3, rest')" "res = Value (w3, rest')"
      using res conn r q(1) by (auto simp: writer_attempt_def)
    then show ?thesis using backoff_ok [OF q(2) obs_ok_suffix [OF ok q(4)] b(1)] q(3-5)
      by (auto intro: prefix_order.trans suffix_order.trans)
  qed
qed

lemma run_ok:
  assumes "winv row ok 99 [] w" "obs_ok ok obs" "writer_run row obs w = Some res"
  shows "\<exists>w'. res = Value w' \<and> winv row ok 99 [] w' \<and> prefix (stream w) (stream w') \<and>
     ((\<forall>ob \<in> set obs. wo_commit ob) \<longrightarrow> w_lost w' = w_lost w)"
  using assms
proof (induction "length obs" arbitrary: obs w rule: less_induct)
  case less
  show ?case
  proof (cases obs)
    case (Cons ob os)
    define w1 where "w1 = writer_env ob w"
    have ok: "obs_ok ok os" using less.prems(2) Cons by simp
    have inv1: "winv row ok 99 [] w1" using winv_env less.prems(1,2) Cons by (auto simp: w1_def)
    have pre: "prefix (stream w) (stream w1)" unfolding w1_def by (rule env_stream [OF winv_ring [OF less.prems(1)]])
    have lost: "w_lost w1 = w_lost w" by (simp add: w1_def writer_env_def)
    show ?thesis
    proof (cases "ob_stop ob")
      case True
      then show ?thesis using less.prems(3) Cons inv1 pre lost by (auto simp: w1_def)
    next
      case False
      then obtain r where r: "writer_attempt row ob os w1 = Some r"
        using less.prems(3) Cons by (auto simp: w1_def split: option.splits)
      obtain w2 rest where q: "r = Value (w2, rest)" "winv row ok 99 [] w2" "prefix (stream w1) (stream w2)" "suffix rest os"
        "(\<forall>ob \<in> set os. wo_commit ob) \<longrightarrow> w_lost w2 = w_lost w1" using attempt_ok [OF inv1 ok r] by blast
      have run: "writer_run row rest w2 = Some res" using less.prems(3) Cons False r q(1) by (simp add: w1_def)
      have rest: "length rest < length obs" "obs_ok ok rest" "set rest \<subseteq> set os"
        using q(4) ok Cons by (auto simp: obs_ok_suffix set_mono_suffix dest: suffix_length_le)
      from less.hyps [OF rest(1) q(2) rest(2) run] rest(3) show ?thesis
        using q(3,5) pre lost Cons by (auto intro: prefix_order.trans)
    qed
  qed (use less.prems in simp)
qed

end

text \<open>A snapshot whose volume fits the cast.\<close>

definition storable :: "MarketSnapshot \<Rightarrow> bool" where
  "storable snap \<longleftrightarrow> (\<exists>v. ms_volume snap = Fin v \<and> 0 \<le> v \<and> v < 2 ^ 63)"

interpretation dbw: row_writer db_row storable
proof
  fix snap assume "storable snap"
  then obtain v where v: "ms_volume snap = Fin v" "0 \<le> v" "v < 2 ^ 63" by (auto simp: storable_def)
  then have "- (2 ^ 63) \<le> trunc v" "trunc v < 2 ^ 63" by (auto simp: trunc_def floor_less_iff le_floor_iff)
  then show "\<exists>r. db_row snap = Value r" using v by (simp add: db_row_def)
qed

interpretation sgw: row_writer signal_row "\<lambda>sig. True"
  by unfold_locales (simp add: signal_row_def)

section \<open>Concrete writers\<close>

definition demo_w_obs :: "bool \<Rightarrow> bool \<Rightarrow> int \<Rightarrow> 'a writer_obs" where
  "demo_w_obs stop commit now = \<lparr>ob_stop = stop, ob_in = [], ob_out = 0, wo_connect = True, wo_now = now, wo_commit = commit\<rparr>"

definition demo_w_schedule :: "bool \<Rightarrow> 'a writer_obs list" where
  "demo_w_schedule commit = [demo_w_obs False commit 0, demo_w_obs False commit 1000000, demo_w_obs True commit 2000000,
     demo_w_obs True commit 2000000, demo_w_obs True commit 2000000]"

lemma demo_w_schedule_ok: "obs_ok P (demo_w_schedule c)" "persists ob_stop (demo_w_schedule c)" "3 \<le> flags ob_stop (demo_w_schedule c)"
  "\<forall>ob \<in> set (demo_w_schedule True). wo_commit ob"
  by (simp_all add: demo_w_schedule_def demo_w_obs_def persists_def)

lemma demo_storable: "storable demo_snap"
  by (simp add: storable_def demo_snap_def zero_snapshot_def)

section \<open>Properties\<close>

text \<open>
  C26. \<open>DbWriter::run\<close>: it returns once a stop stays requested, whatever the database does, without undefined
  behaviour if the volumes fit 63 bits. Then every item it popped is either in exactly one
  committed transaction or was lost with a transaction that failed, no transaction is empty
  or larger than 100 rows, the rows are those of the saved items in order, and if every
  transaction commits nothing is lost and everything popped was saved in order. Items still in
  the queue are not written.
\<close>

theorem db_writer_accounts:
  assumes "ring_ok q" and "\<forall>x \<in> set (ring_items q). storable x" and "obs_ok storable obs"
    and "persists ob_stop obs" and "3 \<le> flags ob_stop obs"
  shows "\<exists>w. db_writer_run obs (new_writer q) = Some (Value w) \<and>
     batch_rows db_row (w_saved w) = Value (concat (w_txns w)) \<and> (\<forall>t \<in> set (w_txns w). t \<noteq> [] \<and> length t \<le> 100) \<and>
     mset (w_popped w) = mset (w_saved w) + mset (w_lost w) \<and> prefix (ring_items q) (w_popped w @ ring_items (w_input w)) \<and>
     ((\<forall>ob \<in> set obs. wo_commit ob) \<longrightarrow> w_lost w = [] \<and> w_popped w = w_saved w)"
proof -
  obtain r where r: "writer_run db_row obs (new_writer q) = Some r" using writer_run_returns [OF assms(4,5)] by blast
  have "stream (new_writer q :: (MarketSnapshot, price_row) writer) = ring_items q" "w_lost (new_writer q :: (MarketSnapshot, price_row) writer) = []"
    by (simp_all add: stream_def new_writer_def)
  with dbw.run_ok [OF new_writer_inv [OF assms(1,2)] assms(3) r] r show ?thesis
    by (auto simp: db_writer_run_def winv_def stream_def)
qed

theorem db_writer_accounts_witness:
  "\<exists>w. db_writer_run (demo_w_schedule True) (new_writer (filled_ring 1 zero_snapshot [demo_snap])) = Some (Value w) \<and>
     w_lost w = [] \<and> w_popped w = w_saved w"
  using db_writer_accounts [of "filled_ring 1 zero_snapshot [demo_snap]" "demo_w_schedule True"]
    demo_w_schedule_ok(1) [of storable True] demo_w_schedule_ok(2,3) [of True] demo_w_schedule_ok(4) demo_storable by auto

text \<open>
  \<open>SignalDbWriter::run\<close> has the same guarantees for every signal, without any condition on the items,
  because its rows need no cast.
\<close>

theorem signal_writer_accounts:
  assumes "ring_ok q" and "persists ob_stop obs" and "3 \<le> flags ob_stop obs"
  shows "\<exists>w. signal_writer_run obs (new_writer q) = Some (Value w) \<and>
     batch_rows signal_row (w_saved w) = Value (concat (w_txns w)) \<and> (\<forall>t \<in> set (w_txns w). t \<noteq> [] \<and> length t \<le> 100) \<and>
     mset (w_popped w) = mset (w_saved w) + mset (w_lost w) \<and> prefix (ring_items q) (w_popped w @ ring_items (w_input w)) \<and>
     ((\<forall>ob \<in> set obs. wo_commit ob) \<longrightarrow> w_lost w = [] \<and> w_popped w = w_saved w)"
proof -
  obtain r where r: "writer_run signal_row obs (new_writer q) = Some r" using writer_run_returns [OF assms(2,3)] by blast
  have "stream (new_writer q :: (Signal, signal_rec) writer) = ring_items q" "w_lost (new_writer q :: (Signal, signal_rec) writer) = []"
    by (simp_all add: stream_def new_writer_def)
  with sgw.run_ok [OF new_writer_inv [OF assms(1)] _ r] r show ?thesis
    by (auto simp: signal_writer_run_def winv_def stream_def obs_ok_def)
qed

theorem signal_writer_accounts_witness:
  "\<exists>w. signal_writer_run (demo_w_schedule True) (new_writer (filled_ring 1 zero_signal [zero_signal])) = Some (Value w) \<and>
     w_lost w = []"
  using signal_writer_accounts [of "filled_ring 1 zero_signal [zero_signal]" "demo_w_schedule True"]
    demo_w_schedule_ok(2,3) [of True] demo_w_schedule_ok(4) by auto

text \<open>
  A transaction that fails loses its batch: the writer reconnects, but the items of the batch are in
  neither the database nor the queue any more.
\<close>

theorem failed_flush_loses:
  "\<exists>w. signal_writer_run (demo_w_schedule False) (new_writer (filled_ring 1 zero_signal [zero_signal])) = Some (Value w) \<and>
     w_lost w = [zero_signal] \<and> w_txns w = [] \<and> ring_items (w_input w) = []"
proof -
  define r where "r = filled_ring 1 zero_signal [zero_signal]"
  obtain q where q: "try_pop r = (Some zero_signal, q)" "ring_items q = []"
    using rb.pop_some [of r zero_signal "[]"] by (auto simp: r_def)
  have b: "backoff 50 (ob # obs) w = (let w1 = writer_env ob w in if ob_stop ob then Some (w1, obs) else backoff 49 obs w1)"
    for ob obs and w :: "(Signal, signal_rec) writer" using backoff.simps(3) [of 49 ob obs w] by simp
  show ?thesis unfolding r_def [symmetric]
    by (simp add: signal_writer_run_def demo_w_schedule_def demo_w_obs_def new_writer_def writer_env_def env_push_def
        queue_step_def q flush_to_db_def signal_row_def b Let_def writer_attempt_def)
qed

end
