(* ===== verification/PipelineData.thy ===== *)
theory PipelineData
  imports Pipeline DbWriter
begin

text \<open>
  What flows to the threads behind the book. If the volumes of the ticks stay below \<open>2 ^ 61\<close>, then so do the volumes of all
  levels, and every snapshot that the book publishes has a volume that fits the cast of the database writer and a price that the
  signal engine can use. This holds in every interleaving of the pipeline.
\<close>

section \<open>Volumes in a book\<close>

definition small :: "MarketTick \<Rightarrow> bool" where
  "small t \<longleftrightarrow> (\<forall>v. mt_volume t = Fin v \<longrightarrow> v < 2 ^ 61)"

definition book_volumes :: "OrderBook \<Rightarrow> bool" where
  "book_volumes b \<longleftrightarrow> (\<forall>e \<in> set (bids b) \<union> set (asks b). unat (snd e) < 2 ^ 61)"

lemma small_enrich [simp]: "small (enrich t) = small t"
  by (simp add: small_def enrich_def)

lemma book_apply_volumes:
  assumes "book_ok b" "bd_price d \<noteq> NaN" "book_volumes b" "unat (bd_volume d) < 2 ^ 61"
  shows "book_volumes (book_apply d b)"
proof -
  have wf: "levels_wf (bids b)" "levels_wf (asks b)" using assms(1) by (simp_all add: book_ok_def)
  show ?thesis using assms(3,4) by (cases "bd_side d")
      (auto simp: book_apply_cases [OF assms(1,2)] Let_def book_volumes_def set_map_put set_map_erase wf assms(2))
qed

lemma small_volume:
  assumes "bookable t" "small t" "to_u64 (mt_volume t) = Some u"
  shows "unat u < 2 ^ 61"
proof -
  obtain v where v: "mt_volume t = Fin v" "0 < v" "v < 2 ^ 61" using assms(1,2) by (auto simp: bookable_def clean_tick_def small_def)
  then have f: "0 \<le> \<lfloor>v\<rfloor>" "\<lfloor>v\<rfloor> < 2 ^ 61" "trunc v = \<lfloor>v\<rfloor>" by (simp_all add: floor_less_iff trunc_def)
  then have "unat (of_int \<lfloor>v\<rfloor> :: u64) = nat \<lfloor>v\<rfloor>" by (simp add: unat_eq_nat_uint uint_word_of_int_eq take_bit_int_eq_self)
  then show ?thesis using assms(3) v(1) f by (auto simp: nat_less_iff split: if_splits)
qed

section \<open>The snapshots\<close>

lemma of_u64_storable: assumes "unat u < 2 ^ 62" shows "\<exists>v. of_u64 u = Fin v \<and> 0 \<le> v \<and> v < 2 ^ 63"
proof -
  have rep: "representable (2 ^ 62 :: rat)"
    using powi2_less_limit [of 62] unfolding representable_iff by (intro conjI dyadicI [of _ 1 62]) simp_all
  have "of_nat (unat u) \<le> (of_nat (2 ^ 62) :: rat)" using assms by (intro of_nat_mono) simp
  then have "of_nat (unat u) \<le> (2 ^ 62 :: rat)" by (simp only: of_nat_power of_nat_numeral)
  then have "of_u64 u \<le> Fin (2 ^ 62)" unfolding of_u64_def by (rule ieee.rnd_le [OF rep])
  moreover have "Fin 0 \<le> of_u64 u" unfolding of_u64_def by (intro round64_sign of_nat_0_le_iff)
  ultimately show ?thesis by (cases "of_u64 u") (auto simp: of_u64_def)
qed

lemma snapshot_storable: assumes "book_volumes b" shows "storable (make_snapshot t (top_of_book now b) b)"
proof -
  define x y where "x = (if bids b \<noteq> [] then snd (last (bids b)) else 0)" and "y = (if asks b \<noteq> [] then snd (hd (asks b)) else 0)"
  have "unat x < 2 ^ 61" "unat y < 2 ^ 61" using assms by (auto simp: book_volumes_def x_def y_def)
  then have "unat (x + y) < 2 ^ 62" by (simp add: unat_word_ariths)
  moreover have "ms_volume (make_snapshot t (top_of_book now b) b) = of_u64 (x + y)"
    by (simp add: make_snapshot_def top_of_book_def Let_def x_def y_def)
  ultimately show ?thesis using of_u64_storable by (simp add: storable_def)
qed

lemma half_sum_quotable:
  assumes "good_price p" "good_price q"
  shows "dle (Fin 0) (ddiv (dadd p q) (Fin 2))"
proof -
  obtain x y where "p = Fin x" "0 < x" "q = Fin y" "0 < y" using assms by (auto simp: good_price_def dest!: dlt_0_pos)
  then show ?thesis
    using round64_sign(1) [of "x + y"] round64_not_NaN [of "x + y"] by (cases "round64 (x + y)") (auto simp: round64_sign dle_def)
qed

lemma snapshot_quotable: assumes "book_good k b" shows "quotable (make_snapshot t (top_of_book now b) b)"
proof -
  have "book_prices good_price b" using assms by (simp add: book_good_def)
  then have g: "bids b \<noteq> [] \<Longrightarrow> good_price (fst (last (bids b)))" "asks b \<noteq> [] \<Longrightarrow> good_price (fst (hd (asks b)))"
    by (auto simp: book_prices_def)
  have h: "dle (Fin 0) p" if "dlt (Fin 0) p" for p using that by (auto simp: dle_def dlt_def)
  show ?thesis
    using g half_sum_quotable [of "fst (last (bids b))" "fst (hd (asks b))"]
    by (cases "bids b = []"; cases "asks b = []")
      (auto simp: quotable_def make_snapshot_def top_of_book_def Let_def good_price_def h)
qed

text \<open>
  A snapshot as the threads behind the book may rely on it: the volume fits the cast, the price can be used by the engine, the
  symbol has one to seven characters, and the time is positive.
\<close>

definition wf_snapshot :: "MarketSnapshot \<Rightarrow> bool" where
  "wf_snapshot s \<longleftrightarrow> storable s \<and> quotable s \<and> length (ms_symbol s) = 8 \<and> ms_symbol s ! 0 \<noteq> NUL \<and> ms_symbol s ! 7 = NUL \<and>
     0 < sint (ms_timestamp_ns s)"

lemma snapshot_wf: "bookable t \<Longrightarrow> book_volumes b \<Longrightarrow> book_good k b \<Longrightarrow> wf_snapshot (make_snapshot t (top_of_book now b) b)"
  by (simp add: wf_snapshot_def snapshot_storable snapshot_quotable) (simp add: make_snapshot_def bookable_def clean_tick_def)

section \<open>Through the pipeline\<close>

definition hand :: "thread_pc \<Rightarrow> MarketTick set" where
  "hand pc = (case pc of Pushing t \<Rightarrow> {t} | _ \<Rightarrow> {})"

lemma hand_simps [simp]: "hand (Pushing t) = {t}" "hand Polling = {}" "hand Draining = {}" "hand Finished = {}"
  by (simp_all add: hand_def)

definition queue_all :: "('a \<Rightarrow> bool) \<Rightarrow> 'a ring option \<Rightarrow> bool" where
  "queue_all P q \<longleftrightarrow> (case q of None \<Rightarrow> True | Some r \<Rightarrow> \<forall>x \<in> set (ring_items r). P x)"

definition books_small :: "BookProcessor \<Rightarrow> bool" where
  "books_small bp \<longleftrightarrow> (\<forall>k b. um_find (books bp) k = Some b \<longrightarrow> book_volumes b) \<and>
     queue_all wf_snapshot (db_queue bp) \<and> queue_all wf_snapshot (signal_queue bp)"

definition pipe_small :: "pipe \<Rightarrow> bool" where
  "pipe_small s \<longleftrightarrow>
     (\<forall>t \<in> set (ring_items (q1 s)) \<union> set (ring_items (q2 s)) \<union> set (ring_items (q3 s)) \<union> hand (pl_parser_pc s) \<union> hand (pl_norm_pc s). small t) \<and>
     books_small (pl_book s)"

lemma push_set: "ring_ok r \<Longrightarrow> try_push r x = (b, q) \<Longrightarrow> set (ring_items q) \<subseteq> insert x (set (ring_items r))"
  by (cases rule: rb.push_cases [of r x]) auto

lemma pop_set: "ring_ok r \<Longrightarrow> try_pop r = (Some x, q) \<Longrightarrow> set (ring_items r) = insert x (set (ring_items q))"
  by (cases rule: rb.pop_cases [of r]) auto

lemma parser_micro_small:
  assumes g: "parser_good pc st" and m: "parser_micro stop pc st = Value (pc', st', k)"
    and s: "\<forall>t \<in> set (ring_items (tp_input st)) \<union> set (ring_items (tp_output st)) \<union> hand pc. small t"
  shows "\<forall>t \<in> set (ring_items (tp_input st')) \<union> set (ring_items (tp_output st')) \<union> hand pc'. small t"
proof -
  have ok: "ring_ok (tp_input st)" "ring_ok (tp_output st)" using g by (auto simp: parser_good_def)
  show ?thesis
  proof (cases pc)
    case Polling
    then show ?thesis using m s pop_set [OF ok(1)] by (fastforce simp: Let_def split: if_splits prod.splits option.splits)
  next
    case (Pushing t)
    then show ?thesis using m s push_set [OF ok(2)] by (fastforce split: if_splits prod.splits bool.splits)
  next
    case Draining
    then show ?thesis using m s pop_set [OF ok(1)] push_set [OF ok(2)]
      by (fastforce simp: Let_def parser_drain_tick_def split: if_splits prod.splits option.splits bool.splits)
  next
    case Finished
    then show ?thesis using m s by auto
  qed
qed

lemma norm_micro_small:
  assumes g: "norm_good pc nz" and m: "norm_micro stop pc nz = Value (pc', nz', k)"
    and s: "\<forall>t \<in> set (ring_items (nz_input nz)) \<union> set (ring_items (nz_output nz)) \<union> hand pc. small t"
  shows "\<forall>t \<in> set (ring_items (nz_input nz')) \<union> set (ring_items (nz_output nz')) \<union> hand pc'. small t"
proof -
  have ok: "ring_ok (nz_input nz)" "ring_ok (nz_output nz)" using norm_good_rings [OF g] by auto
  have u: "nz_input (update_state t x) = nz_input x" "nz_output (update_state t x) = nz_output x" for t x
    by (simp_all add: update_state_def)
  show ?thesis
  proof (cases pc)
    case Polling
    then show ?thesis using m s pop_set [OF ok(1)]
      by (fastforce simp: Let_def count_fields u split: if_splits prod.splits option.splits)
  next
    case (Pushing t)
    then show ?thesis using m s push_set [OF ok(2)] by (fastforce simp: count_fields split: if_splits prod.splits bool.splits)
  next
    case Draining
    then show ?thesis using m s pop_set [OF ok(1)] push_set [OF ok(2)]
      by (fastforce simp: Let_def norm_drain_tick_def count_fields u split: if_splits prod.splits option.splits bool.splits)
  next
    case Finished
    then show ?thesis using m s by auto
  qed
qed

lemma pushed_to_all: "pushed_to x q q' \<Longrightarrow> queue_all P q \<Longrightarrow> P x \<Longrightarrow> queue_all P q'"
  by (cases q) (auto simp: pushed_to_def queue_all_def split: if_splits)

lemma queue_all_pop: "queue_ok q \<Longrightarrow> queue_all P q \<Longrightarrow> queue_all P (map_option (env_pop n) q)"
  by (cases q) (auto simp: queue_all_def queue_ok_def env_pop_ok dest: in_set_dropD)

lemma bp_tick_small:
  assumes "bp_inv bp" "bookable t" "small t" "books_small bp" "bp_process_tick t bp = Value bp'"
  shows "books_small bp'"
proof -
  define b b' where "b = fst (book_for (tick_sym t) bp)" and "b' = book_apply (delta_for t bp) b"
  define snap where "snap = make_snapshot t (top_of_book 0 b') b'"
  obtain u where u: "to_u64 (mt_volume t) = Some u" using bookable_volume [OF assms(2)] by blast
  have d: "unat (bd_volume (delta_for t bp)) < 2 ^ 61" "bd_price (delta_for t bp) \<noteq> NaN"
    using small_volume [OF assms(2,3) u] bookable_price [OF assms(2)] by (simp_all add: delta_for_def u)
  have "book_volumes b" using assms(4) by (auto simp: b_def book_for_def books_small_def book_volumes_def new_book_def split: option.splits)
  moreover have "book_ok b" using book_for_good [OF assms(1,2)] by (simp add: b_def book_good_def)
  ultimately have v: "book_volumes b'" using book_apply_volumes d by (simp add: b'_def)
  obtain bp1 where e: "bp_process_tick t bp = Value bp1" "\<And>k. book bp1 k = (if k = tick_sym t then Some b' else book bp k)"
    "book_good (tick_sym t) b'" "\<not> top_moved b b' \<Longrightarrow> db_queue bp1 = db_queue bp \<and> signal_queue bp1 = signal_queue bp"
    "top_moved b b' \<Longrightarrow> pushed_to snap (db_queue bp) (db_queue bp1) \<and> pushed_to snap (signal_queue bp) (signal_queue bp1)"
    unfolding b_def b'_def snap_def by (rule bp_process_tick_effect [OF assms(1,2)]) blast
  have sn: "wf_snapshot snap" using snapshot_wf [OF assms(2) v e(3)] by (simp add: snap_def)
  have "queue_all wf_snapshot (db_queue bp1) \<and> queue_all wf_snapshot (signal_queue bp1)"
    using assms(4) e(4,5) sn pushed_to_all by (cases "top_moved b b'") (auto simp: books_small_def)
  then show ?thesis using e(1,2) assms(4,5) v by (auto simp: books_small_def book_def split: if_splits)
qed

lemma book_micro_small:
  assumes g: "bp_good pc bp" and m: "book_micro stop pc bp = Value (pc', bp', k)"
    and s: "\<forall>t \<in> set (ring_items (bp_input bp)). small t" "books_small bp"
  shows "(\<forall>t \<in> set (ring_items (bp_input bp')). small t) \<and> books_small bp'"
proof -
  have inv: "bp_inv bp" "ring_ok (bp_input bp)" using g by (auto simp: bp_good_def bp_inv_def)
  have tick: "(\<forall>t \<in> set (ring_items (bp_input x)). small t) \<and> books_small x"
    if p: "try_pop (bp_input bp) = (Some t, q)" "bp_process_tick t (bp\<lparr>bp_input := q\<rparr>) = Value x" for t q x
  proof -
    note pop = bp_inv_pop [OF inv(1) p(1)]
    have "bp_input x = q" using bp_process_tick_input [OF p(2)] by simp
    moreover have "small t" using s(1) pop_set [OF inv(2) p(1)] by simp
    moreover have "books_small (bp\<lparr>bp_input := q\<rparr>)" using s(2) by (simp add: books_small_def)
    ultimately show ?thesis using bp_tick_small [OF pop _ _ p(2)] s(1) pop_set [OF inv(2) p(1)] by simp
  qed
  show ?thesis
    using m s g tick
    by (cases pc) (auto simp: bp_good_def bp_step_def split: if_splits prod.splits option.splits elim!: cpp_bind.elims)
qed

lemma pipe_step_small:
  assumes inv: "pipe_inv s" and s: "pipe_small s" and a: "\<And>t. a = FeedPush t \<Longrightarrow> small t" and st: "pipe_step a s = Value s'"
  shows "pipe_small s'"
proof (cases a)
  case (FeedPush t)
  have "ring_ok (q1 s)" using pipe_goodD(1) [OF inv] by (simp add: parser_good_def)
  then show ?thesis using FeedPush st s a push_set [of "q1 s" t] by (fastforce simp: pipe_small_def split: if_splits prod.splits)
next
  case ParserStep
  then obtain pc x k where m: "parser_micro (2 \<le> pl_ctl s) (pl_parser_pc s) (parser_view s) = Value (pc, x, k)"
    using st by (cases "parser_micro (2 \<le> pl_ctl s) (pl_parser_pc s) (parser_view s)") auto
  have "\<forall>t \<in> set (ring_items (tp_input x)) \<union> set (ring_items (tp_output x)) \<union> hand pc. small t"
    by (rule parser_micro_small [OF pipe_goodD(1) [OF inv] m]) (use s in \<open>auto simp: pipe_small_def\<close>)
  then show ?thesis using ParserStep st s m by (auto simp: pipe_small_def)
next
  case NormStep
  then obtain pc x k where m: "norm_micro (3 \<le> pl_ctl s) (pl_norm_pc s) (norm_view s) = Value (pc, x, k)"
    using st by (cases "norm_micro (3 \<le> pl_ctl s) (pl_norm_pc s) (norm_view s)") auto
  have "\<forall>t \<in> set (ring_items (nz_input x)) \<union> set (ring_items (nz_output x)) \<union> hand pc. small t"
    by (rule norm_micro_small [OF pipe_goodD(2) [OF inv] m]) (use s in \<open>auto simp: pipe_small_def\<close>)
  then show ?thesis using NormStep st s m by (auto simp: pipe_small_def)
next
  case BookStep
  then obtain pc x k where m: "book_micro (4 \<le> pl_ctl s) (pl_book_pc s) (book_view s) = Value (pc, x, k)"
    using st by (cases "book_micro (4 \<le> pl_ctl s) (pl_book_pc s) (book_view s)") auto
  have "books_small (book_view s)" using s by (simp add: pipe_small_def books_small_def book_view_def)
  then show ?thesis using book_micro_small [OF pipe_goodD(3) [OF inv] m] BookStep st s m by (auto simp: pipe_small_def)
next
  case DbTake
  have q: "queue_ok (db_queue (pl_book s))" using pipe_goodD(3) [OF inv] by (simp add: bp_good_def bp_inv_def book_view_def)
  from queue_all_pop [OF q, of wf_snapshot 1] show ?thesis using DbTake st s by (auto simp: pipe_small_def books_small_def)
next
  case SignalTake
  have q: "queue_ok (signal_queue (pl_book s))" using pipe_goodD(3) [OF inv] by (simp add: bp_good_def bp_inv_def book_view_def)
  from queue_all_pop [OF q, of wf_snapshot 1] show ?thesis using SignalTake st s by (auto simp: pipe_small_def books_small_def)
qed (use st s in \<open>auto simp: pipe_small_def main_step_def split: if_splits\<close>)

end
