(* ===== verification/PostgresFeedReader.thy ===== *)
theory PostgresFeedReader
  imports FeedSimulator
begin

text \<open>
  The other feed of the pipeline, \<open>feed/PostgresFeedReader\<close>: polls a table for rows newer than a
  watermark and publishes them as ticks. The database is a parameter: an observation of the
  stop flag carries whether the connection can be opened and what each query returns while it
  is the latest one, together with the clock readings of the ticks. A query may fail, the
  connection may break, and the conversion of a field may throw in the middle of a result.
  Logging is left out.
\<close>

record pg_row =
  pr_price :: double
  pr_volume :: double
  pr_epoch :: double

text \<open>The rows of a result; \<open>None\<close> is a row whose conversion throws.\<close>

datatype query_result =
    Rows "(pg_row option \<times> i64) list"
  | Broken_connection
  | Query_error

record pg_obs =
  po_stop :: bool
  po_connect :: bool
  po_query :: "string \<Rightarrow> double \<Rightarrow> query_result"
  po_pops :: nat

record PostgresFeedReader =
  pg_config :: FeedConfig
  pg_output :: "MarketTick ring"
  pg_published :: u64
  pg_dropped :: u64

definition new_pg_reader :: "FeedConfig \<Rightarrow> MarketTick ring \<Rightarrow> PostgresFeedReader" where
  "new_pg_reader config output = \<lparr>pg_config = config, pg_output = output, pg_published = 0, pg_dropped = 0\<rparr>"

datatype poll_outcome = Polled | Lost_connection | Failed

text \<open>\<open>interruptible_sleep\<close>: the remaining time in milliseconds; each slice starts with a read of the flag.\<close>

fun interruptible_sleep :: "int \<Rightarrow> int \<Rightarrow> pg_obs list \<Rightarrow> pg_obs list option" where
  "interruptible_sleep sl remaining [] = (if remaining \<le> 0 then Some [] else None)"
| "interruptible_sleep sl remaining (ob # obs) =
     (if remaining \<le> 0 then Some (ob # obs)
      else if po_stop ob then Some obs
      else interruptible_sleep sl (remaining - sl) obs)"

definition pg_publish :: "string \<Rightarrow> pg_row \<Rightarrow> i64 \<Rightarrow> PostgresFeedReader \<Rightarrow> PostgresFeedReader" where
  "pg_publish symb row now pg = (case try_push (pg_output pg) (make_tick symb (pr_price row) (pr_volume row) 2 now) of
      (True, q) \<Rightarrow> pg\<lparr>pg_output := q, pg_published := pg_published pg + 1\<rparr>
    | (False, q) \<Rightarrow> pg\<lparr>pg_output := q, pg_dropped := pg_dropped pg + 1\<rparr>)"

fun poll_rows :: "string \<Rightarrow> (pg_row option \<times> i64) list \<Rightarrow> double \<Rightarrow> PostgresFeedReader
    \<Rightarrow> poll_outcome \<times> double \<times> PostgresFeedReader" where
  "poll_rows symb [] last_seen pg = (Polled, last_seen, pg)"
| "poll_rows symb ((None, now) # rows) last_seen pg = (Failed, last_seen, pg)"
| "poll_rows symb ((Some row, now) # rows) last_seen pg =
     poll_rows symb rows (dmax last_seen (pr_epoch row)) (pg_publish symb row now pg)"

definition poll_symbol :: "(string \<Rightarrow> double \<Rightarrow> query_result) \<Rightarrow> string \<Rightarrow> double \<Rightarrow> PostgresFeedReader
    \<Rightarrow> poll_outcome \<times> double \<times> PostgresFeedReader" where
  "poll_symbol query symb last_seen pg = (case query symb last_seen of
      Rows rows \<Rightarrow> poll_rows symb rows last_seen pg
    | Broken_connection \<Rightarrow> (Lost_connection, last_seen, pg)
    | Query_error \<Rightarrow> (Failed, last_seen, pg))"

text \<open>The loop over the symbols, which ends early at a stop and by an exception.\<close>

fun poll_symbols :: "string list \<Rightarrow> pg_obs list \<Rightarrow> double \<Rightarrow> PostgresFeedReader
    \<Rightarrow> (poll_outcome \<times> double \<times> PostgresFeedReader \<times> pg_obs list) option" where
  "poll_symbols [] obs last_seen pg = Some (Polled, last_seen, pg, obs)"
| "poll_symbols (symb # symbs) [] last_seen pg = None"
| "poll_symbols (symb # symbs) (ob # obs) last_seen pg =
     (if po_stop ob then Some (Polled, last_seen, pg, obs)
      else (case poll_symbol (po_query ob) symb last_seen (pg\<lparr>pg_output := env_pop (po_pops ob) (pg_output pg)\<rparr>) of
              (Polled, last', pg') \<Rightarrow> poll_symbols symbs obs last' pg'
            | (out, last', pg') \<Rightarrow> Some (out, last', pg', obs)))"

lemma interruptible_sleep_rest: "interruptible_sleep sl r obs = Some rest \<Longrightarrow> length rest \<le> length obs"
  by (induction sl r obs rule: interruptible_sleep.induct) (auto split: if_splits)

lemma poll_symbols_rest: "poll_symbols symbs obs l pg = Some (out, l', pg', rest) \<Longrightarrow> length rest \<le> length obs"
proof (induction symbs arbitrary: obs l pg)
  case (Cons symb symbs)
  then show ?case by (cases obs) (fastforce split: if_splits prod.splits poll_outcome.splits dest!: Cons.IH)+
qed simp

text \<open>The loop over the polls of one connection; it ends at a stop or when the connection breaks.\<close>

function pg_inner :: "pg_obs list \<Rightarrow> double \<Rightarrow> PostgresFeedReader \<Rightarrow> (double \<times> PostgresFeedReader \<times> pg_obs list) option" where
  "pg_inner [] last_seen pg = None"
| "pg_inner (ob # obs) last_seen pg =
     (if po_stop ob then Some (last_seen, pg, obs)
      else (case poll_symbols (fc_symbols (pg_config pg)) obs last_seen pg of
              None \<Rightarrow> None
            | Some (out, last', pg', rest) \<Rightarrow>
                (if out = Lost_connection then Some (last', pg', rest)
                 else (case interruptible_sleep 100 2000 rest of
                         None \<Rightarrow> None
                       | Some rest' \<Rightarrow> pg_inner rest' last' pg'))))"
  by pat_completeness auto
termination
  by (relation "measure (\<lambda>(obs, l, pg). length obs)") (auto dest!: poll_symbols_rest interruptible_sleep_rest)

lemma pg_inner_rest: "pg_inner obs l pg = Some (l', pg', rest) \<Longrightarrow> obs \<noteq> [] \<and> length rest < length obs"
proof (induction "length obs" arbitrary: obs l pg rule: less_induct)
  case less
  show ?case
  proof (cases obs)
    case (Cons ob os)
    show ?thesis
    proof (cases "po_stop ob")
      case False
      then obtain out l1 pg1 r1 where p: "poll_symbols (fc_symbols (pg_config pg)) os l pg = Some (out, l1, pg1, r1)"
        using less.prems Cons by (auto split: option.splits)
      note len = poll_symbols_rest [OF p]
      show ?thesis
      proof (cases "out = Lost_connection")
        case True
        then show ?thesis using less.prems Cons False p len by auto
      next
        case out: False
        then obtain r2 where r2: "interruptible_sleep 100 2000 r1 = Some r2" "pg_inner r2 l1 pg1 = Some (l', pg', rest)"
          using less.prems Cons False p by (auto split: option.splits)
        then show ?thesis using less.hyps [of r2 l1 pg1] interruptible_sleep_rest [OF r2(1)] len Cons by auto
      qed
    qed (use less.prems Cons in auto)
  qed (use less.prems in simp)
qed

text \<open>The loop over the connections.\<close>

function pg_outer :: "pg_obs list \<Rightarrow> double \<Rightarrow> PostgresFeedReader \<Rightarrow> PostgresFeedReader option" where
  "pg_outer [] last_seen pg = None"
| "pg_outer (ob # obs) last_seen pg =
     (if po_stop ob then Some pg
      else if po_connect ob then
        (case pg_inner obs last_seen pg of
           None \<Rightarrow> None
         | Some (last', pg', rest) \<Rightarrow> pg_outer rest last' pg')
      else (case interruptible_sleep 100 5000 obs of
              None \<Rightarrow> None
            | Some rest \<Rightarrow> pg_outer rest last_seen pg))"
  by pat_completeness auto
termination
  by (relation "measure (\<lambda>(obs, l, pg). length obs)") (auto dest!: pg_inner_rest interruptible_sleep_rest)

definition pg_run :: "pg_obs list \<Rightarrow> PostgresFeedReader \<Rightarrow> PostgresFeedReader option" where
  "pg_run obs pg = pg_outer obs (Fin 0) pg"

section \<open>Termination\<close>

lemma sleep_returns:
  "persists po_stop obs \<Longrightarrow> 1 \<le> flags po_stop obs \<Longrightarrow> \<exists>rest. interruptible_sleep sl r obs = Some rest \<and> leaves po_stop 1 obs rest"
proof (induction sl r obs rule: interruptible_sleep.induct)
  case (2 sl r ob obs)
  then show ?case using leaves_refl [of po_stop 1 "ob # obs"] leaves_stop [of po_stop ob obs 0] leaves_Cons [of po_stop ob 1 obs]
    by (cases "r \<le> 0"; cases "po_stop ob") auto
qed simp

lemma poll_returns:
  "persists po_stop obs \<Longrightarrow> 1 \<le> flags po_stop obs \<Longrightarrow> \<exists>out l' pg' rest. poll_symbols symbs obs l pg = Some (out, l', pg', rest) \<and> leaves po_stop 1 obs rest"
proof (induction symbs arbitrary: obs l pg)
  case Nil
  then show ?case by (simp add: leaves_refl)
next
  case (Cons symb symbs)
  then obtain ob os where obs: "obs = ob # os" by (cases obs) auto
  show ?case
  proof (cases "po_stop ob")
    case True
    then show ?thesis using obs Cons.prems leaves_stop [of po_stop ob os 0] by simp
  next
    case False
    then have os: "persists po_stop os" "1 \<le> flags po_stop os" using obs Cons.prems by auto
    obtain out l1 pg1 where p: "poll_symbol (po_query ob) symb l (pg\<lparr>pg_output := env_pop (po_pops ob) (pg_output pg)\<rparr>) = (out, l1, pg1)"
      by (metis prod_cases3)
    show ?thesis using Cons.IH [OF os, of l1 pg1] p obs False leaves_Cons [of po_stop, OF False] leaves_refl [of po_stop 1 os]
      by (cases out) auto
  qed
qed

text \<open>One round of the inner loop: all symbols, then the pause.\<close>

lemma round_returns:
  assumes "persists po_stop obs" "2 \<le> flags po_stop obs"
  obtains out l1 pg1 r1 r2 where "poll_symbols symbs obs l pg = Some (out, l1, pg1, r1)" "leaves po_stop 1 obs r1"
    "interruptible_sleep 100 2000 r1 = Some r2" "leaves po_stop 2 obs r2"
proof -
  obtain out l1 pg1 r1 where p: "poll_symbols symbs obs l pg = Some (out, l1, pg1, r1)" "leaves po_stop 1 obs r1"
    using poll_returns [OF assms(1) le_trans [OF one_le_numeral assms(2)]] by blast
  have r1: "persists po_stop r1" "1 \<le> flags po_stop r1" using p(2) assms persists_suffix by (auto simp: leaves_def)
  obtain r2 where r2: "interruptible_sleep 100 2000 r1 = Some r2" "leaves po_stop 1 r1 r2" using sleep_returns [OF r1] by blast
  then show thesis using that p leaves_trans [OF p(2) r2(2)] by (simp add: numeral_2_eq_2)
qed

lemma inner_returns:
  "persists po_stop obs \<Longrightarrow> 3 \<le> flags po_stop obs \<Longrightarrow> \<exists>l' pg' rest. pg_inner obs l pg = Some (l', pg', rest) \<and> leaves po_stop 3 obs rest"
proof (induction "length obs" arbitrary: obs l pg rule: less_induct)
  case less
  obtain ob os where obs: "obs = ob # os" using less.prems(2) by (cases obs) auto
  show ?case
  proof (cases "po_stop ob")
    case True
    then show ?thesis using obs less.prems leaves_stop [of po_stop ob os 2] by (simp add: numeral_3_eq_3)
  next
    case False
    note skip = leaves_Cons [of po_stop, OF False, of 3 os]
    have os: "persists po_stop os" "3 \<le> flags po_stop os" "2 < flags po_stop os" using less.prems obs False by auto
    obtain out l1 pg1 r1 r2 where p: "poll_symbols (fc_symbols (pg_config pg)) os l pg = Some (out, l1, pg1, r1)" "leaves po_stop 1 os r1"
      and r2: "interruptible_sleep 100 2000 r1 = Some r2" "leaves po_stop 2 os r2"
      using round_returns [OF os(1) order_less_imp_le [OF os(3)]] by metis
    note again = leaves_again [OF os(1,3) r2(2)]
    show ?thesis
    proof (cases "out = Lost_connection")
      case True
      then show ?thesis using skip [OF leaves_mono [OF p(2)]] obs False p(1) by auto
    next
      case out: False
      then have e: "pg_inner obs l pg = pg_inner r2 l1 pg1" using obs False p(1) r2(1) by simp
      show ?thesis using again(3)
      proof
        assume no_stop: "flags po_stop r2 = flags po_stop os"
        then have "length r2 < length obs" "3 \<le> flags po_stop r2" using again(2) obs os(2) by auto
        from less.hyps [OF this(1) again(1) this(2)] obtain l' pg' rest
          where i: "pg_inner r2 l1 pg1 = Some (l', pg', rest)" "leaves po_stop 3 r2 rest" by blast
        have "leaves po_stop 3 os rest" using r2(2) i(2) no_stop by (auto simp: leaves_def intro: suffix_order.trans)
        then show ?thesis using e i(1) skip obs by auto
      qed (use e skip obs in \<open>auto simp: numeral_3_eq_3\<close>)
    qed
  qed
qed

lemma outer_returns: "persists po_stop obs \<Longrightarrow> 4 \<le> flags po_stop obs \<Longrightarrow> \<exists>pg'. pg_outer obs l pg = Some pg'"
proof (induction "length obs" arbitrary: obs l pg rule: less_induct)
  case less
  obtain ob os where obs: "obs = ob # os" using less.prems(2) by (cases obs) auto
  show ?case
  proof (cases "po_stop ob")
    case False
    have os: "persists po_stop os" "4 \<le> flags po_stop os" "3 < flags po_stop os" using less.prems obs False by auto
    have next_round: "\<exists>pg'. pg_outer r l1 pg1 = Some pg'" if lv: "leaves po_stop 3 os r" for r l1 pg1
      using leaves_again [OF os(1,3) lv] less.hyps [of r l1 pg1] os(2) obs by auto
    show ?thesis
    proof (cases "po_connect ob")
      case True
      have "3 \<le> flags po_stop os" using os(2) by simp
      then obtain l1 pg1 r where "pg_inner os l pg = Some (l1, pg1, r)" "leaves po_stop 3 os r" using inner_returns [OF os(1)] by blast
      then show ?thesis using next_round obs False True by simp
    next
      case disc: False
      obtain r where "interruptible_sleep 100 5000 os = Some r" "leaves po_stop 1 os r"
        using sleep_returns [OF os(1)] os(2) by (metis le_trans one_le_numeral)
      moreover from this(2) have "leaves po_stop 3 os r" by (auto simp: leaves_def)
      ultimately show ?thesis using next_round obs False disc by simp
    qed
  qed (use obs in simp)
qed

section \<open>What is published\<close>

text \<open>
  A database that answers: for each symbol the table holds the rows of source 1 in the order of
  their time, and a query returns the first 50 of those that are newer than the watermark, each
  convertible; \<open>clk\<close> is the clock reading with which the tick of a row is made.
\<close>

definition select_rows :: "(string \<Rightarrow> pg_row list) \<Rightarrow> string \<Rightarrow> double \<Rightarrow> pg_row list" where
  "select_rows tbl symb l = take 50 (filter (\<lambda>r. dlt l (pr_epoch r)) (tbl symb))"

definition answers :: "(string \<Rightarrow> pg_row list) \<Rightarrow> (pg_row \<Rightarrow> i64) \<Rightarrow> (string \<Rightarrow> double \<Rightarrow> query_result) \<Rightarrow> bool" where
  "answers tbl clk query \<longleftrightarrow> (\<forall>symb l. query symb l = Rows (map (\<lambda>r. (Some r, clk r)) (select_rows tbl symb l)))"

definition row_tick :: "string \<Rightarrow> (pg_row \<Rightarrow> i64) \<Rightarrow> pg_row \<Rightarrow> MarketTick" where
  "row_tick symb clk r = make_tick symb (pr_price r) (pr_volume r) 2 (clk r)"

definition watermark :: "double \<Rightarrow> pg_row list \<Rightarrow> double" where
  "watermark l rs = foldl (\<lambda>m r. dmax m (pr_epoch r)) l rs"

definition publish_rows :: "string \<Rightarrow> (pg_row \<Rightarrow> i64) \<Rightarrow> pg_row list \<Rightarrow> PostgresFeedReader \<Rightarrow> PostgresFeedReader" where
  "publish_rows symb clk rs pg = fold (\<lambda>r. pg_publish symb r (clk r)) rs pg"

lemma poll_rows_all:
  "poll_rows symb (map (\<lambda>r. (Some r, clk r)) rs) l pg = (Polled, watermark l rs, publish_rows symb clk rs pg)"
  by (induction rs arbitrary: l pg) (simp_all add: watermark_def publish_rows_def)

lemma poll_symbol_answers:
  "answers tbl clk query \<Longrightarrow> poll_symbol query symb l pg =
     (Polled, watermark l (select_rows tbl symb l), publish_rows symb clk (select_rows tbl symb l) pg)"
  by (simp add: poll_symbol_def answers_def poll_rows_all)

text \<open>One pass over the symbols of an answering database, and the schedule of \<open>k\<close> undisturbed passes.\<close>

fun pass :: "(string \<Rightarrow> pg_row list) \<Rightarrow> (pg_row \<Rightarrow> i64) \<Rightarrow> string list \<Rightarrow> double \<times> PostgresFeedReader \<Rightarrow> double \<times> PostgresFeedReader" where
  "pass tbl clk [] s = s"
| "pass tbl clk (symb # symbs) (l, pg) = pass tbl clk symbs
     (watermark l (select_rows tbl symb l), publish_rows symb clk (select_rows tbl symb l) pg)"

definition passes_schedule :: "nat \<Rightarrow> nat \<Rightarrow> (string \<Rightarrow> double \<Rightarrow> query_result) \<Rightarrow> pg_obs list" where
  "passes_schedule k n query =
     (let ob = \<lparr>po_stop = False, po_connect = True, po_query = query, po_pops = 0\<rparr>
      in ob # concat (replicate k (replicate (Suc n) ob @ replicate 20 ob)) @ replicate 2 (ob\<lparr>po_stop := True\<rparr>))"

lemma pg_publish_config: "pg_config (pg_publish symb r now pg) = pg_config pg"
  by (simp add: pg_publish_def split: prod.splits bool.splits)

lemma publish_rows_config: "pg_config (publish_rows symb clk rs pg) = pg_config pg"
  by (induction rs arbitrary: pg) (simp_all add: publish_rows_def pg_publish_config)

lemma pass_config: "pg_config (snd (pass tbl clk symbs s)) = pg_config (snd s)"
  by (induction tbl clk symbs s rule: pass.induct) (simp_all add: publish_rows_config)

lemma poll_symbols_pass:
  assumes "answers tbl clk (po_query ob)" "\<not> po_stop ob" "po_pops ob = 0"
  shows "poll_symbols symbs (replicate (length symbs) ob @ rest) l pg =
     Some (Polled, fst (pass tbl clk symbs (l, pg)), snd (pass tbl clk symbs (l, pg)), rest)"
  by (induction symbs arbitrary: l pg) (simp_all add: assms poll_symbol_answers [OF assms(1)])

lemma sleep_slices: "\<not> po_stop ob \<Longrightarrow> interruptible_sleep 100 (100 * int n) (replicate n ob @ rest) = Some rest"
  by (induction n) (cases rest, auto simp: algebra_simps)

lemma inner_passes:
  assumes "answers tbl clk (po_query ob)" "\<not> po_stop ob" "po_pops ob = 0" "fc_symbols (pg_config pg) = symbs" "po_stop stp"
  shows "pg_inner (concat (replicate k (replicate (Suc (length symbs)) ob @ replicate 20 ob)) @ stp # rest) l pg =
     Some (fst ((pass tbl clk symbs ^^ k) (l, pg)), snd ((pass tbl clk symbs ^^ k) (l, pg)), rest)"
  using assms(4)
proof (induction k arbitrary: l pg)
  case 0
  then show ?case using assms(5) by simp
next
  case (Suc k)
  let ?t = "concat (replicate k (replicate (Suc (length symbs)) ob @ replicate 20 ob)) @ stp # rest"
  define l1 pg1 where "l1 = fst (pass tbl clk symbs (l, pg))" and "pg1 = snd (pass tbl clk symbs (l, pg))"
  have poll: "poll_symbols symbs (replicate (length symbs) ob @ replicate 20 ob @ ?t) l pg = Some (Polled, l1, pg1, replicate 20 ob @ ?t)"
    unfolding l1_def pg1_def by (rule poll_symbols_pass [OF assms(1-3)])
  have sleep: "interruptible_sleep 100 2000 (replicate 20 ob @ ?t) = Some ?t"
    using sleep_slices [OF assms(2), of 20 ?t] by simp
  have "fc_symbols (pg_config pg1) = symbs" using Suc.prems by (simp add: pg1_def pass_config)
  from Suc.IH [OF this, of l1] have IH: "pg_inner ?t l1 pg1 =
      Some (fst ((pass tbl clk symbs ^^ k) (l1, pg1)), snd ((pass tbl clk symbs ^^ k) (l1, pg1)), rest)" .
  have cat: "concat (replicate (Suc k) (replicate (Suc (length symbs)) ob @ replicate 20 ob)) @ stp # rest =
      ob # replicate (length symbs) ob @ replicate 20 ob @ ?t" by simp
  have "pg_inner (ob # replicate (length symbs) ob @ replicate 20 ob @ ?t) l pg = pg_inner ?t l1 pg1"
    using assms(2) Suc.prems poll sleep by (simp only: pg_inner.simps) simp
  then show ?case unfolding cat using IH by (simp add: funpow_swap1 l1_def pg1_def)
qed

lemma run_passes:
  assumes "answers tbl clk query" "fc_symbols (pg_config pg) = symbs"
  shows "pg_run (passes_schedule k (length symbs) query) pg = Some (snd ((pass tbl clk symbs ^^ k) (Fin 0, pg)))"
proof -
  define ob where "ob = \<lparr>po_stop = False, po_connect = True, po_query = query, po_pops = 0\<rparr>"
  have "passes_schedule k (length symbs) query = ob #
      concat (replicate k (replicate (Suc (length symbs)) ob @ replicate 20 ob)) @ ob\<lparr>po_stop := True\<rparr> # [ob\<lparr>po_stop := True\<rparr>]"
    by (simp add: passes_schedule_def ob_def Let_def numeral_2_eq_2)
  moreover have "pg_inner (concat (replicate k (replicate (Suc (length symbs)) ob @ replicate 20 ob)) @ ob\<lparr>po_stop := True\<rparr> # [ob\<lparr>po_stop := True\<rparr>])
      (Fin 0) pg = Some (fst ((pass tbl clk symbs ^^ k) (Fin 0, pg)), snd ((pass tbl clk symbs ^^ k) (Fin 0, pg)), [ob\<lparr>po_stop := True\<rparr>])"
    by (rule inner_passes) (use assms in \<open>simp_all add: ob_def\<close>)
  ultimately show ?thesis by (simp only: pg_run_def pg_outer.simps) (simp add: ob_def)
qed

lemma publish_rows_room:
  "ring_ok (pg_output pg) \<Longrightarrow> length (ring_items (pg_output pg)) + length rs \<le> ring_cap (pg_output pg) \<Longrightarrow>
     ring_items (pg_output (publish_rows symb clk rs pg)) = ring_items (pg_output pg) @ map (row_tick symb clk) rs \<and>
     pg_published (publish_rows symb clk rs pg) = pg_published pg + of_nat (length rs) \<and>
     pg_dropped (publish_rows symb clk rs pg) = pg_dropped pg"
proof (induction rs arbitrary: pg)
  case (Cons r rs)
  from Cons.prems(1) show ?case
  proof (cases rule: rb.push_cases [of _ "row_tick symb clk r"])
    case full
    then show ?thesis using Cons.prems(2) by simp
  next
    case (room q)
    then have e: "pg_publish symb r (clk r) pg = pg\<lparr>pg_output := q, pg_published := pg_published pg + 1\<rparr>"
      by (simp add: pg_publish_def row_tick_def)
    have "length (ring_items q) + length rs \<le> ring_cap q" using Cons.prems(2) room by (simp del: length_ring_items)
    then show ?thesis using Cons.IH [of "pg_publish symb r (clk r) pg"] room
      by (simp add: publish_rows_def e del: length_ring_items)
  qed
qed (simp add: publish_rows_def)

definition rows_ok :: "pg_row list \<Rightarrow> bool" where
  "rows_ok rs \<longleftrightarrow> sorted_wrt (\<lambda>a b. dlt (pr_epoch a) (pr_epoch b)) rs \<and> (\<forall>r \<in> set rs. dlt (Fin 0) (pr_epoch r))"

lemma watermark_bounds:
  assumes "\<forall>r \<in> set rs. dlt (Fin 0) (pr_epoch r)"
  shows "watermark (Fin 0) rs \<in> insert (Fin 0) (pr_epoch ` set rs) \<and> (\<forall>r \<in> set rs. \<not> dlt (watermark (Fin 0) rs) (pr_epoch r))"
  using assms
proof (induction rs rule: rev_induct)
  case (snoc x xs)
  have "watermark (Fin 0) (xs @ [x]) = dmax (watermark (Fin 0) xs) (pr_epoch x)" by (simp add: watermark_def)
  then show ?case using snoc by (auto simp: dmax_def dlt_def)
qed (simp add: watermark_def)

lemma filter_watermark:
  assumes "rows_ok (xs @ ys)"
  shows "filter (\<lambda>r. dlt (watermark (Fin 0) xs) (pr_epoch r)) (xs @ ys) = ys"
proof -
  have "\<forall>r \<in> set xs. dlt (Fin 0) (pr_epoch r)" using assms by (simp add: rows_ok_def)
  note w = watermark_bounds [OF this]
  have "dlt (watermark (Fin 0) xs) (pr_epoch y)" if "y \<in> set ys" for y
    using w that assms by (auto simp: rows_ok_def sorted_wrt_append)
  then show ?thesis using w by (simp add: filter_empty_conv filter_id_conv)
qed

lemma passes_single:
  assumes "rows_ok (tbl symb)"
  shows "(pass tbl clk [symb] ^^ k) (Fin 0, pg) =
     (watermark (Fin 0) (take (50 * k) (tbl symb)), publish_rows symb clk (take (50 * k) (tbl symb)) pg)"
proof (induction k)
  case 0
  then show ?case by (simp add: watermark_def publish_rows_def)
next
  case (Suc k)
  have "rows_ok (take (50 * k) (tbl symb) @ drop (50 * k) (tbl symb))" using assms by simp
  from filter_watermark [OF this]
  have sel: "select_rows tbl symb (watermark (Fin 0) (take (50 * k) (tbl symb))) = take 50 (drop (50 * k) (tbl symb))"
    by (simp add: select_rows_def)
  have "take (50 * Suc k) (tbl symb) = take (50 * k) (tbl symb) @ take 50 (drop (50 * k) (tbl symb))"
    by (metis add.commute mult_Suc_right take_add)
  then show ?case using Suc.IH by (simp add: sel) (simp add: watermark_def publish_rows_def)
qed

text \<open>Once the watermark has passed every row, a pass publishes nothing.\<close>

lemma pass_exhausted:
  "\<forall>symb \<in> set symbs. \<forall>r \<in> set (tbl symb). \<not> dlt l (pr_epoch r) \<Longrightarrow> pass tbl clk symbs (l, pg) = (l, pg)"
  by (induction symbs) (simp_all add: select_rows_def filter_False watermark_def publish_rows_def)

lemma passes_exhausted:
  "\<forall>symb \<in> set symbs. \<forall>r \<in> set (tbl symb). \<not> dlt l (pr_epoch r) \<Longrightarrow> (pass tbl clk symbs ^^ k) (l, pg) = (l, pg)"
  by (induction k) (simp_all add: pass_exhausted)

section \<open>A concrete database\<close>

definition demo_row :: "rat \<Rightarrow> pg_row" where
  "demo_row e = \<lparr>pr_price = Fin 100, pr_volume = Fin 5, pr_epoch = Fin e\<rparr>"

definition demo_tbl :: "string \<Rightarrow> pg_row list" where
  "demo_tbl symb = (if symb = ''AAPL'' then [demo_row 200] else if symb = ''MSFT'' then [demo_row 100] else [])"

definition demo_query :: "string \<Rightarrow> double \<Rightarrow> query_result" where
  "demo_query symb l = Rows (map (\<lambda>r. (Some r, 7)) (select_rows demo_tbl symb l))"

definition demo_pg :: "string list \<Rightarrow> PostgresFeedReader" where
  "demo_pg symbs = new_pg_reader (default_config\<lparr>fc_symbols := symbs\<rparr>) (filled_ring 2 zero_tick [])"

definition demo_pg_stop :: pg_obs where
  "demo_pg_stop = \<lparr>po_stop = True, po_connect = False, po_query = demo_query, po_pops = 0\<rparr>"

lemma demo_answers: "answers demo_tbl (\<lambda>_. 7) demo_query"
  by (simp add: answers_def demo_query_def)

section \<open>Properties\<close>

text \<open>
  C28. \<open>PostgresFeedReader::run\<close> returns once a stop is requested, whatever the database does: connections
  that fail or break, queries that fail, and all sleeps included. Four reads of the set flag
  are enough (in the symbol loop, the sleep and the two loops).
\<close>

theorem pg_run_returns:
  assumes "persists po_stop obs" and "4 \<le> flags po_stop obs"
  shows "\<exists>pg'. pg_run obs pg = Some pg'"
  using outer_returns [OF assms] by (simp add: pg_run_def)

theorem pg_run_returns_witness:
  "\<exists>pg'. pg_run (demo_pg_stop\<lparr>po_stop := False\<rparr> # replicate 4 demo_pg_stop) (demo_pg [''AAPL'']) = Some pg'"
  by (rule pg_run_returns) (simp_all add: demo_pg_stop_def persists_def flags_def eval_nat_numeral)



text \<open>
  C36. With several symbols the reader is not complete, because they share one watermark: a row of the
  second symbol that is not newer than the row of the first is never published, however often
  the thread polls, although it was never seen before.
\<close>

theorem pg_shared_watermark_skips:
  assumes "answers tbl clk query" and "fc_symbols (pg_config pg) = [a, b]" and "tbl a = [ra]" and "tbl b = [rb]"
    and "pr_epoch ra = Fin x" and "pr_epoch rb = Fin y" and "0 < y" and "y \<le> x" and "0 < k"
    and "ring_ok (pg_output pg)" and "length (ring_items (pg_output pg)) < ring_cap (pg_output pg)"
  shows "\<exists>pg'. pg_run (passes_schedule k 2 query) pg = Some pg' \<and>
     ring_items (pg_output pg') = ring_items (pg_output pg) @ [row_tick a clk ra] \<and> pg_published pg' = pg_published pg + 1"
proof -
  obtain j where k: "k = Suc j" using assms(9) by (cases k) auto
  define pg1 where "pg1 = publish_rows a clk [ra] pg"
  have first: "pass tbl clk [a, b] (Fin 0, pg) = (Fin x, pg1)"
    using assms(3-8) by (simp add: select_rows_def watermark_def dmax_def pg1_def publish_rows_def)
  have "(pass tbl clk [a, b] ^^ j) (Fin x, pg1) = (Fin x, pg1)"
    using assms(3-8) by (intro passes_exhausted) auto
  then have "(pass tbl clk [a, b] ^^ k) (Fin 0, pg) = (Fin x, pg1)" by (simp only: k funpow_Suc_right comp_apply first)
  moreover have "ring_items (pg_output pg1) = ring_items (pg_output pg) @ [row_tick a clk ra]" "pg_published pg1 = pg_published pg + 1"
    using publish_rows_room [OF assms(10), of "[ra]" a clk] assms(11) by (simp_all add: pg1_def del: length_ring_items)
  ultimately show ?thesis using run_passes [OF assms(1,2), of k] by (simp add: numeral_2_eq_2)
qed

theorem pg_shared_watermark_skips_witness:
  "\<exists>pg'. pg_run (passes_schedule 3 2 demo_query) (demo_pg [''AAPL'', ''MSFT'']) = Some pg' \<and>
     ring_items (pg_output pg') = [make_tick ''AAPL'' (Fin 100) (Fin 5) 2 7]"
proof -
  have t: "demo_tbl ''AAPL'' = [demo_row 200]" "demo_tbl ''MSFT'' = [demo_row 100]" by (simp_all add: demo_tbl_def)
  have e: "pr_epoch (demo_row 200) = Fin 200" "pr_epoch (demo_row 100) = Fin 100" by (simp_all add: demo_row_def)
  have "fc_symbols (pg_config (demo_pg [''AAPL'', ''MSFT''])) = [''AAPL'', ''MSFT'']" by (simp add: demo_pg_def new_pg_reader_def)
  from pg_shared_watermark_skips [OF demo_answers this t e, of 3] show ?thesis
    by (auto simp: demo_pg_def new_pg_reader_def row_tick_def demo_row_def simp del: length_ring_items)
qed

end
