(* ===== verification/FeedSteps.thy ===== *)
theory FeedSteps
  imports PipelineData PostgresFeedReader
begin

text \<open>
  The two feeds as sequences of steps, so that they can be put in front of the pipeline as real threads. A step reads the stop
  flag, generates a tick, asks the database, or makes one push to the ring. As for the other threads the steps are shown to be the
  thread functions, \<open>feed_run\<close> and \<open>pg_run\<close>. Both feeds fulfil one contract (locale \<open>feed_thread\<close>): whatever they do to the first ring of
  the pipeline is pushing ticks that the pipeline can take, and they end only after a stop.
\<close>

section \<open>Steps of the simulator\<close>

text \<open>At the head of the loop, before generating the tick of a symbol, before pushing it, or ended.\<close>

datatype sim_pc = S_head | S_symbol nat | S_push nat MarketTick | S_done

definition sim_start :: "FeedSimulator \<Rightarrow> sim_pc" where
  "sim_start fs = (if fc_tick_rate_hz (fs_config fs) = 0 \<or> fc_symbols (fs_config fs) = [] then S_done else S_head)"

fun sim_micro :: "noise \<Rightarrow> i64 \<Rightarrow> bool \<Rightarrow> sim_pc \<times> FeedSimulator \<Rightarrow> sim_pc \<times> FeedSimulator" where
  "sim_micro n now stop (S_head, fs) = (if stop then S_done else S_symbol 0, fs)"
| "sim_micro n now stop (S_symbol i, fs) =
     (if i < length (fc_symbols (fs_config fs))
      then (case generate_tick n now i fs of (t, fs1) \<Rightarrow> (S_push i t, fs1))
      else (S_head, fs))"
| "sim_micro n now stop (S_push i t, fs) = (S_symbol (Suc i), publish_tick t fs)"
| "sim_micro n now stop (S_done, fs) = (S_done, fs)"

text \<open>A schedule for single steps: the flag, the sample, the clock and what the consumer takes before the step.\<close>

record sim_obs =
  so_stop :: bool
  so_noise :: noise
  so_clock :: i64
  so_pops :: nat

fun sim_steps :: "sim_obs list \<Rightarrow> sim_pc \<times> FeedSimulator \<Rightarrow> sim_pc \<times> FeedSimulator" where
  "sim_steps [] s = s"
| "sim_steps (ob # obs) (pc, fs) =
     (if pc = S_done then (pc, fs)
      else sim_steps obs (sim_micro (so_noise ob) (so_clock ob) (so_stop ob) (pc, fs\<lparr>fs_output := env_pop (so_pops ob) (fs_output fs)\<rparr>)))"

definition sim_outcome :: "sim_pc \<times> FeedSimulator \<Rightarrow> FeedSimulator option" where
  "sim_outcome s = (if fst s = S_done then Some (snd s) else None)"

text \<open>The steps of one round: the head, two steps per symbol, and the end of the loop over the symbols.\<close>

definition quiet :: "feed_obs \<Rightarrow> nat \<Rightarrow> nat \<Rightarrow> sim_obs" where
  "quiet ob i k = \<lparr>so_stop = fo_stop ob, so_noise = fo_noise ob i, so_clock = fo_clock ob i, so_pops = k\<rparr>"

definition symbol_obs :: "feed_obs \<Rightarrow> nat \<Rightarrow> sim_obs list" where
  "symbol_obs ob i = [quiet ob i 0, quiet ob i (fo_pops ob i)]"

definition round_obs :: "nat \<Rightarrow> feed_obs \<Rightarrow> sim_obs list" where
  "round_obs n ob = quiet ob 0 0 # concat (map (symbol_obs ob) [0..<n]) @ [quiet ob 0 0]"

lemma env_pop_0 [simp]: "env_pop 0 q = q"
  by (simp add: env_pop_def)

lemma sim_symbol_steps:
  "i < length (fc_symbols (fs_config fs)) \<Longrightarrow>
     sim_steps (symbol_obs ob i @ rest) (S_symbol i, fs) = sim_steps rest (S_symbol (Suc i), feed_symbol ob i fs)"
  by (simp add: symbol_obs_def quiet_def feed_symbol_def generate_tick_def Let_def split: prod.splits)

lemma sim_symbols_steps:
  "n = length (fc_symbols (fs_config fs)) \<Longrightarrow> i \<le> n \<Longrightarrow>
     sim_steps (concat (map (symbol_obs ob) [i..<n]) @ rest) (S_symbol i, fs) = sim_steps rest (S_symbol n, fold (feed_symbol ob) [i..<n] fs)"
proof (induction "n - i" arbitrary: i fs)
  case (Suc d)
  then have u: "[i..<n] = i # [Suc i..<n]" by (simp add: upt_rec)
  have "n = length (fc_symbols (fs_config (feed_symbol ob i fs)))" using Suc.prems(1) by (simp add: feed_symbol_fields)
  from Suc.hyps(1) [OF _ this] Suc.hyps(2) Suc.prems show ?case unfolding u by (simp add: sim_symbol_steps)
qed simp

lemma sim_round_steps:
  assumes "n = length (fc_symbols (fs_config fs))" and "\<not> fo_stop ob"
  shows "sim_steps (round_obs n ob @ rest) (S_head, fs) = sim_steps rest (S_head, feed_round ob fs)"
proof -
  have "fs_config (feed_round ob fs) = fs_config fs" by (rule feed_round_ok(2))
  then show ?thesis using assms sim_symbols_steps [OF assms(1), of 0 ob] by (simp add: round_obs_def feed_round_def quiet_def)
qed

lemma sim_loop_steps:
  "n = length (fc_symbols (fs_config fs)) \<Longrightarrow>
     feed_loop obs fs = sim_outcome (sim_steps (concat (map (round_obs n) obs)) (S_head, fs))"
proof (induction obs arbitrary: fs)
  case (Cons ob obs)
  show ?case
  proof (cases "fo_stop ob")
    case True
    have "sim_steps rest (S_done, x) = (S_done, x)" for rest x by (cases rest) simp_all
    then show ?thesis using True by (simp add: round_obs_def quiet_def sim_outcome_def)
  next
    case False
    then show ?thesis using Cons.IH [of "feed_round ob fs"] Cons.prems
      by (simp add: sim_round_steps feed_round_ok(2))
  qed
qed (simp add: sim_outcome_def)

lemma sim_run_steps:
  "feed_run obs fs = sim_outcome (sim_steps (concat (map (round_obs (length (fc_symbols (fs_config fs)))) obs)) (sim_start fs, fs))"
proof (cases "fc_tick_rate_hz (fs_config fs) = 0 \<or> fc_symbols (fs_config fs) = []")
  case True
  have "sim_steps rest (S_done, fs) = (S_done, fs)" for rest by (cases rest) simp_all
  then show ?thesis using True by (auto simp: feed_run_def sim_start_def sim_outcome_def)
next
  case False
  then show ?thesis using sim_loop_steps by (auto simp: feed_run_def sim_start_def)
qed

section \<open>Steps of the reader\<close>

text \<open>
  Where the reader is: before connecting, before a round of polls, before the query for the first of the remaining symbols, with the
  rest of the rows of a result, in a pause with the remaining time and the place where it goes on, or ended.
\<close>

datatype reader_pc = R_outer | R_inner | R_poll "string list" | R_rows string "(pg_row option \<times> i64) list" "string list" | R_sleep int reader_pc | R_done

definition reader_pause :: "int \<Rightarrow> reader_pc \<Rightarrow> reader_pc" where
  "reader_pause remaining back = (if remaining \<le> 0 then back else R_sleep remaining back)"

definition reader_next :: "string list \<Rightarrow> reader_pc" where
  "reader_next symbs = (if symbs = [] then reader_pause 2000 R_inner else R_poll symbs)"

definition reader_take :: "string \<Rightarrow> (pg_row option \<times> i64) list \<Rightarrow> string list \<Rightarrow> reader_pc" where
  "reader_take symb rows symbs = (if rows = [] then reader_next symbs else R_rows symb rows symbs)"

fun reader_micro :: "pg_obs \<Rightarrow> reader_pc \<Rightarrow> double \<Rightarrow> PostgresFeedReader \<Rightarrow> reader_pc \<times> double \<times> PostgresFeedReader" where
  "reader_micro ob R_outer l pg =
     (if po_stop ob then R_done else if po_connect ob then R_inner else reader_pause 5000 R_outer, l, pg)"
| "reader_micro ob R_inner l pg = (if po_stop ob then R_outer else reader_next (fc_symbols (pg_config pg)), l, pg)"
| "reader_micro ob (R_poll []) l pg = (reader_next [], l, pg)"
| "reader_micro ob (R_poll (symb # symbs)) l pg =
     (if po_stop ob then reader_pause 2000 R_inner
      else (case po_query ob symb l of
              Rows rows \<Rightarrow> reader_take symb rows symbs
            | Broken_connection \<Rightarrow> R_outer
            | Query_error \<Rightarrow> reader_pause 2000 R_inner), l, pg)"
| "reader_micro ob (R_rows symb [] symbs) l pg = (reader_next symbs, l, pg)"
| "reader_micro ob (R_rows symb ((None, now) # rows) symbs) l pg = (reader_pause 2000 R_inner, l, pg)"
| "reader_micro ob (R_rows symb ((Some row, now) # rows) symbs) l pg =
     (reader_take symb rows symbs, dmax l (pr_epoch row), pg_publish symb row now pg)"
| "reader_micro ob (R_sleep remaining back) l pg = (if po_stop ob then back else reader_pause (remaining - 100) back, l, pg)"
| "reader_micro ob R_done l pg = (R_done, l, pg)"

text \<open>On a schedule the pushes of the rows of a result belong to the observation of the query.\<close>

fun reader_settle :: "nat \<Rightarrow> pg_obs \<Rightarrow> reader_pc \<times> double \<times> PostgresFeedReader \<Rightarrow> reader_pc \<times> double \<times> PostgresFeedReader" where
  "reader_settle n ob (R_rows symb rows symbs, l, pg) =
     (case n of 0 \<Rightarrow> (R_rows symb rows symbs, l, pg) | Suc m \<Rightarrow> reader_settle m ob (reader_micro ob (R_rows symb rows symbs) l pg))"
| "reader_settle n ob s = s"

definition row_count :: "reader_pc \<Rightarrow> nat" where
  "row_count pc = (case pc of R_rows symb rows symbs \<Rightarrow> length rows | _ \<Rightarrow> 0)"

definition reader_env :: "pg_obs \<Rightarrow> reader_pc \<Rightarrow> PostgresFeedReader \<Rightarrow> PostgresFeedReader" where
  "reader_env ob pc pg = (case pc of
      R_poll symbs \<Rightarrow> if po_stop ob then pg else pg\<lparr>pg_output := env_pop (po_pops ob) (pg_output pg)\<rparr>
    | _ \<Rightarrow> pg)"

definition reader_observe :: "pg_obs \<Rightarrow> reader_pc \<Rightarrow> double \<Rightarrow> PostgresFeedReader \<Rightarrow> reader_pc \<times> double \<times> PostgresFeedReader" where
  "reader_observe ob pc l pg = (let s = reader_micro ob pc l (reader_env ob pc pg) in reader_settle (row_count (fst s)) ob s)"

fun reader_steps :: "pg_obs list \<Rightarrow> reader_pc \<Rightarrow> double \<Rightarrow> PostgresFeedReader \<Rightarrow> reader_pc \<times> double \<times> PostgresFeedReader" where
  "reader_steps [] pc l pg = (pc, l, pg)"
| "reader_steps (ob # obs) pc l pg =
     (if pc = R_done then (pc, l, pg)
      else (case reader_observe ob pc l pg of (pc', l', pg') \<Rightarrow> reader_steps obs pc' l' pg'))"

definition reader_outcome :: "reader_pc \<times> double \<times> PostgresFeedReader \<Rightarrow> PostgresFeedReader option" where
  "reader_outcome s = (if fst s = R_done then Some (snd (snd s)) else None)"

text \<open>What the thread function still does from a position.\<close>

definition inner_from :: "pg_obs list \<Rightarrow> double \<Rightarrow> PostgresFeedReader \<Rightarrow> PostgresFeedReader option" where
  "inner_from obs l pg = (case pg_inner obs l pg of None \<Rightarrow> None | Some (l', pg', rest) \<Rightarrow> pg_outer rest l' pg')"

definition sleep_from :: "int \<Rightarrow> reader_pc \<Rightarrow> pg_obs list \<Rightarrow> double \<Rightarrow> PostgresFeedReader \<Rightarrow> PostgresFeedReader option" where
  "sleep_from r back obs l pg = (case interruptible_sleep 100 r obs of None \<Rightarrow> None
    | Some rest \<Rightarrow> if back = R_inner then inner_from rest l pg else pg_outer rest l pg)"

definition poll_from :: "string list \<Rightarrow> pg_obs list \<Rightarrow> double \<Rightarrow> PostgresFeedReader \<Rightarrow> PostgresFeedReader option" where
  "poll_from symbs obs l pg = (case poll_symbols symbs obs l pg of None \<Rightarrow> None
    | Some (out, l', pg', rest) \<Rightarrow> if out = Lost_connection then pg_outer rest l' pg' else sleep_from 2000 R_inner rest l' pg')"

fun reader_from :: "pg_obs list \<Rightarrow> reader_pc \<Rightarrow> double \<Rightarrow> PostgresFeedReader \<Rightarrow> PostgresFeedReader option" where
  "reader_from obs R_outer l pg = pg_outer obs l pg"
| "reader_from obs R_inner l pg = inner_from obs l pg"
| "reader_from obs (R_poll symbs) l pg = poll_from symbs obs l pg"
| "reader_from obs (R_rows symb rows symbs) l pg = (case poll_rows symb rows l pg of
      (Polled, l', pg') \<Rightarrow> poll_from symbs obs l' pg'
    | (_, l', pg') \<Rightarrow> sleep_from 2000 R_inner obs l' pg')"
| "reader_from obs (R_sleep r back) l pg = sleep_from r back obs l pg"
| "reader_from obs R_done l pg = Some pg"

fun reader_pc_ok :: "reader_pc \<Rightarrow> bool" where
  "reader_pc_ok (R_poll symbs) = (symbs \<noteq> [])"
| "reader_pc_ok (R_rows symb rows symbs) = False"
| "reader_pc_ok (R_sleep r back) = (0 < r \<and> (back = R_inner \<or> back = R_outer))"
| "reader_pc_ok _ = True"

lemma sleep_0: "r \<le> 0 \<Longrightarrow> interruptible_sleep sl r obs = Some obs"
  by (cases obs) simp_all

lemma from_pause: "back = R_inner \<or> back = R_outer \<Longrightarrow> reader_from obs (reader_pause r back) l pg = sleep_from r back obs l pg"
  by (auto simp: reader_pause_def sleep_from_def sleep_0)

lemma from_next: "reader_from obs (reader_next symbs) l pg = poll_from symbs obs l pg"
  by (simp add: reader_next_def from_pause poll_from_def)

lemma pc_ok_pause: "back = R_inner \<or> back = R_outer \<Longrightarrow> reader_pc_ok (reader_pause r back)"
  by (auto simp: reader_pause_def)

lemma pc_ok_next: "reader_pc_ok (reader_next symbs)"
  by (simp add: reader_next_def pc_ok_pause)

lemma settle_ok: "reader_pc_ok pc \<Longrightarrow> reader_settle n ob (pc, l, pg) = (pc, l, pg)"
  by (cases pc) auto

lemma poll_rows_outcome: "fst (poll_rows symb rows l pg) \<noteq> Lost_connection"
  by (induction symb rows l pg rule: poll_rows.induct) simp_all

lemma settle_rows:
  "rows \<noteq> [] \<Longrightarrow> \<exists>pc. reader_settle (length rows) ob (R_rows symb rows symbs, l, pg) = (pc, snd (poll_rows symb rows l pg)) \<and>
     pc = (if fst (poll_rows symb rows l pg) = Polled then reader_next symbs else reader_pause 2000 R_inner)"
proof (induction rows arbitrary: l pg)
  case (Cons r rows)
  obtain row now where r: "r = (row, now)" by (cases r)
  show ?case
  proof (cases row)
    case None
    then show ?thesis using r by (simp add: settle_ok pc_ok_pause)
  next
    case (Some x)
    show ?thesis
    proof (cases "rows = []")
      case True
      then show ?thesis using r Some by (simp add: reader_take_def settle_ok pc_ok_next)
    next
      case False
      then show ?thesis using r Some Cons.IH [OF False] by (simp add: reader_take_def)
    qed
  qed
qed simp

definition observes :: "pg_obs \<Rightarrow> pg_obs list \<Rightarrow> reader_pc \<Rightarrow> double \<Rightarrow> PostgresFeedReader \<Rightarrow> bool" where
  "observes ob obs pc l pg \<longleftrightarrow> reader_pc_ok (fst (reader_observe ob pc l pg)) \<and>
     reader_from (ob # obs) pc l pg = (case reader_observe ob pc l pg of (pc', l', pg') \<Rightarrow> reader_from obs pc' l' pg')"

lemmas observe_simps = observes_def reader_observe_def reader_env_def from_pause from_next settle_ok pc_ok_pause pc_ok_next

lemma poll_observes: "observes ob obs (R_poll (symb # symbs)) l pg"
proof -
  define pg1 where "pg1 = pg\<lparr>pg_output := env_pop (po_pops ob) (pg_output pg)\<rparr>"
  show ?thesis
  proof (cases "po_stop ob \<or> po_query ob symb l = Rows []")
    case True
    then show ?thesis by (auto simp: observe_simps Let_def poll_from_def poll_symbol_def reader_take_def)
  next
    case go: False
    show ?thesis
    proof (cases "po_query ob symb l")
      case (Rows rows)
      then have ne: "rows \<noteq> []" using go by simp
      obtain out l' pg' where r: "poll_rows symb rows l pg1 = (out, l', pg')" by (metis prod_cases3)
      from this have "out \<noteq> Lost_connection" using poll_rows_outcome [of symb rows l pg1] by simp
      then show ?thesis using go Rows ne r settle_rows [OF ne, of ob symb symbs l pg1]
        by (cases out) (simp_all add: observe_simps Let_def pg1_def [symmetric] reader_take_def row_count_def poll_from_def poll_symbol_def)
    qed (use go in \<open>simp_all add: observe_simps Let_def poll_from_def poll_symbol_def\<close>)
  qed
qed

lemma reader_observes:
  assumes "reader_pc_ok pc" "pc \<noteq> R_done"
  shows "observes ob obs pc l pg"
proof (cases pc)
  case R_outer
  then show ?thesis by (auto simp: observe_simps Let_def inner_from_def sleep_from_def split: option.splits)
next
  case R_inner
  then show ?thesis by (auto simp: observe_simps Let_def inner_from_def sleep_from_def poll_from_def split: option.splits)
next
  case (R_poll symbs)
  then show ?thesis using assms(1) poll_observes by (cases symbs) auto
next
  case (R_sleep r pc1)
  then show ?thesis using assms by (auto simp: observe_simps Let_def sleep_from_def split: option.splits)
qed (use assms in simp_all)

lemma reader_from_steps: "reader_pc_ok pc \<Longrightarrow> reader_from obs pc l pg = reader_outcome (reader_steps obs pc l pg)"
proof (induction obs arbitrary: pc l pg)
  case Nil
  have "symbs \<noteq> [] \<Longrightarrow> poll_symbols symbs [] l pg = None" for symbs by (cases symbs) simp_all
  then show ?case using Nil by (cases pc) (auto simp: reader_outcome_def inner_from_def poll_from_def sleep_from_def)
next
  case (Cons ob obs)
  show ?case
  proof (cases "pc = R_done")
    case False
    obtain pc' l' pg' where r: "reader_observe ob pc l pg = (pc', l', pg')" by (metis prod_cases3)
    show ?thesis using reader_observes [OF Cons.prems False, of ob obs l pg] Cons.IH [of pc' l' pg'] False r by (simp add: observes_def)
  qed (simp add: reader_outcome_def)
qed

section \<open>A feed in front of the pipeline\<close>

text \<open>
  The pipeline after a step of the feed that leaves \<open>q\<close> as the first ring. The counter of the ticks fed goes up exactly if the feed has
  counted a tick as published.
\<close>

definition feed_into :: "MarketTick ring \<Rightarrow> bool \<Rightarrow> bool \<Rightarrow> pipe \<Rightarrow> pipe" where
  "feed_into q pushed finished p = p\<lparr>q1 := q, pl_fed := pl_fed p + (if pushed then 1 else 0), pl_feed_done := finished\<rparr>"

lemma feed_into_fields [simp]:
  "q1 (feed_into q b e p) = q" "q2 (feed_into q b e p) = q2 p" "q3 (feed_into q b e p) = q3 p" "pl_ctl (feed_into q b e p) = pl_ctl p"
  "pl_feed_done (feed_into q b e p) = e" "pl_fed (feed_into q b e p) = pl_fed p + (if b then 1 else 0)"
  "pl_book (feed_into q b e p) = pl_book p" "pl_parser (feed_into q b e p) = pl_parser p" "pl_norm (feed_into q b e p) = pl_norm p"
  "pl_parser_lost (feed_into q b e p) = pl_parser_lost p" "pl_norm_lost (feed_into q b e p) = pl_norm_lost p"
  "pl_parser_pc (feed_into q b e p) = pl_parser_pc p" "pl_norm_pc (feed_into q b e p) = pl_norm_pc p" "pl_book_pc (feed_into q b e p) = pl_book_pc p"
  by (simp_all add: feed_into_def)

text \<open>The stages and \<open>main\<close> do not touch what belongs to the feed.\<close>

lemma main_step_quiet: "pl_feed_done (main_step p) = pl_feed_done p" "pl_fed (main_step p) = pl_fed p"
  by (simp_all add: main_step_def)

lemma stage_quiet:
  assumes "pipe_step a p = Value p'" "a \<in> {ParserStep, NormStep, BookStep, DbTake, SignalTake}"
  shows "pl_feed_done p' = pl_feed_done p" "pl_fed p' = pl_fed p" "pl_ctl p' = pl_ctl p"
  using assms by (auto split: prod.splits elim!: cpp_bind.elims)

text \<open>The actions by which the pipeline follows such a step: pushes of good ticks, and the end of the feed.\<close>

definition feed_acts :: "(MarketTick \<Rightarrow> bool) \<Rightarrow> act list \<Rightarrow> bool" where
  "feed_acts good as \<longleftrightarrow> (\<forall>a \<in> set as. a = FeedExit \<or> (\<exists>t. a = FeedPush t \<and> good t))"

lemma feed_acts_simps [simp]:
  "feed_acts good []" "feed_acts good (FeedExit # as) = feed_acts good as" "feed_acts good (FeedPush t # as) \<longleftrightarrow> good t \<and> feed_acts good as"
  by (auto simp: feed_acts_def)

locale feed_thread =
  fixes step :: "'i \<Rightarrow> bool \<Rightarrow> 'f \<Rightarrow> 'f" and ring_of :: "'f \<Rightarrow> MarketTick ring" and with_ring :: "MarketTick ring \<Rightarrow> 'f \<Rightarrow> 'f"
    and finished :: "'f \<Rightarrow> bool" and published :: "'f \<Rightarrow> u64" and ok :: "'f \<Rightarrow> bool" and ok_in :: "'i \<Rightarrow> bool" and good :: "MarketTick \<Rightarrow> bool"
  assumes ring_with: "ring_of (with_ring q f) = q"
    and with_fields: "finished (with_ring q f) = finished f" "published (with_ring q f) = published f" "ok f \<Longrightarrow> ok (with_ring q f)"
    and step_ok: "ok f \<Longrightarrow> ok_in i \<Longrightarrow> ok (step i stop f)"
    and step_ring: "ok f \<Longrightarrow> ok_in i \<Longrightarrow>
      ring_of (step i stop f) = ring_of f \<and> published (step i stop f) = published f \<or>
      (\<exists>t b. good t \<and> \<not> finished f \<and> \<not> finished (step i stop f) \<and> try_push (ring_of f) t = (b, ring_of (step i stop f)) \<and>
         published (step i stop f) = published f + (if b then 1 else 0))"
    and step_ends: "ok f \<Longrightarrow> finished (step i stop f) \<Longrightarrow> finished f \<or> stop"
    and step_ended: "finished f \<Longrightarrow> finished (step i stop f)"
begin

text \<open>The feed and the pipeline agree; a step of the feed on the ring of the pipeline, with the stop flag that \<open>main\<close> has set, keeps this.\<close>

definition coupled :: "'f \<Rightarrow> pipe \<Rightarrow> bool" where
  "coupled f p \<longleftrightarrow> ok f \<and> (pl_feed_done p \<longleftrightarrow> finished f) \<and> published f = of_nat (pl_fed p)"

lemma coupled_same: "pl_feed_done p' = pl_feed_done p \<Longrightarrow> pl_fed p' = pl_fed p \<Longrightarrow> coupled f p' = coupled f p"
  by (simp add: coupled_def)

lemma turn_coupled:
  assumes "coupled f p" and "ok_in i" and f': "f' = step i (1 \<le> pl_ctl p) (with_ring (q1 p) f)"
  shows "coupled f' (feed_into (ring_of f') (published f' \<noteq> published f) (finished f') p)"
proof -
  have ok: "ok (with_ring (q1 p) f)" using assms(1) with_fields(3) by (simp add: coupled_def)
  have "published f' = published f \<or> published f' = published f + 1"
    using step_ring [OF ok assms(2), of "1 \<le> pl_ctl p"] by (auto simp: f' with_fields)
  then show ?thesis using assms(1) step_ok [OF ok assms(2)] by (auto simp: coupled_def f')
qed

text \<open>For the pipeline such a step is a sequence of its own actions.\<close>

lemma turn_refines:
  assumes c: "coupled f p" and i: "ok_in i" and f': "f' = step i (1 \<le> pl_ctl p) (with_ring (q1 p) f)"
  shows "\<exists>as. feed_acts good as \<and> pipe_run as p = Value (feed_into (ring_of f') (published f' \<noteq> published f) (finished f') p)"
proof -
  have ok: "ok (with_ring (q1 p) f)" and e: "pl_feed_done p \<longleftrightarrow> finished f" using c with_fields(3) by (auto simp: coupled_def)
  have ends: "finished f' \<Longrightarrow> \<not> finished f \<Longrightarrow> 1 \<le> pl_ctl p" "finished f \<Longrightarrow> finished f'"
    using step_ends [OF ok, of i "1 \<le> pl_ctl p"] step_ended [of "with_ring (q1 p) f"] by (simp_all add: f' with_fields(1))
  from step_ring [OF ok i, of "1 \<le> pl_ctl p"] consider
    "ring_of f' = q1 p" "published f' = published f"
    | t b where "good t" "\<not> finished f" "\<not> finished f'" "try_push (q1 p) t = (b, ring_of f')" "published f' = published f + (if b then 1 else 0)"
    by (auto simp: f' ring_with with_fields)
  then show ?thesis
  proof cases
    case 1
    then have "pipe_run (if finished f' \<and> \<not> finished f then [FeedExit] else []) p = Value (feed_into (ring_of f') (published f' \<noteq> published f) (finished f') p)"
      using e ends by (auto simp: feed_into_def)
    then show ?thesis by (intro exI conjI) simp_all
  next
    case (2 t b)
    then show ?thesis using e by (intro exI [of _ "[FeedPush t]"]) (simp add: feed_into_def)
  qed
qed

end

lemma pipe_books:
  assumes "pipe_inv s" shows "\<forall>k b. book (pl_book s) k = Some b \<longrightarrow> book_ok b \<and> book_symbol b = k"
  using pipe_goodD(3) [OF assms] by (auto simp: bp_good_def bp_inv_def book_view_def book_def book_good_def)

section \<open>Both feeds fulfil it\<close>

subsection \<open>Simulator\<close>

definition sim_turn :: "noise \<times> i64 \<Rightarrow> bool \<Rightarrow> sim_pc \<times> FeedSimulator \<Rightarrow> sim_pc \<times> FeedSimulator" where
  "sim_turn i stop s = sim_micro (fst i) (snd i) stop s"

definition sim_ring :: "sim_pc \<times> FeedSimulator \<Rightarrow> MarketTick ring" where
  "sim_ring s = fs_output (snd s)"

definition sim_with_ring :: "MarketTick ring \<Rightarrow> sim_pc \<times> FeedSimulator \<Rightarrow> sim_pc \<times> FeedSimulator" where
  "sim_with_ring q s = (fst s, (snd s)\<lparr>fs_output := q\<rparr>)"

definition sim_ok :: "sim_pc \<times> FeedSimulator \<Rightarrow> bool" where
  "sim_ok s \<longleftrightarrow> length (symbol_states (snd s)) = length (fc_symbols (fs_config (snd s))) \<and> (\<forall>st \<in> set (symbol_states (snd s)). sane_state st) \<and>
     (\<forall>i t. fst s = S_push i t \<longrightarrow> feedable t)"

lemmas sim_defs = sim_turn_def sim_ring_def sim_with_ring_def sim_ok_def

lemma generated_feedable:
  assumes "sane_state (symbol_states fs ! i)" and "sane_noise n"
  shows "feedable (fst (generate_tick n now i fs))"
proof -
  have "walk_ok (update_price n (symbol_states fs ! i))" using update_price_walk(1) assms by blast
  then show ?thesis
    by (auto simp: generate_tick_def Let_def feedable_def length_make_tick_symbol bid_of_def ask_of_def walk_ok_def)
qed

lemma generated_states:
  assumes "\<forall>st \<in> set (symbol_states fs). sane_state st" and "sane_noise n" and "i < length (symbol_states fs)"
  shows "\<forall>st \<in> set (symbol_states (snd (generate_tick n now i fs))). sane_state st"
proof -
  have "sane_state (update_price n (symbol_states fs ! i))" using walk_sane update_price_walk(1) assms by (metis nth_mem)
  then show ?thesis using assms(1) by (auto simp: generate_tick_def Let_def dest!: set_update_subset_insert [THEN subsetD])
qed

lemma generated_fields:
  "length (symbol_states (snd (generate_tick n now i fs))) = length (symbol_states fs)" "fs_config (snd (generate_tick n now i fs)) = fs_config fs"
  "fs_output (snd (generate_tick n now i fs)) = fs_output fs" "fs_published (snd (generate_tick n now i fs)) = fs_published fs"
  "fs_dropped (snd (generate_tick n now i fs)) = fs_dropped fs"
  by (simp_all add: generate_tick_def Let_def)

lemma sim_turn_ok: assumes "sim_ok s" "sane_noise (fst i)" shows "sim_ok (sim_turn i stop s)"
proof (cases s)
  case (Pair pc fs)
  show ?thesis
  proof (cases pc)
    case (S_symbol k)
    show ?thesis
    proof (cases "k < length (fc_symbols (fs_config fs))")
      case True
      obtain t fs1 where g: "generate_tick (fst i) (snd i) k fs = (t, fs1)" by force
      have st: "\<forall>st \<in> set (symbol_states fs). sane_state st" "k < length (symbol_states fs)" using assms(1) Pair True by (auto simp: sim_ok_def)
      then have "feedable t" "\<forall>st \<in> set (symbol_states fs1). sane_state st"
        using generated_feedable [of fs k "fst i" "snd i"] generated_states [OF st(1) assms(2) st(2), of "snd i"] assms(2) g by simp_all
      then show ?thesis using assms(1) Pair S_symbol True g generated_fields(1,2) [of "fst i" "snd i" k fs] by (simp add: sim_defs)
    qed (use assms Pair S_symbol in \<open>auto simp: sim_defs\<close>)
  qed (use assms Pair in \<open>auto simp: sim_defs\<close>)
qed

lemma publish_push: obtains b where "try_push (fs_output fs) t = (b, fs_output (publish_tick t fs))"
  "fs_published (publish_tick t fs) = fs_published fs + (if b then 1 else 0)"
  by (cases "try_push (fs_output fs) t"; cases "fst (try_push (fs_output fs) t)") (auto simp: publish_tick_def)

interpretation simf: feed_thread sim_turn sim_ring sim_with_ring "\<lambda>s. fst s = S_done" "\<lambda>s. fs_published (snd s)" sim_ok "\<lambda>i. sane_noise (fst i)" feedable
proof unfold_locales
  fix s stop and i :: "noise \<times> i64" assume s: "sim_ok s" "sane_noise (fst i)"
  then show "sim_ok (sim_turn i stop s)" by (rule sim_turn_ok)
  obtain pc fs where Pair: "s = (pc, fs)" by force
  show "sim_ring (sim_turn i stop s) = sim_ring s \<and> fs_published (snd (sim_turn i stop s)) = fs_published (snd s) \<or>
      (\<exists>t b. feedable t \<and> fst s \<noteq> S_done \<and> fst (sim_turn i stop s) \<noteq> S_done \<and> try_push (sim_ring s) t = (b, sim_ring (sim_turn i stop s)) \<and>
         fs_published (snd (sim_turn i stop s)) = fs_published (snd s) + (if b then 1 else 0))"
  proof (cases pc)
    case (S_symbol k)
    then show ?thesis using Pair generated_fields(3,4) [of "fst i" "snd i" k fs] by (auto simp: sim_defs split: prod.splits)
  next
    case (S_push k t)
    obtain b where "try_push (fs_output fs) t = (b, fs_output (publish_tick t fs))"
      "fs_published (publish_tick t fs) = fs_published fs + (if b then 1 else 0)" by (rule publish_push)
    then show ?thesis using Pair S_push s(1) by (intro disjI2 exI [of _ t] exI [of _ b]) (simp add: sim_defs)
  qed (use Pair in \<open>auto simp: sim_defs\<close>)
next
  fix i stop s assume e: "sim_ok s" "fst (sim_turn i stop s) = S_done"
  obtain pc fs where "s = (pc, fs)" by force
  then show "fst s = S_done \<or> stop" using e by (cases pc) (auto simp: sim_defs split: if_splits prod.splits)
next
  fix i stop and s :: "sim_pc \<times> FeedSimulator" assume "fst s = S_done"
  then show "fst (sim_turn i stop s) = S_done" by (cases s) (simp add: sim_defs)
qed (auto simp: sim_defs)

subsection \<open>Reader\<close>

text \<open>A row in the range of the service, and the rows that a position still holds.\<close>

definition row_ok :: "pg_row \<Rightarrow> bool" where
  "row_ok row \<longleftrightarrow> is_double (pr_price row) \<and> (\<exists>v. pr_volume row = Fin v \<and> v < 2 ^ 61)"

definition result_ok :: "(pg_row option \<times> i64) list \<Rightarrow> bool" where
  "result_ok rows \<longleftrightarrow> (\<forall>row now. (Some row, now) \<in> set rows \<longrightarrow> row_ok row)"

type_synonym reader_state = "reader_pc \<times> double \<times> PostgresFeedReader"

definition pg_obs_ok :: "pg_obs \<Rightarrow> bool" where
  "pg_obs_ok ob \<longleftrightarrow> (\<forall>symb l rows. po_query ob symb l = Rows rows \<longrightarrow> result_ok rows)"

definition reader_turn :: "pg_obs \<Rightarrow> bool \<Rightarrow> reader_state \<Rightarrow> reader_state" where
  "reader_turn ob stop s = reader_micro (ob\<lparr>po_stop := stop\<rparr>) (fst s) (fst (snd s)) (snd (snd s))"

definition reader_ring :: "reader_state \<Rightarrow> MarketTick ring" where
  "reader_ring s = pg_output (snd (snd s))"

definition reader_with_ring :: "MarketTick ring \<Rightarrow> reader_state \<Rightarrow> reader_state" where
  "reader_with_ring q s = (fst s, fst (snd s), (snd (snd s))\<lparr>pg_output := q\<rparr>)"

fun held_ok :: "reader_pc \<Rightarrow> bool" where
  "held_ok (R_rows symb rows symbs) = result_ok rows"
| "held_ok (R_sleep r back) = (back = R_inner \<or> back = R_outer)"
| "held_ok pc = True"

definition reader_ok :: "reader_state \<Rightarrow> bool" where
  "reader_ok s = held_ok (fst s)"

lemmas reader_defs = reader_turn_def reader_ring_def reader_with_ring_def reader_ok_def

definition storable_tick :: "MarketTick \<Rightarrow> bool" where
  "storable_tick t \<longleftrightarrow> feedable t \<and> small t"

lemma row_storable: "row_ok row \<Longrightarrow> storable_tick (make_tick symb (pr_price row) (pr_volume row) 2 now)"
  by (auto simp: storable_tick_def small_def feedable_def length_make_tick_symbol row_ok_def)

lemma held_next [simp]: "held_ok (reader_pause r R_inner)" "held_ok (reader_pause r R_outer)" "held_ok (reader_next symbs)"
  "held_ok (reader_take symb rows symbs) \<longleftrightarrow> rows = [] \<or> result_ok rows"
  by (simp_all add: reader_pause_def reader_next_def reader_take_def)

lemma not_done [simp]: "reader_pause r R_inner \<noteq> R_done" "reader_pause r R_outer \<noteq> R_done" "reader_next symbs \<noteq> R_done" "reader_take symb rows symbs \<noteq> R_done"
  by (simp_all add: reader_pause_def reader_next_def reader_take_def)

lemma result_Cons: "result_ok (r # rows) \<Longrightarrow> result_ok rows" "result_ok ((Some row, now) # rows) \<Longrightarrow> row_ok row"
  by (auto simp: result_ok_def)

lemma reader_micro_ok:
  "held_ok pc \<Longrightarrow> pg_obs_ok ob \<Longrightarrow> held_ok (fst (reader_micro ob pc l pg))"
  by (induction ob pc l pg rule: reader_micro.induct)
    (auto simp: pg_obs_ok_def reader_pause_def dest: result_Cons split: query_result.splits)

lemma pg_publish_push: obtains b where "try_push (pg_output pg) (make_tick symb (pr_price row) (pr_volume row) 2 now) = (b, pg_output (pg_publish symb row now pg))"
  "pg_published (pg_publish symb row now pg) = pg_published pg + (if b then 1 else 0)"
  by (cases "try_push (pg_output pg) (make_tick symb (pr_price row) (pr_volume row) 2 now)";
      cases "fst (try_push (pg_output pg) (make_tick symb (pr_price row) (pr_volume row) 2 now))") (auto simp: pg_publish_def)

lemma reader_micro_ring:
  "held_ok pc \<Longrightarrow> reader_micro ob pc l pg = (pc', l', pg') \<Longrightarrow> pg_output pg' = pg_output pg \<and> pg_published pg' = pg_published pg \<or>
     (\<exists>t b. storable_tick t \<and> pc \<noteq> R_done \<and> pc' \<noteq> R_done \<and> try_push (pg_output pg) t = (b, pg_output pg') \<and>
        pg_published pg' = pg_published pg + (if b then 1 else 0))"
proof (induction ob pc l pg rule: reader_micro.induct)
  case (7 ob symb row now rows symbs l pg)
  have "storable_tick (make_tick symb (pr_price row) (pr_volume row) 2 now)" using 7 row_storable result_Cons(2) by simp
  moreover obtain b where "try_push (pg_output pg) (make_tick symb (pr_price row) (pr_volume row) 2 now) = (b, pg_output (pg_publish symb row now pg))"
    "pg_published (pg_publish symb row now pg) = pg_published pg + (if b then 1 else 0)" by (rule pg_publish_push)
  ultimately show ?case using 7
    by (intro disjI2 exI [of _ "make_tick symb (pr_price row) (pr_volume row) 2 now"] exI [of _ b]) auto
qed (auto split: query_result.splits if_splits)

interpretation pgf: feed_thread reader_turn reader_ring reader_with_ring "\<lambda>s. fst s = R_done" "\<lambda>s. pg_published (snd (snd s))" reader_ok pg_obs_ok storable_tick
proof unfold_locales
  fix s stop and ob :: pg_obs assume s: "reader_ok s" "pg_obs_ok ob"
  obtain pc l pg pc' l' pg' where p: "s = (pc, l, pg)" "reader_micro (ob\<lparr>po_stop := stop\<rparr>) pc l pg = (pc', l', pg')"
    using prod_cases3 by metis
  show "reader_ring (reader_turn ob stop s) = reader_ring s \<and> pg_published (snd (snd (reader_turn ob stop s))) = pg_published (snd (snd s)) \<or>
      (\<exists>t b. storable_tick t \<and> fst s \<noteq> R_done \<and> fst (reader_turn ob stop s) \<noteq> R_done \<and> try_push (reader_ring s) t = (b, reader_ring (reader_turn ob stop s)) \<and>
         pg_published (snd (snd (reader_turn ob stop s))) = pg_published (snd (snd s)) + (if b then 1 else 0))"
    using reader_micro_ring [OF _ p(2)] s(1) p by (simp add: reader_defs)
  show "reader_ok (reader_turn ob stop s)" using reader_micro_ok [of pc "ob\<lparr>po_stop := stop\<rparr>" l pg] s p(1) by (simp add: reader_defs pg_obs_ok_def)
next
  fix ob stop and s :: reader_state assume e: "reader_ok s" "fst (reader_turn ob stop s) = R_done"
  obtain pc l pg where "s = (pc, l, pg)" by (metis prod_cases3)
  then show "fst s = R_done \<or> stop" using e
    by (cases "(ob\<lparr>po_stop := stop\<rparr>, pc, l, pg)" rule: reader_micro.cases) (auto simp: reader_defs split: if_splits query_result.splits)
qed (auto simp: reader_defs)



end
