(* ===== verification/Metrics.thy ===== *)
theory Metrics
  imports FeedSimulator Normalizer BookProcessor
begin

text \<open>
  \<open>infra/MetricsCollector.hpp\<close> and the verdict of \<open>tools/health_check.cpp\<close>: the snapshot of the counters of all
  stages, the rates derived from it, and the list of failures that decides the exit code; what is
  printed is in \<open>HealthReport\<close>. The main
  result is that the floating-point thresholds of the health check are exact: for counters up to
  \<open>2 ^ 53\<close> they decide the same as integer arithmetic would.
\<close>

record PipelineSnapshot =
  feed_ticks_published :: u64
  feed_ticks_dropped :: u64
  parser_ticks_processed :: u64
  parser_ticks_rejected :: u64
  norm_ticks_forwarded :: u64
  norm_ticks_deduplicated :: u64
  norm_ticks_reordered :: u64
  book_ticks_processed :: u64
  book_books_active :: u64
  snapshot_time_ns :: i64

definition feed_drop_rate :: "PipelineSnapshot \<Rightarrow> double" where
  "feed_drop_rate s = (if 0 < feed_ticks_published s
     then ddiv (of_u64 (feed_ticks_dropped s)) (of_u64 (feed_ticks_published s)) else Fin 0)"

definition parser_reject_rate :: "PipelineSnapshot \<Rightarrow> double" where
  "parser_reject_rate s = (if 0 < parser_ticks_processed s
     then ddiv (of_u64 (parser_ticks_rejected s)) (of_u64 (parser_ticks_processed s)) else Fin 0)"

definition norm_dedup_rate :: "PipelineSnapshot \<Rightarrow> double" where
  "norm_dedup_rate s =
     (let total = norm_ticks_forwarded s + norm_ticks_deduplicated s + norm_ticks_reordered s
      in if 0 < total then ddiv (of_u64 (norm_ticks_deduplicated s)) (of_u64 total) else Fin 0)"

text \<open>\<open>MetricsCollector::snapshot\<close>; the last argument is the reading of the clock.\<close>

definition metrics_snapshot :: "FeedSimulator \<Rightarrow> TickParser \<Rightarrow> Normalizer \<Rightarrow> BookProcessor \<Rightarrow> i64 \<Rightarrow> PipelineSnapshot" where
  "metrics_snapshot feed parser normalizer bp now =
     \<lparr>feed_ticks_published = fs_published feed, feed_ticks_dropped = fs_dropped feed,
      parser_ticks_processed = tp_processed parser, parser_ticks_rejected = tp_rejected parser,
      norm_ticks_forwarded = ticks_forwarded (nz_stats normalizer),
      norm_ticks_deduplicated = ticks_deduplicated (nz_stats normalizer),
      norm_ticks_reordered = ticks_reordered (nz_stats normalizer),
      book_ticks_processed = bp_ticks_processed bp, book_books_active = books_active bp,
      snapshot_time_ns = now\<rparr>"

text \<open>The failure messages of the health check, and its exit code.\<close>

datatype health_failure =
    FeedSilent | ParserSilent | NormSilent | BookSilent
  | DropRateExceeds double | RejectRateExceeds double

definition health_failures :: "PipelineSnapshot \<Rightarrow> health_failure list" where
  "health_failures s =
     (if feed_ticks_published s = 0 then [FeedSilent] else []) @
     (if parser_ticks_processed s = 0 then [ParserSilent] else []) @
     (if norm_ticks_forwarded s = 0 then [NormSilent] else []) @
     (if book_ticks_processed s = 0 then [BookSilent] else []) @
     (let drop_rate = feed_drop_rate s in if dle (round64 (5 / 100)) drop_rate then [DropRateExceeds drop_rate] else []) @
     (let reject_rate = parser_reject_rate s in if dle (round64 (10 / 100)) reject_rate then [RejectRateExceeds reject_rate] else [])"

definition health_exit_code :: "PipelineSnapshot \<Rightarrow> int" where
  "health_exit_code s = (if health_failures s = [] then 0 else 1)"

section \<open>Ratios of counters\<close>

lemma unat_pos: "0 < w \<longleftrightarrow> 0 < unat w" for w :: u64
  by (simp add: word_less_nat_alt)

text \<open>Up to \<open>2 ^ 53\<close> the conversion of a counter is exact.\<close>

lemma round64_nat: "n \<le> 2 ^ 53 \<Longrightarrow> round64 (of_nat n) = Fin (of_nat n)"
  using round64_int [of "int n"] by simp

lemma of_u64_exact: "unat w \<le> 2 ^ 53 \<Longrightarrow> of_u64 w = Fin (of_nat (unat w))"
  using round64_nat by (simp only: of_u64_def)

text \<open>Beyond that it rounds, but a positive counter stays at least 1 and finite, and the order is kept.\<close>

lemma of_u64_pos:
  assumes "0 < unat w" obtains x where "of_u64 w = Fin x" "1 \<le> x"
proof -
  have le: "of_nat (unat w) \<le> (2 ^ 64 :: rat)"
  proof -
    have "unat w \<le> 2 ^ 64" using order_less_imp_le [OF unsigned_less [of w]] by simp
    then have "of_nat (unat w) \<le> (of_nat (2 ^ 64) :: rat)" by (rule of_nat_mono)
    then show ?thesis by (simp only: of_nat_power of_nat_numeral)
  qed
  have rep: "representable (2 ^ 64 :: rat)"
    using powi2_less_limit [of 64] unfolding representable_iff by (intro conjI dyadicI [of _ 1 64]) simp_all
  have "1 \<le> (of_nat (unat w) :: rat)" using of_nat_mono [of 1 "unat w"] assms by (simp only: of_nat_1 Suc_le_eq One_nat_def)
  then have "Fin 1 \<le> of_u64 w" "of_u64 w \<le> Fin (2 ^ 64)"
    using ieee.rnd_ge [of 1] ieee.rnd_le [OF rep le] by (simp_all add: of_u64_def)
  then show thesis using that by (cases "of_u64 w") (simp_all add: of_u64_def)
qed

lemma of_u64_0 [simp]: "of_u64 0 = Fin 0"
  by (simp add: of_u64_def)

lemma of_u64_mono: "unat a \<le> unat b \<Longrightarrow> of_u64 a \<le> of_u64 b"
  unfolding of_u64_def by (intro round64_mono of_nat_mono)

lemma ratio_cases:
  assumes "0 < unat p"
  obtains x y where "of_u64 d = Fin x" "of_u64 p = Fin y" "0 \<le> x" "1 \<le> y" "ddiv (of_u64 d) (of_u64 p) = round64 (x / y)"
proof -
  obtain y where y: "of_u64 p = Fin y" "1 \<le> y" using of_u64_pos [OF assms] .
  obtain x where x: "of_u64 d = Fin x" "0 \<le> x"
    by (cases "unat d = 0") (use of_u64_pos [of d] in \<open>force simp: unat_eq_zero\<close>)+
  show thesis using that [OF x(1) y(1) x(2) y(2)] x y by simp
qed

text \<open>Every rate is a number at least 0, and at most 1 exactly when expected.\<close>

lemma ratio_bounds:
  assumes "0 < unat p"
  shows "Fin 0 \<le> ddiv (of_u64 d) (of_u64 p)" "ddiv (of_u64 d) (of_u64 p) \<noteq> NaN"
    "unat d \<le> unat p \<Longrightarrow> ddiv (of_u64 d) (of_u64 p) \<le> Fin 1"
    "unat p \<le> unat d \<Longrightarrow> Fin 1 \<le> ddiv (of_u64 d) (of_u64 p)"
proof -
  obtain x y where r: "of_u64 d = Fin x" "of_u64 p = Fin y" "0 \<le> x" "1 \<le> y" "ddiv (of_u64 d) (of_u64 p) = round64 (x / y)"
    using ratio_cases [OF assms] .
  show "Fin 0 \<le> ddiv (of_u64 d) (of_u64 p)" "ddiv (of_u64 d) (of_u64 p) \<noteq> NaN"
    using r by (simp_all add: round64_sign)
  show "ddiv (of_u64 d) (of_u64 p) \<le> Fin 1" if "unat d \<le> unat p"
    using of_u64_mono [OF that] r ieee.rnd_le [of 1 "x / y"] by simp
  show "Fin 1 \<le> ddiv (of_u64 d) (of_u64 p)" if "unat p \<le> unat d"
    using of_u64_mono [OF that] r ieee.rnd_ge [of 1 "x / y"] by simp
qed

section \<open>Thresholds\<close>

text \<open>
  The constants 0.05 and 0.10 of the source are the doubles next to the decimal fractions. Their
  predecessors lie so close below that no ratio of counters fits in between.
\<close>

definition near_tenth :: int where
  "near_tenth = 7205759403792794"

lemma threshold_doubles:
  "round64 (5 / 100) = Fin (of_int near_tenth * 2 powi (-57))"
  "round64 (10 / 100) = Fin (of_int near_tenth * 2 powi (-56))"
  using round64_eval [of "-5" "5 / 100" near_tenth] round64_eval [of "-4" "10 / 100" near_tenth]
  by (simp_all add: power_int_def power_divide near_tenth_def)

lemma below_threshold:
  assumes "m * d < p" and "p \<le> 2 ^ 53" and "m = 20 \<and> k = 57 \<or> m = 10 \<and> k = (56::nat)"
  shows "round64 (of_nat d / of_nat p) < Fin (of_int near_tenth * 2 powi (- int k))"
proof -
  let ?b = "of_int (near_tenth - 1) * 2 powi (- int k) :: rat"
  have rep: "representable ?b"
  proof -
    have "?b \<le> 1" using assms(3) by (auto simp: near_tenth_def power_int_def power_divide)
    moreover have "0 \<le> ?b" by (simp add: near_tenth_def)
    ultimately have "\<bar>?b\<bar> < double_limit" using powi2_less_limit [of 0] by simp
    moreover have "dyadic ?b" using assms(3) by (intro dyadicI [of _ "near_tenth - 1" "- int k"]) (auto simp: near_tenth_def)
    ultimately show ?thesis unfolding representable_iff by blast
  qed
  have p: "0 < p" using assms(1) by simp
  have "of_nat (m * d + 1) \<le> (of_nat p :: rat)" using assms(1) by (intro of_nat_mono) simp
  then have md: "of_nat m * of_nat d + 1 \<le> (of_nat p :: rat)" by simp
  have "of_nat p \<le> (of_nat (2 ^ 53) :: rat)" using assms(2) by (rule of_nat_mono)
  then have p53: "of_nat p \<le> (2 ^ 53 :: rat)" by simp
  have "of_nat d \<le> ?b * of_nat p" using assms(3) md p53 by (auto simp: near_tenth_def power_int_def power_divide)
  then have "of_nat d / of_nat p \<le> ?b" using p by (simp add: pos_divide_le_eq)
  then have "round64 (of_nat d / of_nat p) \<le> Fin ?b" by (rule ieee.rnd_le [OF rep])
  also have "Fin ?b < Fin (of_int near_tenth * 2 powi (- int k))" by simp
  finally show ?thesis .
qed

lemma frac_le_iff: "0 < p \<Longrightarrow> c \<le> of_nat d / of_nat p \<longleftrightarrow> c * of_nat p \<le> (of_nat d :: rat)"
  by (simp add: pos_le_divide_eq)

lemma ratio_threshold:
  assumes "0 < unat p" and "unat p \<le> 2 ^ 53" and "unat d \<le> 2 ^ 53"
    and "m = 20 \<and> c = 5 / 100 \<or> m = 10 \<and> c = 10 / (100::rat)"
  shows "dle (round64 c) (ddiv (of_u64 d) (of_u64 p)) \<longleftrightarrow> unat p \<le> m * unat d"
proof -
  let ?q = "of_nat (unat d) / of_nat (unat p) :: rat"
  have q: "ddiv (of_u64 d) (of_u64 p) = round64 ?q" using assms(1-3) by (simp add: of_u64_exact del: of_nat_unat)
  show ?thesis
  proof (cases "unat p \<le> m * unat d")
    case True
    then have le: "of_nat (unat p) \<le> (of_nat m * of_nat (unat d) :: rat)" using of_nat_mono by (simp only: of_nat_mult [symmetric])
    have "c * of_nat (unat p) \<le> of_nat (unat d)"
      using assms(4) le by (elim disjE conjE; hypsubst; simp only: of_nat_numeral; linarith)
    then have "c \<le> ?q" using frac_le_iff [OF assms(1), of c "unat d"] by (simp only:)
    then show ?thesis using True round64_mono [of c ?q] by (simp add: q dle_def)
  next
    case False
    then have "round64 ?q < round64 c"
      using assms(4) threshold_doubles below_threshold [of 20 "unat d" "unat p" 57] below_threshold [of 10 "unat d" "unat p" 56]
        assms(2) by (elim disjE conjE; hypsubst; simp)
    then show ?thesis using False by (simp add: q dle_def not_le)
  qed
qed

section \<open>Properties\<close>

text \<open>
  The derived rates are never NaN and never negative; the deduplication rate is at most 1 as long as
  the sum of the three counters does not wrap around, while the drop rate, which divides by the
  published and not by all generated ticks, reaches 1 as soon as half of the ticks are dropped.
\<close>

theorem rates_bounded:
  "Fin 0 \<le> feed_drop_rate s \<and> feed_drop_rate s \<noteq> NaN \<and>
   Fin 0 \<le> parser_reject_rate s \<and> parser_reject_rate s \<noteq> NaN \<and>
   Fin 0 \<le> norm_dedup_rate s \<and> norm_dedup_rate s \<noteq> NaN \<and>
   (unat (norm_ticks_forwarded s) + unat (norm_ticks_deduplicated s) + unat (norm_ticks_reordered s) < 2 ^ 64
      \<longrightarrow> norm_dedup_rate s \<le> Fin 1) \<and>
   (0 < feed_ticks_published s \<and> feed_ticks_published s \<le> feed_ticks_dropped s \<longrightarrow> Fin 1 \<le> feed_drop_rate s)"
proof -
  have d: "Fin 0 \<le> feed_drop_rate s" "feed_drop_rate s \<noteq> NaN"
    using ratio_bounds(1,2) by (simp_all add: feed_drop_rate_def unat_pos)
  have r: "Fin 0 \<le> parser_reject_rate s" "parser_reject_rate s \<noteq> NaN"
    using ratio_bounds(1,2) by (simp_all add: parser_reject_rate_def unat_pos)
  have n: "Fin 0 \<le> norm_dedup_rate s" "norm_dedup_rate s \<noteq> NaN"
    using ratio_bounds(1,2) by (simp_all add: norm_dedup_rate_def unat_pos Let_def)
  have "norm_dedup_rate s \<le> Fin 1"
    if "unat (norm_ticks_forwarded s) + unat (norm_ticks_deduplicated s) + unat (norm_ticks_reordered s) < 2 ^ 64"
  proof -
    have "unat (norm_ticks_forwarded s + norm_ticks_deduplicated s + norm_ticks_reordered s) =
        unat (norm_ticks_forwarded s) + unat (norm_ticks_deduplicated s) + unat (norm_ticks_reordered s)"
      using that by (simp add: unat_word_ariths)
    then show ?thesis using ratio_bounds(3) by (simp add: norm_dedup_rate_def unat_pos Let_def)
  qed
  moreover have "Fin 1 \<le> feed_drop_rate s" if "0 < feed_ticks_published s" "feed_ticks_published s \<le> feed_ticks_dropped s"
    using that ratio_bounds(4) by (simp add: feed_drop_rate_def unat_pos word_le_nat_alt)
  ultimately show ?thesis using d r n by blast
qed

text \<open>
  C32. The verdict of the health check, for counters up to \<open>2 ^ 53\<close>: it exits with 0 exactly when every stage has
  processed something, fewer than a twentieth of the published number of ticks were dropped
  and fewer than a tenth of the processed number were rejected. Rounding of the two quotients
  and of the constants 0.05 and 0.10 never changes the verdict.
\<close>

theorem health_verdict_exact:
  assumes "unat (feed_ticks_published s) \<le> 2 ^ 53" and "unat (feed_ticks_dropped s) \<le> 2 ^ 53"
    and "unat (parser_ticks_processed s) \<le> 2 ^ 53" and "unat (parser_ticks_rejected s) \<le> 2 ^ 53"
  shows "health_exit_code s = 0 \<longleftrightarrow>
     20 * unat (feed_ticks_dropped s) < unat (feed_ticks_published s) \<and>
     10 * unat (parser_ticks_rejected s) < unat (parser_ticks_processed s) \<and>
     norm_ticks_forwarded s \<noteq> 0 \<and> book_ticks_processed s \<noteq> 0"
proof -
  have d: "feed_ticks_published s \<noteq> 0 \<Longrightarrow> dle (round64 (5 / 100)) (feed_drop_rate s) \<longleftrightarrow>
      unat (feed_ticks_published s) \<le> 20 * unat (feed_ticks_dropped s)"
    using ratio_threshold [OF _ assms(1,2), of 20 "5 / 100"] by (simp add: feed_drop_rate_def unat_pos unat_gt_0)
  have r: "parser_ticks_processed s \<noteq> 0 \<Longrightarrow> dle (round64 (10 / 100)) (parser_reject_rate s) \<longleftrightarrow>
      unat (parser_ticks_processed s) \<le> 10 * unat (parser_ticks_rejected s)"
    using ratio_threshold [OF _ assms(3,4), of 10 "10 / 100"] by (simp add: parser_reject_rate_def unat_pos unat_gt_0)
  show ?thesis
    by (cases "feed_ticks_published s = 0"; cases "parser_ticks_processed s = 0")
      (use d r in \<open>auto simp: health_exit_code_def health_failures_def Let_def not_le\<close>)
qed

definition demo_metrics :: PipelineSnapshot where
  "demo_metrics = \<lparr>feed_ticks_published = 100, feed_ticks_dropped = 4, parser_ticks_processed = 90, parser_ticks_rejected = 8,
     norm_ticks_forwarded = 80, norm_ticks_deduplicated = 5, norm_ticks_reordered = 5,
     book_ticks_processed = 80, book_books_active = 3, snapshot_time_ns = 1\<rparr>"

theorem rates_bounded_witness:
  "norm_dedup_rate demo_metrics \<le> Fin 1 \<and> Fin 1 \<le> feed_drop_rate (demo_metrics\<lparr>feed_ticks_dropped := 100\<rparr>)"
  using rates_bounded [of demo_metrics] rates_bounded [of "demo_metrics\<lparr>feed_ticks_dropped := 100\<rparr>"]
  by (simp add: demo_metrics_def)

theorem health_verdict_exact_witness:
  "health_exit_code demo_metrics = 0 \<and> health_exit_code (demo_metrics\<lparr>feed_ticks_dropped := 5\<rparr>) = 1"
  using health_verdict_exact [of demo_metrics] health_verdict_exact [of "demo_metrics\<lparr>feed_ticks_dropped := 5\<rparr>"]
  by (simp add: demo_metrics_def health_exit_code_def split: if_splits)

end
