(* ===== verification/TickFormat.thy ===== *)
theory TickFormat
  imports MarketTick
begin

text \<open>
  The text form of a tick, \<open>MarketTick::to_string\<close>. The conversions of \<open>std::format\<close> are those of the standard library:
  \<open>{:.2f}\<close> prints the exact value of the \<open>double\<close> correctly rounded to two decimals, ties to even. The sign of a zero and
  of a NaN is not represented in \<open>double\<close> and is not printed; a negative number that rounds to zero keeps its sign, as in C++.
\<close>

definition digit :: "nat \<Rightarrow> char" where
  "digit d = char_of (48 + d)"

fun nat_digits :: "nat \<Rightarrow> string" where
  "nat_digits n = (if n < 10 then [digit n] else nat_digits (n div 10) @ [digit (n mod 10)])"

declare nat_digits.simps [simp del]

text \<open>Exactly \<open>p\<close> digits, with leading zeros.\<close>

fun pad_digits :: "nat \<Rightarrow> nat \<Rightarrow> string" where
  "pad_digits 0 n = []"
| "pad_digits (Suc p) n = pad_digits p (n div 10) @ [digit (n mod 10)]"

definition format_int :: "int \<Rightarrow> string" where
  "format_int i = (if i < 0 then ''-'' else '''') @ nat_digits (nat \<bar>i\<bar>)"

text \<open>\<open>{:.pf}\<close> for a positive \<open>p\<close>.\<close>

fun format_fixed :: "nat \<Rightarrow> double \<Rightarrow> string" where
  "format_fixed p NaN = ''nan''"
| "format_fixed p PInf = ''inf''"
| "format_fixed p MInf = ''-inf''"
| "format_fixed p (Fin x) =
     (let n = nat (rhe (\<bar>x\<bar> * 10 ^ p))
      in (if x < 0 then ''-'' else '''') @ nat_digits (n div 10 ^ p) @ ''.'' @ pad_digits p (n mod 10 ^ p))"

definition tick_to_string :: "MarketTick \<Rightarrow> string" where
  "tick_to_string t = sym_string (mt_symbol t) @ '' | price='' @ format_fixed 2 (mt_price t) @ '' | vol='' @ format_fixed 4 (mt_volume t) @
     '' | ts='' @ format_int (sint (mt_timestamp_ns t)) @ ''ns | side='' @ side_str (mt_side t)"

section \<open>Reading it back\<close>

definition is_digit :: "char \<Rightarrow> bool" where
  "is_digit c \<longleftrightarrow> 48 \<le> (of_char c :: nat) \<and> of_char c < (58 :: nat)"

definition digit_value :: "char \<Rightarrow> nat" where
  "digit_value c = of_char c - 48"

definition read_nat :: "string \<Rightarrow> nat" where
  "read_nat s = foldl (\<lambda>n c. 10 * n + digit_value c) 0 s"

definition read_signed :: "string \<Rightarrow> int" where
  "read_signed s = (case s of [] \<Rightarrow> 0 | c # r \<Rightarrow> if c = CHR ''-'' then - int (read_nat r) else int (read_nat s))"

text \<open>The value of a decimal number with \<open>p\<close> decimals.\<close>

definition read_fixed :: "nat \<Rightarrow> string \<Rightarrow> rat" where
  "read_fixed p s = of_int (read_signed (filter (\<lambda>c. c \<noteq> CHR ''.'') s)) / 10 ^ p"

fun bar_fields :: "string \<Rightarrow> string list" where
  "bar_fields [] = [[]]"
| "bar_fields (c # s) = (if c = CHR ''|'' then [] # bar_fields s
     else (case bar_fields s of [] \<Rightarrow> [[c]] | f # fs \<Rightarrow> (c # f) # fs))"

text \<open>Symbol, price, volume, time and side of a text, if it has the five fields.\<close>

definition read_tick :: "string \<Rightarrow> (string \<times> rat \<times> rat \<times> int \<times> string) option" where
  "read_tick s = (case bar_fields s of
      [f1, f2, f3, f4, f5] \<Rightarrow> Some (butlast f1, read_fixed 2 (butlast (drop 7 f2)), read_fixed 4 (butlast (drop 5 f3)),
        read_signed (take (length f4 - 7) (drop 4 f4)), drop 6 f5)
    | _ \<Rightarrow> None)"

lemma of_char_digit: "d < 10 \<Longrightarrow> of_char (digit d) = 48 + d"
  by (simp add: digit_def of_char_of)

lemma digit_value_digit [simp]: "d < 10 \<Longrightarrow> digit_value (digit d) = d"
  by (simp add: digit_value_def of_char_digit)

lemma digit_neq:
  assumes "d < 10" and "of_char c < (48 :: nat) \<or> 58 \<le> (of_char c :: nat)"
  shows "digit d \<noteq> c"
  using assms of_char_digit [OF assms(1)] by auto

lemma is_digit_digit [simp]: "d < 10 \<Longrightarrow> is_digit (digit d)"
  by (simp add: is_digit_def of_char_digit)

lemma read_nat_snoc: "read_nat (s @ [c]) = 10 * read_nat s + digit_value c"
  by (simp add: read_nat_def)

lemma nat_digits_read: "read_nat (nat_digits n) = n"
proof (induction n rule: nat_digits.induct)
  case (1 n)
  show ?case
  proof (cases "n < 10")
    case True
    then show ?thesis by (simp add: nat_digits.simps [of n] read_nat_def)
  next
    case False
    then show ?thesis using 1 by (subst nat_digits.simps) (simp add: read_nat_snoc)
  qed
qed

lemma nat_digits_set: "nat_digits n \<noteq> [] \<and> (\<forall>c \<in> set (nat_digits n). is_digit c)"
proof (induction n rule: nat_digits.induct)
  case (1 n)
  then show ?case by (cases "n < 10") (auto simp: nat_digits.simps [of n])
qed

lemma pad_digits_set: "\<forall>c \<in> set (pad_digits p n). is_digit c"
  by (induction p n rule: pad_digits.induct) auto

lemma pad_digits_read: "m < 10 ^ p \<Longrightarrow> read_nat (s @ pad_digits p m) = read_nat s * 10 ^ p + m"
proof (induction p arbitrary: m)
  case (Suc p)
  then have "m div 10 < 10 ^ p" by (simp add: less_mult_imp_div_less mult.commute)
  then show ?case using Suc.IH [of "m div 10"] read_nat_snoc [of "s @ pad_digits p (m div 10)"] by simp
qed simp

lemma digits_clean:
  assumes "\<forall>c \<in> set s. is_digit c"
  shows "CHR ''.'' \<notin> set s" "CHR ''-'' \<notin> set s" "CHR ''|'' \<notin> set s" "filter (\<lambda>c. c \<noteq> CHR ''.'') s = s"
proof -
  have "\<not> is_digit CHR ''.''" "\<not> is_digit CHR ''-''" "\<not> is_digit CHR ''|''" by (simp_all add: is_digit_def)
  then show "CHR ''.'' \<notin> set s" "CHR ''-'' \<notin> set s" "CHR ''|'' \<notin> set s" using assms by blast+
  then show "filter (\<lambda>c. c \<noteq> CHR ''.'') s = s" by (intro filter_True ballI notI) (simp only:)
qed

lemma read_signed_digits:
  assumes "s \<noteq> []" "\<forall>c \<in> set s. is_digit c"
  shows "read_signed s = int (read_nat s)" "read_signed (CHR ''-'' # s) = - int (read_nat s)"
proof -
  obtain c r where s: "s = c # r" using assms(1) by (cases s) auto
  then have "c \<noteq> CHR ''-''" using digits_clean(2) [OF assms(2)] by auto
  then show "read_signed s = int (read_nat s)" by (simp add: read_signed_def s)
  show "read_signed (CHR ''-'' # s) = - int (read_nat s)" by (simp add: read_signed_def)
qed

lemma format_int_read: "read_signed (format_int i) = i"
  using read_signed_digits [of "nat_digits (nat \<bar>i\<bar>)"] nat_digits_set [of "nat \<bar>i\<bar>"] nat_digits_read [of "nat \<bar>i\<bar>"]
  by (auto simp: format_int_def)

lemma format_fixed_read: "read_fixed p (format_fixed p (Fin x)) = of_int (rhe (x * 10 ^ p)) / 10 ^ p"
proof -
  define n where "n = nat (rhe (\<bar>x\<bar> * 10 ^ p))"
  define ds where "ds = nat_digits (n div 10 ^ p) @ pad_digits p (n mod 10 ^ p)"
  have "0 \<le> rhe (\<bar>x\<bar> * 10 ^ p)" using rhe_mono [of 0 "\<bar>x\<bar> * 10 ^ p"] rhe_of_int [of 0] by simp
  then have n: "int n = rhe (\<bar>x\<bar> * 10 ^ p)" by (simp add: n_def)
  have d: "ds \<noteq> []" "\<forall>c \<in> set ds. is_digit c" using nat_digits_set pad_digits_set by (auto simp: ds_def)
  have "read_nat ds = n div 10 ^ p * 10 ^ p + n mod 10 ^ p"
    unfolding ds_def by (subst pad_digits_read) (simp_all add: nat_digits_read)
  then have r: "read_nat ds = n" by (simp only: div_mult_mod_eq)
  have f: "filter (\<lambda>c. c \<noteq> CHR ''.'') (format_fixed p (Fin x)) = (if x < 0 then ''-'' else '''') @ ds"
    using nat_digits_set pad_digits_set digits_clean(4) by (simp add: ds_def n_def Let_def)
  have "read_signed ((if x < 0 then ''-'' else '''') @ ds) = rhe (x * 10 ^ p)"
    using read_signed_digits [OF d] r n rhe_minus [of "x * 10 ^ p"] by auto
  then show ?thesis unfolding read_fixed_def f by simp
qed

lemma bar_fields_word: "CHR ''|'' \<notin> set w \<Longrightarrow> bar_fields w = [w]"
  by (induction w) auto

lemma bar_fields_item: "CHR ''|'' \<notin> set w \<Longrightarrow> bar_fields (w @ CHR ''|'' # s) = w # bar_fields s"
  by (induction w) auto

lemma format_int_set: "set (format_int i) \<subseteq> {c. is_digit c} \<union> set ''-''"
  using nat_digits_set by (auto simp: format_int_def)

lemma format_fixed_set: "set (format_fixed p x) \<subseteq> {c. is_digit c} \<union> set ''-.nainf''"
  using nat_digits_set pad_digits_set by (cases x) (auto simp: Let_def)

lemma format_clean: "CHR ''|'' \<notin> set (format_int i)" "CHR ''|'' \<notin> set (format_fixed p x)" "CHR ''|'' \<notin> set (side_str d)"
proof -
  have "\<not> is_digit CHR ''|''" by (simp add: is_digit_def)
  then show "CHR ''|'' \<notin> set (format_int i)" "CHR ''|'' \<notin> set (format_fixed p x)"
    using format_int_set [of i] format_fixed_set [of p x] by force+
  show "CHR ''|'' \<notin> set (side_str d)" by (simp add: side_str_def)
qed

text \<open>The example in the comment of \<open>to_string\<close>.\<close>

lemma to_string_doc_example:
  "tick_to_string (make_tick ''BTCUSD'' (Fin (84001/2)) (Fin (123/100)) 0 123456789)
   = ''BTCUSD | price=42000.50 | vol=1.2300 | ts=123456789ns | side=BID''"
  by code_simp

text \<open>The five fields between the bars, with the blanks around them.\<close>

lemma tick_to_string_fields:
  assumes "CHR ''|'' \<notin> set (sym_string (mt_symbol t))"
  shows "bar_fields (tick_to_string t) =
    [sym_string (mt_symbol t) @ '' '', '' price='' @ format_fixed 2 (mt_price t) @ '' '', '' vol='' @ format_fixed 4 (mt_volume t) @ '' '',
     '' ts='' @ format_int (sint (mt_timestamp_ns t)) @ ''ns '', '' side='' @ side_str (mt_side t)]"
    (is "_ = [?f1, ?f2, ?f3, ?f4, ?f5]")
proof -
  have "tick_to_string t = ?f1 @ CHR ''|'' # ?f2 @ CHR ''|'' # ?f3 @ CHR ''|'' # ?f4 @ CHR ''|'' # ?f5"
    by (simp add: tick_to_string_def)
  moreover have "CHR ''|'' \<notin> set ?f1" using assms by simp
  moreover have "CHR ''|'' \<notin> set ?f2" "CHR ''|'' \<notin> set ?f3" "CHR ''|'' \<notin> set ?f4" "CHR ''|'' \<notin> set ?f5"
    using format_clean by simp_all
  ultimately show ?thesis by (simp only: bar_fields_item bar_fields_word not_False_eq_True)
qed

lemma rhe_decimal: "\<bar>of_int (rhe (x * 10 ^ p)) / 10 ^ p - x\<bar> \<le> 1 / (2 * 10 ^ p)"
proof -
  have "of_int (rhe (x * 10 ^ p)) / 10 ^ p - x = (of_int (rhe (x * 10 ^ p)) - x * 10 ^ p) / 10 ^ p"
    by (simp add: diff_divide_distrib)
  then have "\<bar>of_int (rhe (x * 10 ^ p)) / 10 ^ p - x\<bar> = \<bar>of_int (rhe (x * 10 ^ p)) - x * 10 ^ p\<bar> / 10 ^ p"
    by (simp add: abs_divide)
  also have "\<dots> \<le> (1/2) / 10 ^ p" using rhe_nearest by (intro divide_right_mono) simp_all
  finally show ?thesis by simp
qed

section \<open>Properties\<close>

text \<open>
  The text of a tick is faithful: for a tick with finite price and volume whose symbol has no bar, the five fields of the
  text give back the symbol, the exact time stamp and the side, the price to within half a cent and the volume to within
  half of its fourth decimal.
\<close>

theorem to_string_readable:
  assumes "CHR ''|'' \<notin> set (sym_string (mt_symbol t))" "mt_price t = Fin x" "mt_volume t = Fin v"
  shows "\<exists>x' v'. read_tick (tick_to_string t) = Some (sym_string (mt_symbol t), x', v', sint (mt_timestamp_ns t), side_str (mt_side t))
    \<and> \<bar>x' - x\<bar> \<le> 1 / 200 \<and> \<bar>v' - v\<bar> \<le> 1 / 20000"
proof -
  have "read_tick (tick_to_string t) = Some (sym_string (mt_symbol t), of_int (rhe (x * 10 ^ 2)) / 10 ^ 2,
      of_int (rhe (v * 10 ^ 4)) / 10 ^ 4, sint (mt_timestamp_ns t), side_str (mt_side t))"
    unfolding read_tick_def tick_to_string_fields [OF assms(1)]
    by (simp add: butlast_append format_int_read assms(2,3) format_fixed_read del: format_fixed.simps)
  moreover have "\<bar>of_int (rhe (x * 10 ^ 2)) / 10 ^ 2 - x\<bar> \<le> 1 / 200" "\<bar>of_int (rhe (v * 10 ^ 4)) / 10 ^ 4 - v\<bar> \<le> 1 / 20000"
    using rhe_decimal [of x 2] rhe_decimal [of v 4] by simp_all
  ultimately show ?thesis by blast
qed

theorem to_string_readable_witness:
  "\<exists>x' v'. read_tick (tick_to_string (make_tick ''BTCUSD'' (Fin (84001/2)) (Fin (5/4)) 0 123)) = Some (''BTCUSD'', x', v', 123, ''BID'')
    \<and> \<bar>x' - 84001/2\<bar> \<le> 1 / 200 \<and> \<bar>v' - 5/4\<bar> \<le> 1 / 20000"
proof -
  have s: "sym_string (mt_symbol (make_tick ''BTCUSD'' (Fin (84001/2)) (Fin (5/4)) 0 123)) = ''BTCUSD''"
    by (simp add: sym_string_make_tick)
  show ?thesis
    using to_string_readable [of "make_tick ''BTCUSD'' (Fin (84001/2)) (Fin (5/4)) 0 123" "84001/2" "5/4"]
    unfolding s by (simp add: side_str_def)
qed

end
