(* ===== verification/HealthReport.thy ===== *)
theory HealthReport
  imports Metrics TickFormat
begin

text \<open>
  What \<open>tools/health_check.cpp\<close> prints, and the two other renderings of \<open>infra/MetricsCollector.hpp\<close>. The JSON library is a parameter
  (\<open>json_api\<close>): how it builds values and objects, and how it prints them. The report is modelled line by line, with the escape
  sequences for colours; the three lines of the banner are UTF-8 bytes.
\<close>

section \<open>Metrics as JSON and as a log line\<close>

record 'j json_api =
  j_int :: "i64 \<Rightarrow> 'j"
  j_uint :: "u64 \<Rightarrow> 'j"
  j_double :: "double \<Rightarrow> 'j"
  j_object :: "(string \<times> 'j) list \<Rightarrow> 'j"
  j_dump :: "nat \<Rightarrow> 'j \<Rightarrow> string"

definition metrics_to_json :: "'j json_api \<Rightarrow> PipelineSnapshot \<Rightarrow> 'j" where
  "metrics_to_json api s = j_object api
     [(''snapshot_time_ns'', j_int api (snapshot_time_ns s)),
      (''feed'', j_object api
        [(''ticks_published'', j_uint api (feed_ticks_published s)), (''ticks_dropped'', j_uint api (feed_ticks_dropped s))]),
      (''parser'', j_object api
        [(''ticks_processed'', j_uint api (parser_ticks_processed s)), (''ticks_rejected'', j_uint api (parser_ticks_rejected s))]),
      (''normalizer'', j_object api
        [(''ticks_forwarded'', j_uint api (norm_ticks_forwarded s)), (''ticks_deduplicated'', j_uint api (norm_ticks_deduplicated s)),
         (''ticks_reordered'', j_uint api (norm_ticks_reordered s))]),
      (''book'', j_object api
        [(''ticks_processed'', j_uint api (book_ticks_processed s)), (''books_active'', j_uint api (book_books_active s))]),
      (''derived'', j_object api
        [(''feed_drop_rate'', j_double api (feed_drop_rate s)), (''parser_reject_rate'', j_double api (parser_reject_rate s)),
         (''norm_dedup_rate'', j_double api (norm_dedup_rate s))])]"

definition show_u64 :: "u64 \<Rightarrow> string" where
  "show_u64 w = nat_digits (unat w)"

definition metrics_log_line :: "PipelineSnapshot \<Rightarrow> string" where
  "metrics_log_line s =
     ''feed='' @ show_u64 (feed_ticks_published s) @ ''/'' @ show_u64 (feed_ticks_dropped s) @
     '' parser='' @ show_u64 (parser_ticks_processed s) @ ''/'' @ show_u64 (parser_ticks_rejected s) @
     '' norm='' @ show_u64 (norm_ticks_forwarded s) @ ''/'' @ show_u64 (norm_ticks_deduplicated s) @ ''/'' @ show_u64 (norm_ticks_reordered s) @
     '' book='' @ show_u64 (book_ticks_processed s) @ ''/'' @ show_u64 (book_books_active s)"

section \<open>The health check\<close>

definition health_config :: FeedConfig where
  "health_config = default_config\<lparr>fc_tick_rate_hz := 10000, fc_symbols := [''AAPL'', ''MSFT'', ''BTCUSD'']\<rparr>"

definition json_mode :: "string list \<Rightarrow> bool" where
  "json_mode args \<longleftrightarrow> 1 < length args \<and> args ! 1 = ''--json''"

fun failure_message :: "health_failure \<Rightarrow> string" where
  "failure_message FeedSilent = ''feed_ticks_published == 0 (pipeline did not start)''"
| "failure_message ParserSilent = ''parser_ticks_processed == 0''"
| "failure_message NormSilent = ''norm_ticks_forwarded == 0''"
| "failure_message BookSilent = ''book_ticks_processed == 0''"
| "failure_message (DropRateExceeds r) = ''feed_drop_rate '' @ format_fixed 2 (dmul r (Fin 100)) @ ''% exceeds threshold 5.00%''"
| "failure_message (RejectRateExceeds r) = ''parser_reject_rate '' @ format_fixed 2 (dmul r (Fin 100)) @ ''% exceeds threshold 10.00%''"

definition colour :: "string \<Rightarrow> string \<Rightarrow> string" where
  "colour code s = CHR 0x1B # ''['' @ code @ ''m'' @ s @ CHR 0x1B # ''[0m''"

text \<open>The box-drawing character whose third byte is given.\<close>

definition box :: "char \<Rightarrow> string" where
  "box b = [CHR 0xE2, CHR 0x94, b]"

definition banner :: "string list" where
  "banner =
     [''  '' @ box CHR 0x8C @ concat (replicate 41 (box CHR 0x80)) @ box CHR 0x90,
      ''  '' @ box CHR 0x82 @ ''         MDP Health Check Report         '' @ box CHR 0x82,
      ''  '' @ box CHR 0x94 @ concat (replicate 41 (box CHR 0x80)) @ box CHR 0x98, '''']"

definition show_rate :: "double \<Rightarrow> string" where
  "show_rate r = format_fixed 2 (dmul r (Fin 100)) @ ''%''"

definition report_lines :: "PipelineSnapshot \<Rightarrow> string list" where
  "report_lines s = banner @
     [colour ''36'' ''[FEED]'',
      ''    ticks_published : '' @ show_u64 (feed_ticks_published s),
      ''    ticks_dropped   : '' @ show_u64 (feed_ticks_dropped s),
      ''    drop_rate       : '' @ show_rate (feed_drop_rate s), '''',
      colour ''36'' ''[PARSER]'',
      ''    ticks_processed : '' @ show_u64 (parser_ticks_processed s),
      ''    ticks_rejected  : '' @ show_u64 (parser_ticks_rejected s),
      ''    reject_rate     : '' @ show_rate (parser_reject_rate s), '''',
      colour ''36'' ''[NORMALIZER]'',
      ''    ticks_forwarded    : '' @ show_u64 (norm_ticks_forwarded s),
      ''    ticks_deduplicated : '' @ show_u64 (norm_ticks_deduplicated s),
      ''    ticks_reordered    : '' @ show_u64 (norm_ticks_reordered s),
      ''    dedup_rate         : '' @ show_rate (norm_dedup_rate s), '''',
      colour ''36'' ''[BOOK]'',
      ''    ticks_processed : '' @ show_u64 (book_ticks_processed s),
      ''    books_active    : '' @ show_u64 (book_books_active s), ''''] @
     (if health_failures s = [] then [''[STATUS]  '' @ colour ''32'' ''HEALTHY'']
      else (''[STATUS]  '' @ colour ''31'' ''UNHEALTHY'') # map (\<lambda>f. ''  FAIL: '' @ failure_message f) (health_failures s))"

definition print_lines :: "string list \<Rightarrow> string" where
  "print_lines ls = concat (map (\<lambda>l. l @ [CHR 0x0A]) ls)"

text \<open>
  The end of \<open>main\<close>, after the shutdown: standard output, standard error and exit code. The counters are read
  twice, at two readings of the clock.
\<close>

definition health_main :: "'j json_api \<Rightarrow> string list \<Rightarrow> FeedSimulator \<Rightarrow> TickParser \<Rightarrow> Normalizer \<Rightarrow> BookProcessor \<Rightarrow> i64 \<Rightarrow> i64
    \<Rightarrow> string \<times> string \<times> int" where
  "health_main api args feed parser normalizer bp now now' =
     (let snap = metrics_snapshot feed parser normalizer bp now;
          json = print_lines [j_dump api 2 (metrics_to_json api (metrics_snapshot feed parser normalizer bp now'))]
      in if json_mode args then (json, [], health_exit_code snap)
         else (print_lines (report_lines snap), json, health_exit_code snap))"

section \<open>Reading the output\<close>

fun read_lines :: "string \<Rightarrow> string list" where
  "read_lines [] = []"
| "read_lines (c # s) = (if c = CHR 0x0A then [] # read_lines s
     else (case read_lines s of [] \<Rightarrow> [[c]] | l # ls \<Rightarrow> (c # l) # ls))"

definition after_colon :: "string \<Rightarrow> string" where
  "after_colon l = drop 2 (dropWhile (\<lambda>c. c \<noteq> CHR '':'') l)"

text \<open>The nine counters, the three rates and the verdict of a report.\<close>

definition read_counters :: "string \<Rightarrow> nat list" where
  "read_counters out = map (\<lambda>i. read_nat (after_colon (read_lines out ! i))) [5, 6, 10, 11, 15, 16, 17, 21, 22]"

definition read_rates :: "string \<Rightarrow> rat list" where
  "read_rates out = map (\<lambda>i. read_fixed 2 (butlast (after_colon (read_lines out ! i)))) [7, 12, 18]"

definition read_healthy :: "string \<Rightarrow> bool" where
  "read_healthy out \<longleftrightarrow> drop 10 (read_lines out ! 24) = colour ''32'' ''HEALTHY''"

definition read_failures :: "string \<Rightarrow> string list" where
  "read_failures out = map (drop 8) (drop 25 (read_lines out))"

text \<open>Looking up a path in a JSON value, for an object representation whose lookup is \<open>look\<close>.\<close>

fun json_path :: "('j \<Rightarrow> string \<Rightarrow> 'j option) \<Rightarrow> 'j \<Rightarrow> string list \<Rightarrow> 'j option" where
  "json_path look j [] = Some j"
| "json_path look j (k # ks) = (case look j k of None \<Rightarrow> None | Some j' \<Rightarrow> json_path look j' ks)"

section \<open>Facts\<close>

lemma read_lines_item: "CHR 0x0A \<notin> set l \<Longrightarrow> read_lines (l @ CHR 0x0A # s) = l # read_lines s"
  by (induction l) auto

lemma read_print_lines: "\<forall>l \<in> set ls. CHR 0x0A \<notin> set l \<Longrightarrow> read_lines (print_lines ls) = ls"
  by (induction ls) (auto simp: print_lines_def read_lines_item)

lemma no_newline: "CHR 0x0A \<notin> set (show_u64 w)" "CHR 0x0A \<notin> set (format_fixed p x)" "CHR 0x0A \<notin> set (show_rate r)"
  "CHR 0x0A \<notin> set (failure_message f)"
proof -
  have d: "\<not> is_digit CHR 0x0A" by (simp add: is_digit_def)
  then show "CHR 0x0A \<notin> set (show_u64 w)" using nat_digits_set by (auto simp: show_u64_def)
  have f: "CHR 0x0A \<notin> set (format_fixed q y)" for q y using d format_fixed_set [of q y] by force
  then show "CHR 0x0A \<notin> set (format_fixed p x)" .
  show "CHR 0x0A \<notin> set (show_rate r)" "CHR 0x0A \<notin> set (failure_message f)"
    using f by (cases f; simp add: show_rate_def)+
qed

lemma banner_no_newline: "\<forall>l \<in> set banner. CHR 0x0A \<notin> set l" "length banner = 4"
  by (simp_all add: banner_def box_def)

lemma report_no_newline: "\<forall>l \<in> set (report_lines s). CHR 0x0A \<notin> set l"
  using banner_no_newline(1) no_newline by (auto simp: report_lines_def colour_def)

lemma read_report [simp]: "read_lines (print_lines (report_lines s)) = report_lines s"
  using read_print_lines [OF report_no_newline] .

lemma report_nth:
  "report_lines s ! 5 = ''    ticks_published : '' @ show_u64 (feed_ticks_published s)"
  "report_lines s ! 6 = ''    ticks_dropped   : '' @ show_u64 (feed_ticks_dropped s)"
  "report_lines s ! 7 = ''    drop_rate       : '' @ show_rate (feed_drop_rate s)"
  "report_lines s ! 10 = ''    ticks_processed : '' @ show_u64 (parser_ticks_processed s)"
  "report_lines s ! 11 = ''    ticks_rejected  : '' @ show_u64 (parser_ticks_rejected s)"
  "report_lines s ! 12 = ''    reject_rate     : '' @ show_rate (parser_reject_rate s)"
  "report_lines s ! 15 = ''    ticks_forwarded    : '' @ show_u64 (norm_ticks_forwarded s)"
  "report_lines s ! 16 = ''    ticks_deduplicated : '' @ show_u64 (norm_ticks_deduplicated s)"
  "report_lines s ! 17 = ''    ticks_reordered    : '' @ show_u64 (norm_ticks_reordered s)"
  "report_lines s ! 18 = ''    dedup_rate         : '' @ show_rate (norm_dedup_rate s)"
  "report_lines s ! 21 = ''    ticks_processed : '' @ show_u64 (book_ticks_processed s)"
  "report_lines s ! 22 = ''    books_active    : '' @ show_u64 (book_books_active s)"
  "report_lines s ! 24 = ''[STATUS]  '' @ (if health_failures s = [] then colour ''32'' ''HEALTHY'' else colour ''31'' ''UNHEALTHY'')"
  "drop 25 (report_lines s) = map (\<lambda>f. ''  FAIL: '' @ failure_message f) (health_failures s)"
  by (simp_all add: report_lines_def nth_append banner_no_newline(2))

lemma read_nat_show: "read_nat (show_u64 w) = unat w"
  by (simp add: show_u64_def nat_digits_read)

lemma report_counters: "read_counters (print_lines (report_lines s)) =
   map unat [feed_ticks_published s, feed_ticks_dropped s, parser_ticks_processed s, parser_ticks_rejected s,
     norm_ticks_forwarded s, norm_ticks_deduplicated s, norm_ticks_reordered s, book_ticks_processed s, book_books_active s]"
  by (simp add: read_counters_def report_nth after_colon_def read_nat_show)

lemma report_rates: "read_rates (print_lines (report_lines s)) =
   map (\<lambda>r. read_fixed 2 (format_fixed 2 (dmul r (Fin 100)))) [feed_drop_rate s, parser_reject_rate s, norm_dedup_rate s]"
  by (simp add: read_rates_def report_nth after_colon_def show_rate_def butlast_append)

lemma report_verdict: "read_healthy (print_lines (report_lines s)) \<longleftrightarrow> health_exit_code s = 0"
  by (simp add: read_healthy_def report_nth health_exit_code_def colour_def)

lemma report_failures: "read_failures (print_lines (report_lines s)) = map failure_message (health_failures s)"
  by (simp add: read_failures_def report_nth comp_def)

text \<open>The configuration of the health check is valid, so its simulator starts.\<close>

lemma health_config_valid: "config_is_valid health_config"
proof -
  have v: "\<not> dle (fc_volatility default_config) (Fin 0)"
    using round64_eval [of "-10" "1 / 1000" 4611686018427388] by (simp add: default_config_def power_int_def power_divide)
  show ?thesis using v by (simp add: config_is_valid_def health_config_def) (simp add: default_config_def)
qed

text \<open>Every value of the snapshot is found in its JSON form under its path.\<close>

lemma metrics_json_values:
  assumes "\<And>kvs k. distinct (map fst kvs) \<Longrightarrow> look (j_object api kvs) k = map_of kvs k"
  shows "json_path look (metrics_to_json api s) [''snapshot_time_ns''] = Some (j_int api (snapshot_time_ns s))"
    "json_path look (metrics_to_json api s) [''feed'', ''ticks_published''] = Some (j_uint api (feed_ticks_published s))"
    "json_path look (metrics_to_json api s) [''feed'', ''ticks_dropped''] = Some (j_uint api (feed_ticks_dropped s))"
    "json_path look (metrics_to_json api s) [''parser'', ''ticks_processed''] = Some (j_uint api (parser_ticks_processed s))"
    "json_path look (metrics_to_json api s) [''parser'', ''ticks_rejected''] = Some (j_uint api (parser_ticks_rejected s))"
    "json_path look (metrics_to_json api s) [''normalizer'', ''ticks_forwarded''] = Some (j_uint api (norm_ticks_forwarded s))"
    "json_path look (metrics_to_json api s) [''normalizer'', ''ticks_deduplicated''] = Some (j_uint api (norm_ticks_deduplicated s))"
    "json_path look (metrics_to_json api s) [''normalizer'', ''ticks_reordered''] = Some (j_uint api (norm_ticks_reordered s))"
    "json_path look (metrics_to_json api s) [''book'', ''ticks_processed''] = Some (j_uint api (book_ticks_processed s))"
    "json_path look (metrics_to_json api s) [''book'', ''books_active''] = Some (j_uint api (book_books_active s))"
    "json_path look (metrics_to_json api s) [''derived'', ''feed_drop_rate''] = Some (j_double api (feed_drop_rate s))"
    "json_path look (metrics_to_json api s) [''derived'', ''parser_reject_rate''] = Some (j_double api (parser_reject_rate s))"
    "json_path look (metrics_to_json api s) [''derived'', ''norm_dedup_rate''] = Some (j_double api (norm_dedup_rate s))"
  by (simp_all add: metrics_to_json_def assms)

section \<open>Properties\<close>

text \<open>
  C24. The report of the health check is faithful: from standard output alone one reads back all nine counters
  exactly, the verdict that the exit code gives, and one line per failure, in order; a rate is printed in percent
  to within half of its second decimal. With \<open>--json\<close> standard output is only the JSON text, and the exit code is the same.
\<close>

theorem health_report_faithful:
  assumes "health_main api args feed parser normalizer bp now now' = (out, err, code)"
    and "m = metrics_snapshot feed parser normalizer bp now"
  shows "code = health_exit_code m \<and>
    (json_mode args \<longrightarrow> err = [] \<and>
       out = j_dump api 2 (metrics_to_json api (m\<lparr>snapshot_time_ns := now'\<rparr>)) @ [CHR 0x0A]) \<and>
    (\<not> json_mode args \<longrightarrow>
       read_counters out = map unat [feed_ticks_published m, feed_ticks_dropped m, parser_ticks_processed m, parser_ticks_rejected m,
         norm_ticks_forwarded m, norm_ticks_deduplicated m, norm_ticks_reordered m, book_ticks_processed m, book_books_active m] \<and>
       (read_healthy out \<longleftrightarrow> code = 0) \<and>
       read_failures out = map failure_message (health_failures m) \<and>
       (\<forall>x. dmul (feed_drop_rate m) (Fin 100) = Fin x \<longrightarrow> \<bar>read_rates out ! 0 - x\<bar> \<le> 1 / 200) \<and>
       (\<forall>x. dmul (parser_reject_rate m) (Fin 100) = Fin x \<longrightarrow> \<bar>read_rates out ! 1 - x\<bar> \<le> 1 / 200) \<and>
       (\<forall>x. dmul (norm_dedup_rate m) (Fin 100) = Fin x \<longrightarrow> \<bar>read_rates out ! 2 - x\<bar> \<le> 1 / 200))"
proof -
  have out: "\<not> json_mode args \<Longrightarrow> out = print_lines (report_lines m)" "code = health_exit_code m"
    using assms by (auto simp: health_main_def Let_def split: if_splits)
  have r: "\<bar>read_fixed 2 (format_fixed 2 (Fin x)) - x\<bar> \<le> 1 / 200" for x
    using rhe_decimal [of x 2] unfolding format_fixed_read by simp
  have j: "json_mode args \<Longrightarrow> err = [] \<and> out = j_dump api 2 (metrics_to_json api (m\<lparr>snapshot_time_ns := now'\<rparr>)) @ [CHR 0x0A]"
    using assms by (auto simp: health_main_def Let_def print_lines_def metrics_snapshot_def)
  have r': "\<bar>read_fixed 2 (format_fixed 2 (Fin x)) - x\<bar> * 200 \<le> 1" for x using r [of x] by simp
  show ?thesis
    using j out(1) by (simp add: r' out(2) report_counters report_verdict report_failures report_rates del: format_fixed.simps list.map)
qed

definition demo_json :: "unit json_api" where
  "demo_json = \<lparr>j_int = \<lambda>_. (), j_uint = \<lambda>_. (), j_double = \<lambda>_. (), j_object = \<lambda>_. (), j_dump = \<lambda>_ _. ''{}''\<rparr>"

text \<open>A run in which twice as many ticks are dropped as published, reported as 200 percent.\<close>

theorem health_report_faithful_witness:
  "\<exists>out err. health_main demo_json [''health_check''] (demo_feed\<lparr>fs_published := 100, fs_dropped := 200\<rparr>) demo_parser demo_normalizer
      (demo_bp []) 5 6 = (out, err, 1) \<and> read_counters out = [100, 200, 0, 0, 0, 0, 0, 0, 0] \<and> \<not> read_healthy out \<and>
      \<bar>read_rates out ! 0 - 200\<bar> \<le> 1 / 200"
proof -
  let ?f = "demo_feed\<lparr>fs_published := 100, fs_dropped := 200\<rparr>"
  define m where "m = metrics_snapshot ?f demo_parser demo_normalizer (demo_bp []) 5"
  obtain out err code where h: "health_main demo_json [''health_check''] ?f demo_parser demo_normalizer (demo_bp []) 5 6 = (out, err, code)"
    using prod_cases3 by blast
  have "feed_drop_rate m = Fin 2"
    by (simp add: m_def metrics_snapshot_def feed_drop_rate_def of_u64_def)
  then have d: "dmul (feed_drop_rate m) (Fin 100) = Fin 200" by simp
  have c: "map unat [feed_ticks_published m, feed_ticks_dropped m, parser_ticks_processed m, parser_ticks_rejected m,
         norm_ticks_forwarded m, norm_ticks_deduplicated m, norm_ticks_reordered m, book_ticks_processed m, book_books_active m]
      = [100, 200, 0, 0, 0, 0, 0, 0, 0]"
    by (simp add: m_def metrics_snapshot_def demo_parser_def demo_normalizer_def demo_bp_def new_book_processor_def books_active_def)
  have e: "health_exit_code m = 1"
    by (simp add: health_exit_code_def health_failures_def m_def metrics_snapshot_def demo_parser_def)
  have "\<not> json_mode [''health_check'']" by (simp add: json_mode_def)
  then show ?thesis using health_report_faithful [OF h m_def] h c d e by auto
qed

end
