(* ===== verification/HealthCheck.thy ===== *)
theory HealthCheck
  imports FeedSteps HealthReport
begin

text \<open>
  The whole program \<open>tools/health_check.cpp\<close>: \<open>main\<close> wires the simulator and stages 2 to 4, starts their threads from the back to the front, stops
  them from the front to the back, and then reports. All five threads interleave; the sleeping of \<open>main\<close> between the
  calls has no effect but to let the others go on, so that it is covered. A step of the simulator is given its random sample
  and the clock.
\<close>

section \<open>The program\<close>

text \<open>
  \<open>hc_started\<close> counts the calls of \<open>start\<close>: \<open>book\<close>, \<open>norm\<close>, \<open>parser\<close> and \<open>sim\<close>. The stop requests are those of the pipeline (\<open>pl_ctl\<close>).
\<close>

record health =
  hc_started :: nat
  hc_sim :: "sim_pc \<times> FeedSimulator"
  hc_pipe :: pipe

datatype hc_act = HC_main | HC_sim noise i64 | HC_parser | HC_norm | HC_book

definition hc_main :: "health \<Rightarrow> health" where
  "hc_main s = (if hc_started s < 4 then s\<lparr>hc_started := hc_started s + 1\<rparr> else s\<lparr>hc_pipe := main_step (hc_pipe s)\<rparr>)"

definition hc_feed :: "noise \<Rightarrow> i64 \<Rightarrow> health \<Rightarrow> health" where
  "hc_feed n now s =
     (let p = hc_pipe s; f = sim_turn (n, now) (1 \<le> pl_ctl p) (sim_with_ring (q1 p) (hc_sim s))
      in s\<lparr>hc_sim := f, hc_pipe := feed_into (sim_ring f) (fs_published (snd f) \<noteq> fs_published (snd (hc_sim s))) (fst f = S_done) p\<rparr>)"

definition hc_stage :: "nat \<Rightarrow> act \<Rightarrow> health \<Rightarrow> health cpp" where
  "hc_stage k a s = (if k \<le> hc_started s then cpp_bind (pipe_step a (hc_pipe s)) (\<lambda>p. Value (s\<lparr>hc_pipe := p\<rparr>)) else Value s)"

fun hc_step :: "hc_act \<Rightarrow> health \<Rightarrow> health cpp" where
  "hc_step HC_main s = Value (hc_main s)"
| "hc_step (HC_sim n now) s = Value (if 4 \<le> hc_started s then hc_feed n now s else s)"
| "hc_step HC_parser s = hc_stage 3 ParserStep s"
| "hc_step HC_norm s = hc_stage 2 NormStep s"
| "hc_step HC_book s = hc_stage 1 BookStep s"

fun hc_run :: "hc_act list \<Rightarrow> health \<Rightarrow> health cpp" where
  "hc_run [] s = Value s"
| "hc_run (a # as) s = cpp_bind (hc_step a s) (hc_run as)"

definition health_start :: health where
  "health_start = (let fs = new_feed_simulator health_config (new_ring 16384 zero_tick)
     in \<lparr>hc_started = 0, hc_sim = (sim_start fs, fs), hc_pipe = health_pipe\<rparr>)"

text \<open>After the last stop the counters are read and printed: standard output, standard error and the exit code.\<close>

definition health_result :: "'j json_api \<Rightarrow> string list \<Rightarrow> i64 \<Rightarrow> i64 \<Rightarrow> health \<Rightarrow> (string \<times> string \<times> int) option" where
  "health_result api args now now' s =
     (if pl_ctl (hc_pipe s) = 5
      then Some (health_main api args (snd (hc_sim s)) (pl_parser (hc_pipe s)) (pl_norm (hc_pipe s)) (pl_book (hc_pipe s)) now now')
      else None)"

definition hc_sane :: "hc_act list \<Rightarrow> bool" where
  "hc_sane acts \<longleftrightarrow> (\<forall>n now. HC_sim n now \<in> set acts \<longrightarrow> sane_noise n)"

section \<open>Every run is a run of the pipeline\<close>

definition hc_inv :: "health \<Rightarrow> bool" where
  "hc_inv s \<longleftrightarrow> simf.coupled (hc_sim s) (hc_pipe s) \<and> pipe_inv (hc_pipe s) \<and> hc_started s \<le> 4"

definition hc_follows :: "pipe \<Rightarrow> pipe \<Rightarrow> bool" where
  "hc_follows p p' \<longleftrightarrow> (\<exists>as. (\<forall>t. FeedPush t \<in> set as \<longrightarrow> feedable t) \<and> pipe_run as p = Value p')"

lemma hc_follows_refl [simp]: "hc_follows p p"
  unfolding hc_follows_def by (intro exI [of _ "[]"]) simp

lemma hc_follows_step: "pipe_step a p = Value p' \<Longrightarrow> (\<And>t. a \<noteq> FeedPush t) \<Longrightarrow> hc_follows p p'"
  unfolding hc_follows_def by (intro exI [of _ "[a]"]) auto

lemma hc_follows_trans: "hc_follows p p1 \<Longrightarrow> hc_follows p1 p2 \<Longrightarrow> hc_follows p p2"
proof -
  assume "hc_follows p p1" "hc_follows p1 p2"
  then obtain as bs where "\<forall>t. FeedPush t \<in> set as \<longrightarrow> feedable t" "pipe_run as p = Value p1"
    "\<forall>t. FeedPush t \<in> set bs \<longrightarrow> feedable t" "pipe_run bs p1 = Value p2" by (auto simp: hc_follows_def)
  then show ?thesis unfolding hc_follows_def by (intro exI [of _ "as @ bs"]) (auto simp: pipe_run_append)
qed

lemma hc_follows_inv: "hc_follows p p' \<Longrightarrow> pipe_inv p \<Longrightarrow> pipe_inv p'"
  using pipe_run_inv by (fastforce simp: hc_follows_def)

lemma hc_stage_ok:
  assumes "hc_inv s" and "a \<in> {ParserStep, NormStep, BookStep}"
  shows "\<exists>s'. hc_stage k a s = Value s' \<and> hc_inv s' \<and> hc_follows (hc_pipe s) (hc_pipe s')"
proof (cases "k \<le> hc_started s")
  case True
  have "pipe_inv (hc_pipe s)" using assms(1) by (simp add: hc_inv_def)
  then obtain p where p: "pipe_step a (hc_pipe s) = Value p" "pipe_inv p" using pipe_step_inv [of "hc_pipe s" a] assms(2) by auto
  have "hc_follows (hc_pipe s) p" using hc_follows_step [OF p(1)] assms(2) by auto
  moreover have "pl_feed_done p = pl_feed_done (hc_pipe s)" "pl_fed p = pl_fed (hc_pipe s)" using stage_quiet(1,2) [OF p(1)] assms(2) by auto
  then have "simf.coupled (hc_sim s) p" using simf.coupled_same [of p "hc_pipe s" "hc_sim s"] assms(1) by (simp add: hc_inv_def)
  ultimately show ?thesis using True p assms(1) by (auto simp: hc_stage_def hc_inv_def)
next
  case False
  then show ?thesis using assms(1) by (simp add: hc_stage_def)
qed

lemma hc_feed_ok:
  assumes inv: "hc_inv s" and n: "sane_noise n"
  shows "hc_inv (hc_feed n now s) \<and> hc_follows (hc_pipe s) (hc_pipe (hc_feed n now s))"
proof -
  define f where "f = sim_turn (n, now) (1 \<le> pl_ctl (hc_pipe s)) (sim_with_ring (q1 (hc_pipe s)) (hc_sim s))"
  define p where "p = feed_into (sim_ring f) (fs_published (snd f) \<noteq> fs_published (snd (hc_sim s))) (fst f = S_done) (hc_pipe s)"
  have s': "hc_feed n now s = s\<lparr>hc_sim := f, hc_pipe := p\<rparr>" by (simp add: hc_feed_def Let_def f_def p_def)
  have c: "simf.coupled (hc_sim s) (hc_pipe s)" "sane_noise (fst (n, now))" using inv n by (simp_all add: hc_inv_def)
  obtain as where "feed_acts feedable as" "pipe_run as (hc_pipe s) = Value p" using simf.turn_refines [OF c f_def] unfolding p_def by blast
  then have "hc_follows (hc_pipe s) p" by (auto simp: hc_follows_def feed_acts_def)
  moreover have "simf.coupled f p" unfolding p_def by (rule simf.turn_coupled [OF c f_def])
  ultimately show ?thesis using inv hc_follows_inv unfolding s' by (simp add: hc_inv_def)
qed

lemma hc_step_ok:
  assumes inv: "hc_inv s" and a: "\<And>n now. a = HC_sim n now \<Longrightarrow> sane_noise n"
  shows "\<exists>s'. hc_step a s = Value s' \<and> hc_inv s' \<and> hc_follows (hc_pipe s) (hc_pipe s')"
proof (cases a)
  case HC_main
  have m: "pipe_step MainStep (hc_pipe s) = Value (main_step (hc_pipe s))" by simp
  show ?thesis using inv HC_main hc_follows_step [OF m] main_step_inv simf.coupled_same [OF main_step_quiet] by (auto simp: hc_main_def hc_inv_def)
next
  case (HC_sim n now)
  then show ?thesis using hc_feed_ok [OF inv a] inv by simp
qed (use hc_stage_ok [OF inv] in auto)

lemma hc_run_ok:
  "hc_inv s \<Longrightarrow> hc_sane acts \<Longrightarrow> \<exists>s'. hc_run acts s = Value s' \<and> hc_inv s' \<and> hc_follows (hc_pipe s) (hc_pipe s')"
proof (induction acts arbitrary: s)
  case (Cons a acts)
  obtain s1 where s1: "hc_step a s = Value s1" "hc_inv s1" "hc_follows (hc_pipe s) (hc_pipe s1)"
    using hc_step_ok [OF Cons.prems(1), of a] Cons.prems(2) by (auto simp: hc_sane_def)
  then show ?case using Cons.IH [OF s1(2)] Cons.prems(2) hc_follows_trans by (fastforce simp: hc_sane_def)
qed simp

lemma hc_run_append: "hc_run (as @ bs) s = cpp_bind (hc_run as s) (hc_run bs)"
proof (induction as arbitrary: s)
  case (Cons a as)
  show ?case by (cases "hc_step a s") (simp_all add: Cons.IH)
qed simp

lemma health_start_inv: "hc_inv health_start"
proof -
  have "\<exists>x. round64 (1 / 50) = Fin x" using ieee.rnd_between [of 0 1 "1 / 50"] by auto
  then have "simf.coupled (hc_sim health_start) (hc_pipe health_start)"
    by (simp add: simf.coupled_def health_start_def Let_def sim_ok_def new_feed_simulator_def health_config_def default_config_def
        initial_state_def sane_state_def upt_conv_Cons sim_start_def health_pipe_def new_pipe_def)
  then show ?thesis using wirings_inv(2) by (simp add: hc_inv_def) (simp add: health_start_def Let_def)
qed

section \<open>It comes to its end\<close>

text \<open>How far the simulator is from its end once it is asked to stop: it finishes the round it is in.\<close>

fun sim_rank :: "nat \<Rightarrow> sim_pc \<Rightarrow> nat" where
  "sim_rank n S_done = 0"
| "sim_rank n S_head = 1"
| "sim_rank n (S_symbol i) = 2 + 2 * (n - i)"
| "sim_rank n (S_push i t) = 3 + 2 * (n - Suc i)"

definition sim_work :: "sim_pc \<times> FeedSimulator \<Rightarrow> nat" where
  "sim_work s = sim_rank (length (fc_symbols (fs_config (snd s)))) (fst s)"

lemma sim_turn_work:
  assumes "fst s \<noteq> S_done" shows "sim_work (sim_turn i True (sim_with_ring q s)) < sim_work s"
proof (cases "fst s")
  case (S_symbol k)
  then show ?thesis using generated_fields(2) [of "fst i" "snd i" k "(snd s)\<lparr>fs_output := q\<rparr>"]
    by (auto simp: sim_work_def sim_defs split: prod.splits)
qed (use assms in \<open>auto simp: sim_work_def sim_defs\<close>)

definition hc_next :: "health \<Rightarrow> hc_act" where
  "hc_next s = (if hc_started s < 4 then HC_main else case shutdown_act (hc_pipe s) of
      FeedExit \<Rightarrow> HC_sim calm 0 | ParserStep \<Rightarrow> HC_parser | NormStep \<Rightarrow> HC_norm | BookStep \<Rightarrow> HC_book | _ \<Rightarrow> HC_main)"

definition hc_work :: "health \<Rightarrow> nat" where
  "hc_work s = (if pl_ctl (hc_pipe s) = 1 then sim_work (hc_sim s) else shutdown_work (hc_pipe s))"

abbreviation hc_order :: "(health \<times> health) set" where
  "hc_order \<equiv> measures [\<lambda>s. 4 - hc_started s, \<lambda>s. 5 - pl_ctl (hc_pipe s), hc_work]"

lemma hc_next_sane: "hc_next s = HC_sim n now \<Longrightarrow> sane_noise n"
  using calm_ok(1) by (auto simp: hc_next_def split: act.splits if_splits)

lemma hc_progress:
  assumes inv: "hc_inv s" and c: "pl_ctl (hc_pipe s) < 5"
  shows "\<exists>s'. hc_step (hc_next s) s = Value s' \<and> (s', s) \<in> hc_order"
proof (cases "hc_started s < 4")
  case True
  then show ?thesis by (auto simp: hc_next_def hc_main_def)
next
  case False
  let ?a = "shutdown_act (hc_pipe s)"
  have four: "hc_started s = 4" and pinv: "pipe_inv (hc_pipe s)" using inv False by (auto simp: hc_inv_def)
  show ?thesis
  proof (cases "?a = FeedExit")
    case True
    then have "pl_ctl (hc_pipe s) = 1" "\<not> pl_feed_done (hc_pipe s)" by (auto simp: shutdown_act_def split: if_splits)
    then show ?thesis using True four inv sim_turn_work [of "hc_sim s" "(calm, 0)"]
      by (auto simp: hc_next_def hc_feed_def Let_def hc_work_def hc_inv_def simf.coupled_def)
  next
    case exit: False
    obtain p where p: "pipe_step ?a (hc_pipe s) = Value p" "(p, hc_pipe s) \<in> measures [\<lambda>s. 5 - pl_ctl s, shutdown_work]"
      using shutdown_progress [OF pinv c] .
    have cs: "?a \<in> {ParserStep, NormStep, BookStep, MainStep}" using exit by (simp add: shutdown_act_def split: if_splits)
    then have st: "hc_step (hc_next s) s = Value (s\<lparr>hc_pipe := p\<rparr>)"
      using p(1) four by (auto simp: hc_next_def hc_stage_def hc_main_def simp del: pipe_step.simps(1-7))
    have "pl_ctl p = 2" if "pl_ctl (hc_pipe s) = 1"
    proof -
      have "pl_feed_done (hc_pipe s)" by (rule ccontr) (use exit that in \<open>simp add: shutdown_act_def\<close>)
      then show ?thesis using p(1) that by (auto simp: shutdown_act_def main_step_def)
    qed
    then have "(s\<lparr>hc_pipe := p\<rparr>, s) \<in> hc_order" using p(2) c by (auto simp: hc_work_def shutdown_work_def)
    then show ?thesis using st by blast
  qed
qed

lemma hc_reaches_end:
  assumes "hc_inv s"
  shows "\<exists>acts s'. hc_sane acts \<and> hc_run acts s = Value s' \<and> pl_ctl (hc_pipe s') = 5"
  using assms
proof (induction s rule: wf_induct_rule [OF wf_measures [of "[\<lambda>s. 4 - hc_started s, \<lambda>s. 5 - pl_ctl (hc_pipe s), hc_work]"]])
  case (1 s)
  show ?case
  proof (cases "pl_ctl (hc_pipe s) < 5")
    case True
    obtain s1 where s1: "hc_step (hc_next s) s = Value s1" "(s1, s) \<in> hc_order" using hc_progress [OF "1.prems" True] by blast
    then have "hc_inv s1" using hc_step_ok [OF "1.prems", of "hc_next s"] hc_next_sane [of s] by auto
    from "1.IH" [OF s1(2) this] obtain acts s' where "hc_sane acts" "hc_run acts s1 = Value s'" "pl_ctl (hc_pipe s') = 5" by blast
    then show ?thesis using s1(1) hc_next_sane [of s] by (intro exI [of _ "hc_next s # acts"] exI [of _ s']) (auto simp: hc_sane_def dest: sym)
  next
    case False
    then have "pl_ctl (hc_pipe s) = 5" using "1.prems" pipe_invD(2) by (force simp: hc_inv_def pipe_control_def)
    then show ?thesis by (intro exI [of _ "[]"] exI [of _ s]) (simp add: hc_sane_def)
  qed
qed

section \<open>Properties\<close>

definition demo_hc_acts :: "hc_act list" where
  "demo_hc_acts = replicate 4 HC_main @ [HC_sim calm 5, HC_sim calm 5, HC_sim calm 6, HC_parser, HC_main, HC_parser, HC_norm]"

lemma demo_hc_sane: "hc_sane demo_hc_acts"
  using calm_ok(1) by (simp add: hc_sane_def demo_hc_acts_def)

text \<open>
  C9. The health check as a whole program is safe: with finite random samples, in every interleaving of \<open>main\<close>, the simulator and the three
  stages, from the first \<open>start\<close> to the last \<open>stop\<close>, no thread has undefined behaviour, every book is sorted, uncrossed and filed under its
  symbol, and the simulator has counted as published exactly the ticks that have entered the pipeline. The program refines
  the pipeline: what its threads do to the shared rings is a run of the pipeline of the repository's wiring, fed with ticks it can take.
\<close>

theorem health_check_safe:
  assumes "hc_sane acts"
  shows "\<exists>s as. hc_run acts health_start = Value s \<and> (\<forall>t. FeedPush t \<in> set as \<longrightarrow> feedable t) \<and> pipe_run as health_pipe = Value (hc_pipe s) \<and>
     fs_published (snd (hc_sim s)) = of_nat (pl_fed (hc_pipe s)) \<and>
     (\<forall>k b. book (pl_book (hc_pipe s)) k = Some b \<longrightarrow> book_ok b \<and> book_symbol b = k)"
proof -
  obtain s where s: "hc_run acts health_start = Value s" "hc_inv s" "hc_follows (hc_pipe health_start) (hc_pipe s)"
    using hc_run_ok [OF health_start_inv assms] by blast
  have "hc_pipe health_start = health_pipe" by (simp add: health_start_def Let_def)
  then obtain as where "\<forall>t. FeedPush t \<in> set as \<longrightarrow> feedable t" "pipe_run as health_pipe = Value (hc_pipe s)"
    using s(3) by (auto simp: hc_follows_def)
  then show ?thesis using s(1,2) pipe_books by (auto simp: hc_inv_def simf.coupled_def)
qed

theorem health_check_safe_witness:
  "\<exists>s. hc_run demo_hc_acts health_start = Value s \<and> (\<forall>k b. book (pl_book (hc_pipe s)) k = Some b \<longrightarrow> book_ok b)"
  using health_check_safe [OF demo_hc_sane] by blast

text \<open>
  C10. What the health check prints is consistent: at the end of every run of the program, the counters that one reads from its report
  satisfy the balance of the pipeline. The book has processed as many ticks as the normalizer forwarded; the ticks published are
  those processed, rejected or lost at the stop of the parser; the ticks processed are those forwarded, deduplicated, reordered or lost at the
  stop of the normalizer (all modulo \<open>2 ^ 64\<close>, the width of the counters); and the report says healthy exactly if the exit code is 0.
\<close>

theorem health_check_report:
  assumes "hc_sane acts" and "hc_run acts health_start = Value s" and "health_result api args now now' s = Some (out, err, code)"
    and "\<not> json_mode args" and "read_counters out = [published, dropped, processed, rejected, forwarded, dedup, reordered, booked, active]"
  shows "booked = forwarded \<and> (read_healthy out \<longleftrightarrow> code = 0) \<and>
     (of_nat published :: u64) = of_nat (processed + rejected + pl_parser_lost (hc_pipe s)) \<and>
     (of_nat processed :: u64) = of_nat (forwarded + dedup + reordered + pl_norm_lost (hc_pipe s))"
proof -
  have inv: "hc_inv s" using hc_run_ok [OF health_start_inv assms(1)] assms(2) by auto
  then have pinv: "pipe_inv (hc_pipe s)" and pub: "fs_published (snd (hc_sim s)) = of_nat (pl_fed (hc_pipe s))"
    by (auto simp: hc_inv_def simf.coupled_def)
  define m where "m = metrics_snapshot (snd (hc_sim s)) (pl_parser (hc_pipe s)) (pl_norm (hc_pipe s)) (pl_book (hc_pipe s)) now"
  have five: "pl_ctl (hc_pipe s) = 5" and out: "out = print_lines (report_lines m)" "code = health_exit_code m"
    using assms(3,4) by (auto simp: health_result_def health_main_def Let_def m_def split: if_splits)
  note c = stopped_counts [OF pinv five]
  have r: "of_nat published = feed_ticks_published m" "of_nat processed = parser_ticks_processed m" "of_nat rejected = parser_ticks_rejected m"
    "forwarded = unat (norm_ticks_forwarded m)" "of_nat dedup = norm_ticks_deduplicated m" "of_nat reordered = norm_ticks_reordered m"
    "booked = unat (book_ticks_processed m)"
    using assms(5) unfolding out(1) report_counters by auto
  have "booked = forwarded" using r c(3) by (simp add: m_def metrics_snapshot_def)
  moreover have "read_healthy out \<longleftrightarrow> code = 0" using out report_verdict by simp
  moreover have "(of_nat published :: u64) = of_nat (processed + rejected + pl_parser_lost (hc_pipe s))"
    unfolding of_nat_add r using c(1) pub by (simp add: m_def metrics_snapshot_def)
  moreover have "(of_nat processed :: u64) = of_nat (forwarded + dedup + reordered + pl_norm_lost (hc_pipe s))"
    unfolding of_nat_add r using c(2) by (simp add: m_def metrics_snapshot_def)
  ultimately show ?thesis by blast
qed

text \<open>
  The health check can always complete: from every state it can be in there is a continuation of its threads after which \<open>main\<close> prints
  its report.
\<close>

theorem health_check_finishes:
  assumes "hc_sane acts" and "hc_run acts health_start = Value s"
  shows "\<exists>acts' s'. hc_sane acts' \<and> hc_run (acts @ acts') health_start = Value s' \<and> health_result api args now now' s' \<noteq> None"
proof -
  have "hc_inv s" using hc_run_ok [OF health_start_inv assms(1)] assms(2) by auto
  from hc_reaches_end [OF this] show ?thesis using assms(2) by (fastforce simp: hc_run_append health_result_def)
qed

theorem health_check_finishes_witness:
  "\<exists>acts' s'. hc_run (demo_hc_acts @ acts') health_start = Value s' \<and> health_result demo_json [] 5 6 s' \<noteq> None"
proof -
  obtain s where "hc_run demo_hc_acts health_start = Value s" using hc_run_ok [OF health_start_inv demo_hc_sane] by blast
  from health_check_finishes [OF demo_hc_sane this, of demo_json "[]" 5 6] show ?thesis by blast
qed

text \<open>The report of the run that the witness above ends in.\<close>

theorem health_check_report_witness:
  "\<exists>acts s out err code published dropped processed rejected forwarded dedup reordered booked active.
     hc_run acts health_start = Value s \<and> health_result demo_json [] 5 6 s = Some (out, err, code) \<and>
     read_counters out = [published, dropped, processed, rejected, forwarded, dedup, reordered, booked, active] \<and> booked = forwarded"
proof -
  obtain s1 where s1: "hc_run demo_hc_acts health_start = Value s1" "hc_inv s1" using hc_run_ok [OF health_start_inv demo_hc_sane] by blast
  then obtain acts s where a: "hc_sane acts" "hc_run acts s1 = Value s" "pl_ctl (hc_pipe s) = 5" using hc_reaches_end by blast
  have run: "hc_run (demo_hc_acts @ acts) health_start = Value s" using s1(1) a(2) by (simp add: hc_run_append)
  have sane: "hc_sane (demo_hc_acts @ acts)" using a(1) demo_hc_sane by (auto simp: hc_sane_def)
  have "\<not> json_mode []" by (simp add: json_mode_def)
  moreover obtain out err code where res: "health_result demo_json [] 5 6 s = Some (out, err, code)"
    using a(3) by (simp add: health_result_def) (metis prod_cases3)
  moreover have "length (read_counters out) = 9" by (simp add: read_counters_def)
  then obtain published dropped processed rejected forwarded dedup reordered booked active where
    c: "read_counters out = [published, dropped, processed, rejected, forwarded, dedup, reordered, booked, active]"
    by (auto simp: eval_nat_numeral length_Suc_conv)
  ultimately have "booked = forwarded" using health_check_report [OF sane run res _ c] by blast
  then show ?thesis using run res c by blast
qed

end
