(* ===== verification/WriterSteps.thy ===== *)
theory WriterSteps
  imports DbWriter
begin

text \<open>
  The threads behind the book as sequences of steps: the two database writers and the signal engine. A step of a writer reads the
  stop flag where the code does and does what follows until the next reading; a step of the engine makes one access to a
  ring or reads the flag. As for the first stages, the steps are shown to be the thread functions \<open>writer_run\<close> and \<open>signal_run\<close>.
\<close>

section \<open>Steps of a writer\<close>

text \<open>Where a writer is: before an attempt, in the loop of \<open>process_queue\<close> with its batch and the time of the last flush, in the wait after
  an exception with the readings left, or ended.\<close>

datatype 'a writer_pc = Connecting | Collecting "'a list" int | Waiting nat | Ended

definition after_flush :: "bool \<times> ('a, 'r) writer \<Rightarrow> 'a writer_pc \<times> ('a, 'r) writer" where
  "after_flush r = (case r of (threw, w) \<Rightarrow> (if threw then Waiting 50 else Connecting, w))"

fun writer_micro :: "('a \<Rightarrow> 'r cpp) \<Rightarrow> 'a writer_obs \<Rightarrow> 'a writer_pc \<Rightarrow> ('a, 'r) writer \<Rightarrow> ('a writer_pc \<times> ('a, 'r) writer) cpp" where
  "writer_micro row ob Connecting w =
     Value (if ob_stop ob then Ended else if wo_connect ob then Collecting [] (wo_now ob) else Waiting 50, w)"
| "writer_micro row ob (Collecting batch last_flush) w =
     (if ob_stop ob then
        (if batch \<noteq> [] then cpp_bind (flush_to_db row (wo_commit ob) batch w) (\<lambda>r. Value (after_flush r))
         else Value (Connecting, w))
      else cpp_bind (queue_step row ob batch last_flush w) (\<lambda>(threw, batch', last', w').
             Value (if threw then Waiting 50 else Collecting batch' last', w')))"
| "writer_micro row ob (Waiting n) w = Value (if ob_stop ob \<or> n \<le> 1 then Connecting else Waiting (n - 1), w)"
| "writer_micro row ob Ended w = Value (Ended, w)"


text \<open>A run of a writer on a schedule, and what the thread function returns after it.\<close>

fun writer_steps :: "('a \<Rightarrow> 'r cpp) \<Rightarrow> 'a writer_obs list \<Rightarrow> 'a writer_pc \<Rightarrow> ('a, 'r) writer \<Rightarrow> ('a writer_pc \<times> ('a, 'r) writer) cpp" where
  "writer_steps row [] pc w = Value (pc, w)"
| "writer_steps row (ob # obs) pc w =
     (if pc = Ended then Value (pc, w)
      else cpp_bind (writer_micro row ob pc (writer_env ob w)) (\<lambda>(pc', w'). writer_steps row obs pc' w'))"

fun writer_outcome :: "('a writer_pc \<times> ('a, 'r) writer) cpp \<Rightarrow> ('a, 'r) writer cpp option" where
  "writer_outcome Undefined = Some Undefined"
| "writer_outcome (Value (pc, w)) = (if pc = Ended then Some (Value w) else None)"

section \<open>Steps of the engine\<close>

text \<open>In the loop, about to push a signal, before reading the flag because the output was full, or ended.\<close>

datatype engine_pc = E_poll | E_send Signal | E_full Signal | E_done

fun engine_micro :: "bool \<Rightarrow> engine_pc \<Rightarrow> SignalEngine \<Rightarrow> engine_pc \<times> SignalEngine" where
  "engine_micro stop E_poll se =
     (if stop then (E_done, se)
      else (case try_pop (se_in se) of
              (None, _) \<Rightarrow> (E_poll, se)
            | (Some snap, inq) \<Rightarrow> (E_send (fst (make_signal snap se)), (snd (make_signal snap se))\<lparr>se_in := inq\<rparr>)))"
| "engine_micro stop (E_send sig) se =
     (case try_push (se_out se) sig of
        (True, q) \<Rightarrow> (E_poll, se\<lparr>se_out := q\<rparr>)
      | (False, q) \<Rightarrow> (E_full sig, se\<lparr>se_out := q\<rparr>))"
| "engine_micro stop (E_full sig) se = (if stop then E_poll else E_send sig, se)"
| "engine_micro stop E_done se = (E_done, se)"

text \<open>On a schedule the neighbours act where the flag is read; the push that follows belongs to the same observation.\<close>

definition engine_settle :: "engine_pc \<times> SignalEngine \<Rightarrow> engine_pc \<times> SignalEngine" where
  "engine_settle r = (case r of (E_send sig, se) \<Rightarrow> engine_micro False (E_send sig) se | _ \<Rightarrow> r)"

fun engine_steps :: "MarketSnapshot obs list \<Rightarrow> engine_pc \<Rightarrow> SignalEngine \<Rightarrow> engine_pc \<times> SignalEngine" where
  "engine_steps [] pc se = (pc, se)"
| "engine_steps (ob # obs) pc se =
     (if pc = E_done then (pc, se)
      else (case engine_settle (engine_micro (ob_stop ob) pc (signal_env ob se)) of (pc', se') \<Rightarrow> engine_steps obs pc' se'))"

definition engine_outcome :: "engine_pc \<times> SignalEngine \<Rightarrow> SignalEngine option" where
  "engine_outcome r = (if fst r = E_done then Some (snd r) else None)"

section \<open>The steps are the thread functions\<close>

text \<open>What the thread function still does from a position.\<close>

definition wait_from :: "('a \<Rightarrow> 'r cpp) \<Rightarrow> nat \<Rightarrow> 'a writer_obs list \<Rightarrow> ('a, 'r) writer \<Rightarrow> ('a, 'r) writer cpp option" where
  "wait_from row n obs w = (case backoff n obs w of None \<Rightarrow> None | Some (w2, rest) \<Rightarrow> writer_run row rest w2)"

fun writer_from :: "('a \<Rightarrow> 'r cpp) \<Rightarrow> 'a writer_obs list \<Rightarrow> 'a writer_pc \<Rightarrow> ('a, 'r) writer \<Rightarrow> ('a, 'r) writer cpp option" where
  "writer_from row obs Connecting w = writer_run row obs w"
| "writer_from row obs (Collecting b l) w = (case process_queue row obs b l w of
      None \<Rightarrow> None
    | Some Undefined \<Rightarrow> Some Undefined
    | Some (Value (threw, w2, rest)) \<Rightarrow> if threw then wait_from row 50 rest w2 else writer_run row rest w2)"
| "writer_from row obs (Waiting n) w = wait_from row n obs w"
| "writer_from row obs Ended w = Some (Value w)"

fun wpc_ok :: "'a writer_pc \<Rightarrow> bool" where
  "wpc_ok (Waiting n) = (0 < n)"
| "wpc_ok _ = True"

lemma attempt_from:
  "(case writer_attempt row ob obs w of
      None \<Rightarrow> None
    | Some Undefined \<Rightarrow> Some Undefined
    | Some (Value (w2, rest)) \<Rightarrow> writer_run row rest w2)
   = writer_from row obs (if wo_connect ob then Collecting [] (wo_now ob) else Waiting 50) w"
  by (auto simp: writer_attempt_def wait_from_def split: option.splits cpp.splits)

lemma wait_from_step:
  assumes "0 < n"
  shows "wait_from row n (ob # obs) w =
    (if ob_stop ob \<or> n \<le> 1 then writer_run row obs (writer_env ob w) else wait_from row (n - 1) obs (writer_env ob w))"
  using assms by (cases n) (auto simp: wait_from_def Let_def le_Suc_eq)

lemma writer_micro_pc: "writer_micro row ob pc w = Value (pc', w') \<Longrightarrow> wpc_ok pc'"
  by (cases pc) (auto simp: after_flush_def split: if_splits prod.splits elim!: cpp_bind.elims)

lemma writer_from_step:
  assumes "pc \<noteq> Ended" and "wpc_ok pc"
  shows "writer_from row (ob # obs) pc w = (case writer_micro row ob pc (writer_env ob w) of
      Undefined \<Rightarrow> Some Undefined
    | Value (pc', w') \<Rightarrow> writer_from row obs pc' w')"
proof (cases pc)
  case Connecting
  then show ?thesis using attempt_from [of row ob obs "writer_env ob w"] by (auto simp: Let_def)
next
  case (Collecting b l)
  define w1 where "w1 = writer_env ob w"
  show ?thesis
  proof (cases "ob_stop ob")
    case True
    then show ?thesis using Collecting
      by (cases "flush_to_db row (wo_commit ob) b w1") (auto simp: w1_def [symmetric] after_flush_def Let_def)
  next
    case False
    then show ?thesis using Collecting
      by (cases "queue_step row ob b l w1") (auto simp: w1_def [symmetric] Let_def)
  qed
next
  case (Waiting n)
  then show ?thesis using assms(2) by (auto simp: wait_from_step)
qed (use assms in simp)

lemma writer_from_steps: "wpc_ok pc \<Longrightarrow> writer_from row obs pc w = writer_outcome (writer_steps row obs pc w)"
proof (induction obs arbitrary: pc w)
  case Nil
  then show ?case by (cases pc) (auto simp: wait_from_def gr0_conv_Suc)
next
  case (Cons ob obs)
  show ?case
  proof (cases "pc = Ended")
    case False
    show ?thesis
    proof (cases "writer_micro row ob pc (writer_env ob w)")
      case (Value r)
      obtain pc' w' where r: "r = (pc', w')" by (cases r)
      show ?thesis using writer_from_step [OF False Cons.prems, of row ob obs w] Cons.IH [OF writer_micro_pc] Value r False by simp
    qed (use writer_from_step [OF False Cons.prems, of row ob obs w] False in simp)
  qed simp
qed

text \<open>The engine, from a position.\<close>

definition loop_from :: "MarketSnapshot obs list \<Rightarrow> SignalEngine \<Rightarrow> SignalEngine option" where
  "loop_from obs se = map_option fst (stage_loop signal_env signal_body obs se)"

definition send_from :: "Signal \<Rightarrow> MarketSnapshot obs list \<Rightarrow> SignalEngine \<Rightarrow> SignalEngine option" where
  "send_from sig obs se = (case push_first obs (se_in se) (se_out se) sig of
      None \<Rightarrow> None
    | Some (pushed, inq, outq, rest) \<Rightarrow> loop_from rest (se\<lparr>se_in := inq, se_out := outq\<rparr>))"

fun engine_from :: "MarketSnapshot obs list \<Rightarrow> engine_pc \<Rightarrow> SignalEngine \<Rightarrow> SignalEngine option" where
  "engine_from obs E_poll se = loop_from obs se"
| "engine_from obs (E_send sig) se = send_from sig obs se"
| "engine_from [] (E_full sig) se = None"
| "engine_from (ob # obs) (E_full sig) se =
     (let se1 = signal_env ob se in if ob_stop ob then loop_from obs se1 else send_from sig obs se1)"
| "engine_from obs E_done se = Some se"

lemma settle_from: "engine_from obs pc se = (case engine_settle (pc, se) of (pc', se') \<Rightarrow> engine_from obs pc' se')"
proof (cases pc)
  case (E_send sig)
  obtain b q where p: "try_push (se_out se) sig = (b, q)" by force
  show ?thesis using E_send p
    by (cases obs; cases b) (auto simp: engine_settle_def send_from_def Let_def signal_env_def split: option.split)
qed (simp_all add: engine_settle_def)

lemma loop_from_step:
  "loop_from (ob # obs) se = (case engine_micro (ob_stop ob) E_poll (signal_env ob se) of (pc', se') \<Rightarrow> engine_from obs pc' se')"
proof (cases "ob_stop ob")
  case False
  obtain r q where p: "try_pop (se_in (signal_env ob se)) = (r, q)" by force
  show ?thesis
  proof (cases r)
    case None
    then show ?thesis using False p by (simp add: loop_from_def signal_body_def)
  next
    case (Some snap)
    have f: "se_out (snd (make_signal snap x)) = se_out x" for x by (simp add: make_signal_def Let_def)
    show ?thesis using False p Some
      by (auto simp: loop_from_def send_from_def signal_body_def Let_def f split: option.splits dest!: push_first_rest suffix_length_le)
  qed
qed (simp add: loop_from_def Let_def)

lemma engine_from_steps:
  "\<forall>sig. pc \<noteq> E_send sig \<Longrightarrow> engine_from obs pc se = engine_outcome (engine_steps obs pc se)"
proof (induction obs arbitrary: pc se)
  case Nil
  then show ?case by (cases pc) (auto simp: engine_outcome_def loop_from_def)
next
  case (Cons ob obs)
  obtain pc1 se1 where m: "engine_micro (ob_stop ob) pc (signal_env ob se) = (pc1, se1)" by force
  obtain pc2 se2 where t: "engine_settle (pc1, se1) = (pc2, se2)" by force
  have "\<forall>sig. pc2 \<noteq> E_send sig" using t by (cases pc1) (auto simp: engine_settle_def split: prod.splits bool.splits)
  then have ih: "engine_from obs pc1 se1 = engine_outcome (engine_steps obs pc2 se2)"
    using Cons.IH settle_from [of obs pc1 se1] t by simp
  show ?case
  proof (cases pc)
    case E_poll
    then show ?thesis using loop_from_step [of ob obs se] m t ih by simp
  next
    case (E_full sig)
    then show ?thesis using m t ih by (auto simp: Let_def split: if_splits)
  qed (use Cons.prems in \<open>simp_all add: engine_outcome_def\<close>)
qed

section \<open>Properties\<close>


end
