(* ===== verification/Service.thy ===== *)
theory Service
  imports PipelineData WriterSteps
begin

text \<open>
  The whole service of \<open>tools/processor_main.cpp\<close>: the pipeline from the feed to the book, the database writer and the signal engine
  behind its two snapshot queues, and the writer of the signals. All threads interleave, each in the steps of \<open>StageSteps\<close> and
  \<open>WriterSteps\<close>; the main thread stops them in the order of the code. A step of a writer is given what the database and the clock
  answer. The numbers of snapshots taken by the engine and of signals it gave up are not part of the program.
\<close>

section \<open>The system\<close>

text \<open>
  The snapshot queues are those of the book processor; \<open>sv_alert\<close> is \<open>alert_queue\<close>. \<open>sv_ctl\<close> is the progress of \<open>main\<close> after it has stopped
  the book: 1, 2 and 3 when the stop of \<open>db_writer\<close>, \<open>signal_db_writer\<close> and \<open>signal_engine\<close> has been requested, 4 at the end.
\<close>

record service =
  sv_pipe :: pipe
  sv_ctl :: nat
  sv_db_pc :: "MarketSnapshot writer_pc"
  sv_db :: "(MarketSnapshot, price_row) writer"
  sv_eng_pc :: engine_pc
  sv_eng :: SignalEngine
  sv_alert :: "Signal ring"
  sv_sig_pc :: "Signal writer_pc"
  sv_sig :: "(Signal, signal_rec) writer"
  sv_taken :: nat
  sv_unsent :: nat

datatype sv_act = Upstream act | DbStep bool int bool | EngineStep | SigStep bool int bool | MainNext

text \<open>What a writer reads in one step: the stop flag, whether a connection opens, the clock, and whether a transaction commits.\<close>

definition wobs :: "bool \<Rightarrow> bool \<Rightarrow> int \<Rightarrow> bool \<Rightarrow> 'a writer_obs" where
  "wobs stop connect now commit = \<lparr>ob_stop = stop, ob_in = [], ob_out = 0, wo_connect = connect, wo_now = now, wo_commit = commit\<rparr>"

definition set_db :: "MarketSnapshot ring \<Rightarrow> pipe \<Rightarrow> pipe" where
  "set_db q p = p\<lparr>pl_book := (pl_book p)\<lparr>db_queue := Some q\<rparr>\<rparr>"

definition set_signal :: "MarketSnapshot ring \<Rightarrow> pipe \<Rightarrow> pipe" where
  "set_signal q p = p\<lparr>pl_book := (pl_book p)\<lparr>signal_queue := Some q\<rparr>\<rparr>"

definition service_main :: "service \<Rightarrow> service" where
  "service_main s =
     (if pl_ctl (sv_pipe s) < 5 then s\<lparr>sv_pipe := main_step (sv_pipe s)\<rparr>
      else if sv_ctl s = 0 then s\<lparr>sv_ctl := 1\<rparr>
      else if sv_ctl s = 1 \<and> sv_db_pc s = Ended then s\<lparr>sv_ctl := 2\<rparr>
      else if sv_ctl s = 2 \<and> sv_sig_pc s = Ended then s\<lparr>sv_ctl := 3\<rparr>
      else if sv_ctl s = 3 \<and> sv_eng_pc s = E_done then s\<lparr>sv_ctl := 4\<rparr>
      else s)"

text \<open>Whether a step of the engine took a snapshot, and whether it gave up a signal.\<close>

definition eng_took :: "engine_pc \<Rightarrow> engine_pc \<Rightarrow> nat" where
  "eng_took pc pc' = (case pc' of E_send _ \<Rightarrow> if pc = E_poll then 1 else 0 | _ \<Rightarrow> 0)"

definition eng_gave_up :: "engine_pc \<Rightarrow> engine_pc \<Rightarrow> nat" where
  "eng_gave_up pc pc' = (case pc of E_full _ \<Rightarrow> if pc' = E_poll then 1 else 0 | _ \<Rightarrow> 0)"

fun service_step :: "sv_act \<Rightarrow> service \<Rightarrow> service cpp" where
  "service_step (Upstream a) s =
     (if a = DbTake \<or> a = SignalTake \<or> a = MainStep then Value s
      else cpp_bind (pipe_step a (sv_pipe s)) (\<lambda>p. Value (s\<lparr>sv_pipe := p\<rparr>)))"
| "service_step (DbStep connect now commit) s =
     (case db_queue (pl_book (sv_pipe s)) of
        None \<Rightarrow> Value s
      | Some q \<Rightarrow> cpp_bind (writer_micro db_row (wobs (1 \<le> sv_ctl s) connect now commit) (sv_db_pc s) ((sv_db s)\<lparr>w_input := q\<rparr>))
          (\<lambda>(pc, w). Value (s\<lparr>sv_pipe := set_db (w_input w) (sv_pipe s), sv_db_pc := pc, sv_db := w\<rparr>)))"
| "service_step EngineStep s =
     (case signal_queue (pl_book (sv_pipe s)) of
        None \<Rightarrow> Value s
      | Some q \<Rightarrow> (case engine_micro (3 \<le> sv_ctl s) (sv_eng_pc s) ((sv_eng s)\<lparr>se_in := q, se_out := sv_alert s\<rparr>) of (pc, se) \<Rightarrow>
          Value (s\<lparr>sv_pipe := set_signal (se_in se) (sv_pipe s), sv_eng_pc := pc, sv_eng := se, sv_alert := se_out se,
            sv_taken := sv_taken s + eng_took (sv_eng_pc s) pc, sv_unsent := sv_unsent s + eng_gave_up (sv_eng_pc s) pc\<rparr>)))"
| "service_step (SigStep connect now commit) s =
     cpp_bind (writer_micro signal_row (wobs (2 \<le> sv_ctl s) connect now commit) (sv_sig_pc s) ((sv_sig s)\<lparr>w_input := sv_alert s\<rparr>))
       (\<lambda>(pc, w). Value (s\<lparr>sv_alert := w_input w, sv_sig_pc := pc, sv_sig := w\<rparr>))"
| "service_step MainNext s = Value (service_main s)"

fun service_run :: "sv_act list \<Rightarrow> service \<Rightarrow> service cpp" where
  "service_run [] s = Value s"
| "service_run (a # as) s = cpp_bind (service_step a s) (service_run as)"

definition new_service :: "pipe \<Rightarrow> SignalEngine \<Rightarrow> service" where
  "new_service p se = \<lparr>sv_pipe = p, sv_ctl = 0, sv_db_pc = Connecting, sv_db = new_writer (the (db_queue (pl_book p))),
     sv_eng_pc = E_poll, sv_eng = se, sv_alert = se_out se, sv_sig_pc = Connecting, sv_sig = new_writer (se_out se),
     sv_taken = 0, sv_unsent = 0\<rparr>"

text \<open>The objects that \<open>main\<close> creates, with the default period of the engine.\<close>

definition processor_service :: "service cpp" where
  "processor_service = cpp_bind (new_signal_engine (new_ring 4096 zero_snapshot) (new_ring 4096 zero_signal) 20)
     (\<lambda>se. Value (new_service service_pipe se))"

section \<open>The threads behind the book\<close>

fun batch :: "'a writer_pc \<Rightarrow> 'a list" where
  "batch (Collecting b l) = b"
| "batch _ = []"

fun writer_rank :: "'a writer_pc \<Rightarrow> nat" where
  "writer_rank (Collecting b l) = 3"
| "writer_rank (Waiting n) = 2"
| "writer_rank Connecting = 1"
| "writer_rank Ended = 0"

lemma winv_input: "winv row ok n b w \<Longrightarrow> ring_ok q \<Longrightarrow> \<forall>x \<in> set (ring_items q). ok x \<Longrightarrow> winv row ok n b (w\<lparr>w_input := q\<rparr>)"
  by (simp add: winv_def ball_Un)

lemma queue_step_input:
  "queue_step row ob b l w = Value (threw, b', l', w') \<Longrightarrow> w_input w' = w_input w \<or> w_input w' = snd (try_pop (w_input w))"
  by (auto simp: queue_step_def Let_def flush_to_db_def split: prod.splits option.splits if_splits elim!: cpp_bind.elims)

lemma flush_input: "flush_to_db row c b w = Value (threw, w') \<Longrightarrow> w_input w' = w_input w"
  by (auto simp: flush_to_db_def split: if_splits elim!: cpp_bind.elims)

context row_writer
begin

text \<open>One step of a writer: it keeps its invariant, takes at most one item, ends only after a stop, and a stop brings it closer to its end.\<close>

lemma micro_ok:
  assumes "winv row ok 99 (batch pc) w"
  shows "\<exists>pc' w'. writer_micro row ob pc w = Value (pc', w') \<and> winv row ok 99 (batch pc') w' \<and> stream w' = stream w \<and>
     (w_input w' = w_input w \<or> w_input w' = snd (try_pop (w_input w))) \<and> (pc' = Ended \<longrightarrow> pc = Ended \<or> ob_stop ob) \<and>
     (pc = Ended \<longrightarrow> pc' = Ended) \<and> (ob_stop ob \<and> pc \<noteq> Ended \<longrightarrow> writer_rank pc' < writer_rank pc)"
proof (cases pc)
  case (Collecting b l)
  then have inv: "winv row ok 99 b w" using assms by simp
  show ?thesis
  proof (cases "ob_stop ob")
    case True
    show ?thesis
    proof (cases "b = []")
      case False
      have "winv row ok 100 b w" using inv by (simp add: winv_def)
      then obtain w' where "flush_to_db row (wo_commit ob) b w = Value (\<not> wo_commit ob, w')" "winv row ok 99 [] w'" "stream w' = stream w"
        using flush_ok [OF _ False] by blast
      then show ?thesis using Collecting True False flush_input by (auto simp: after_flush_def)
    qed (use Collecting True inv in simp)
  next
    case False
    obtain threw b' l' w' where "queue_step row ob b l w = Value (threw, b', l', w')" "winv row ok 99 b' w'"
      "stream w' = stream w" "threw \<longrightarrow> b' = []" using step_ok [OF inv] by metis
    then show ?thesis using Collecting False queue_step_input by fastforce
  qed
qed (use assms in auto)

end

fun eng_hand :: "engine_pc \<Rightarrow> Signal list" where
  "eng_hand (E_send g) = [g]"
| "eng_hand (E_full g) = [g]"
| "eng_hand _ = []"

fun eng_rank :: "engine_pc \<Rightarrow> nat" where
  "eng_rank (E_send g) = 3"
| "eng_rank (E_full g) = 2"
| "eng_rank E_poll = 1"
| "eng_rank E_done = 0"

text \<open>A sound signal with the symbol, price and time of a well-formed snapshot.\<close>

definition wf_signal :: "Signal \<Rightarrow> bool" where
  "wf_signal g \<longleftrightarrow> sound_signal g \<and> dle (Fin 0) (sg_price g) \<and> is_double (sg_price g) \<and> length (sg_symbol g) = 8 \<and>
     sg_symbol g ! 0 \<noteq> NUL \<and> sg_symbol g ! 7 = NUL \<and> 0 < sint (sg_timestamp_ns g)"

lemma make_signal_wf: "wf_snapshot snap \<Longrightarrow> wf_signal (fst (make_signal snap se))"
  by (simp add: wf_signal_def wf_snapshot_def make_signal_sound) (simp add: make_signal_def quotable_def Let_def)

text \<open>
  One step of the engine: it takes at most one snapshot, every signal it makes is well formed, a signal in hand is pushed, kept or,
  only after a stop, given up; it ends only after a stop, and a stop brings it closer to its end.
\<close>

lemma engine_micro_ok:
  assumes ok: "ring_ok (se_in se)" "ring_ok (se_out se)" "\<forall>x \<in> set (ring_items (se_in se)). wf_snapshot x" "\<forall>g \<in> set (eng_hand pc). wf_signal g"
    and m: "engine_micro stop pc se = (pc', se')"
  shows "\<exists>gs. (se_in se' = se_in se \<or> se_in se' = snd (try_pop (se_in se))) \<and> ring_ok (se_out se') \<and>
     ring_items (se_out se') = ring_items (se_out se) @ gs \<and> (\<forall>g \<in> set gs. wf_signal g) \<and> (\<forall>g \<in> set (eng_hand pc'). wf_signal g) \<and>
     eng_took pc pc' + length (eng_hand pc) = length gs + length (eng_hand pc') + eng_gave_up pc pc' \<and>
     (pc' = E_done \<longrightarrow> pc = E_done \<or> stop) \<and> (pc = E_done \<longrightarrow> pc' = E_done) \<and> (stop \<and> pc \<noteq> E_done \<longrightarrow> eng_rank pc' < eng_rank pc)"
proof (cases pc)
  case E_poll
  from ok(1) show ?thesis
  proof (cases rule: rb.pop_cases)
    case none
    then show ?thesis using E_poll m ok by (auto simp: eng_took_def eng_gave_up_def split: if_splits)
  next
    case (some x xs q)
    have "se_out (snd (make_signal x se)) = se_out se" by (simp add: make_signal_def Let_def)
    moreover have "wf_signal (fst (make_signal x se))" using make_signal_wf ok(3) some(1) by simp
    ultimately show ?thesis using E_poll m ok some by (auto simp: eng_took_def eng_gave_up_def split: if_splits)
  qed
next
  case (E_send g)
  from ok(2) show ?thesis
    by (cases rule: rb.push_cases [of _ g]) (use E_send m ok in \<open>auto simp: eng_took_def eng_gave_up_def\<close>)
next
  case (E_full g)
  then show ?thesis using m ok by (cases stop) (auto simp: eng_took_def eng_gave_up_def)
next
  case E_done
  then show ?thesis using m ok by (auto simp: eng_took_def eng_gave_up_def)
qed

interpretation dsw: row_writer db_row wf_snapshot
  by unfold_locales (auto simp: wf_snapshot_def intro: dbw.row_defined)

interpretation alw: row_writer signal_row wf_signal
  by unfold_locales (simp add: signal_row_def)

section \<open>The invariant of the service\<close>

definition db_view :: "service \<Rightarrow> (MarketSnapshot, price_row) writer" where
  "db_view s = (sv_db s)\<lparr>w_input := the (db_queue (pl_book (sv_pipe s)))\<rparr>"

definition sig_view :: "service \<Rightarrow> (Signal, signal_rec) writer" where
  "sig_view s = (sv_sig s)\<lparr>w_input := sv_alert s\<rparr>"

definition sv_upstream :: "pipe \<Rightarrow> bool" where
  "sv_upstream p \<longleftrightarrow> pipe_inv p \<and> pipe_small p \<and> db_queue (pl_book p) \<noteq> None \<and> signal_queue (pl_book p) \<noteq> None"

definition sv_writers :: "service \<Rightarrow> bool" where
  "sv_writers s \<longleftrightarrow> winv db_row wf_snapshot 99 (batch (sv_db_pc s)) (db_view s) \<and> winv signal_row wf_signal 99 (batch (sv_sig_pc s)) (sig_view s)"

definition sv_signals :: "service \<Rightarrow> bool" where
  "sv_signals s \<longleftrightarrow> (\<forall>g \<in> set (stream (sig_view s)) \<union> set (eng_hand (sv_eng_pc s)). wf_signal g) \<and>
     sv_taken s = length (stream (sig_view s)) + length (eng_hand (sv_eng_pc s)) + sv_unsent s \<and>
     (sv_unsent s = 0 \<or> sv_unsent s = 1 \<and> 3 \<le> sv_ctl s \<and> (sv_eng_pc s = E_poll \<or> sv_eng_pc s = E_done))"

definition sv_control :: "service \<Rightarrow> bool" where
  "sv_control s \<longleftrightarrow> sv_ctl s \<le> 4 \<and> (0 < sv_ctl s \<longrightarrow> pl_ctl (sv_pipe s) = 5) \<and>
     (sv_db_pc s = Ended \<longrightarrow> 1 \<le> sv_ctl s) \<and> (2 \<le> sv_ctl s \<longrightarrow> sv_db_pc s = Ended) \<and>
     (sv_sig_pc s = Ended \<longrightarrow> 2 \<le> sv_ctl s) \<and> (3 \<le> sv_ctl s \<longrightarrow> sv_sig_pc s = Ended) \<and>
     (sv_eng_pc s = E_done \<longrightarrow> 3 \<le> sv_ctl s) \<and> (4 \<le> sv_ctl s \<longrightarrow> sv_eng_pc s = E_done)"

definition service_inv :: "service \<Rightarrow> bool" where
  "service_inv s \<longleftrightarrow> sv_upstream (sv_pipe s) \<and> sv_writers s \<and> sv_signals s \<and> sv_control s"

lemma service_invD: "service_inv s \<Longrightarrow> sv_upstream (sv_pipe s)" "service_inv s \<Longrightarrow> sv_writers s" "service_inv s \<Longrightarrow> sv_signals s"
  "service_inv s \<Longrightarrow> sv_control s"
  by (simp_all add: service_inv_def)

text \<open>A step of the service is, for the pipeline, one of its own steps or none.\<close>

lemma upstream_step:
  assumes "sv_upstream p" and "pipe_step a p = Value p'" and "\<And>t. a = FeedPush t \<Longrightarrow> feedable t \<and> small t"
    and "db_queue (pl_book p') \<noteq> None" and "signal_queue (pl_book p') \<noteq> None"
  shows "sv_upstream p'"
  using assms pipe_step_inv [of p a] pipe_step_small [of p a p'] by (auto simp: sv_upstream_def)

lemma upstream_db:
  assumes "sv_upstream p" and q: "db_queue (pl_book p) = Some q" and "q' = q \<or> q' = snd (try_pop q)"
  shows "sv_upstream (set_db q' p)"
proof (cases "q' = q")
  case True
  then have "set_db q' p = p" using q by (simp add: set_db_def)
  then show ?thesis using assms(1) by simp
next
  case False
  then have "pipe_step DbTake p = Value (set_db q' p)" using assms(3) q by (simp add: set_db_def)
  from upstream_step [OF assms(1) this] show ?thesis using assms(1) by (simp add: set_db_def sv_upstream_def)
qed

lemma upstream_signal:
  assumes "sv_upstream p" and q: "signal_queue (pl_book p) = Some q" and "q' = q \<or> q' = snd (try_pop q)"
  shows "sv_upstream (set_signal q' p)"
proof (cases "q' = q")
  case True
  then have "set_signal q' p = p" using q by (simp add: set_signal_def)
  then show ?thesis using assms(1) by simp
next
  case False
  then have "pipe_step SignalTake p = Value (set_signal q' p)" using assms(3) q by (simp add: set_signal_def)
  from upstream_step [OF assms(1) this] show ?thesis using assms(1) by (simp add: set_signal_def sv_upstream_def)
qed

lemma upstream_queues:
  assumes "sv_upstream p"
  obtains d g where "db_queue (pl_book p) = Some d" "ring_ok d" "\<forall>x \<in> set (ring_items d). wf_snapshot x"
    "signal_queue (pl_book p) = Some g" "ring_ok g" "\<forall>x \<in> set (ring_items g). wf_snapshot x"
proof -
  obtain d g where q: "db_queue (pl_book p) = Some d" "signal_queue (pl_book p) = Some g" using assms by (auto simp: sv_upstream_def)
  have "bp_inv (book_view p)" using assms pipe_goodD(3) by (auto simp: sv_upstream_def bp_good_def)
  then have "ring_ok d" "ring_ok g" using q by (simp_all add: bp_inv_def book_view_def queue_ok_def)
  moreover have "\<forall>x \<in> set (ring_items d). wf_snapshot x" "\<forall>x \<in> set (ring_items g). wf_snapshot x"
    using assms q by (auto simp: sv_upstream_def pipe_small_def books_small_def queue_all_def)
  ultimately show thesis using that [OF q(1) _ _ q(2)] by simp
qed

text \<open>The other steps of the pipeline do not move \<open>main\<close> and do not remove a queue.\<close>

lemma bp_tick_queues:
  "bp_process_tick t bp = Value bp' \<Longrightarrow> (db_queue bp' = None \<longleftrightarrow> db_queue bp = None) \<and> (signal_queue bp' = None \<longleftrightarrow> signal_queue bp = None)"
  by (auto simp: bp_process_tick_def publish_def Let_def split: if_splits option.splits prod.splits bool.splits elim!: cpp_bind.elims)

lemma book_micro_queues:
  "book_micro stop pc bp = Value (pc', bp', k) \<Longrightarrow> (db_queue bp' = None \<longleftrightarrow> db_queue bp = None) \<and> (signal_queue bp' = None \<longleftrightarrow> signal_queue bp = None)"
  by (cases "(stop, pc, bp)" rule: book_micro.cases)
    (auto simp: bp_step_def split: prod.splits option.splits if_splits elim!: cpp_bind.elims dest!: bp_tick_queues)

lemma pipe_step_queues:
  assumes "pipe_inv p" and "pipe_step a p = Value p'" and "a \<noteq> MainStep"
  shows "pl_ctl p' = pl_ctl p" "db_queue (pl_book p') = None \<longleftrightarrow> db_queue (pl_book p) = None"
    "signal_queue (pl_book p') = None \<longleftrightarrow> signal_queue (pl_book p) = None"
  using assms(2,3)
  by (cases a; auto simp: book_view_def split: if_splits prod.splits elim!: cpp_bind.elims dest!: book_micro_queues)+

text \<open>A step of the pipeline leaves the threads behind it alone; it may add to the queue of the database writer.\<close>

lemma service_pipe_inv:
  assumes inv: "service_inv s" and p: "sv_upstream p" and c: "0 < sv_ctl s \<Longrightarrow> pl_ctl p = 5"
  shows "service_inv (s\<lparr>sv_pipe := p\<rparr>)"
proof -
  obtain d where d: "db_queue (pl_book p) = Some d" "ring_ok d" "\<forall>x \<in> set (ring_items d). wf_snapshot x"
    by (rule upstream_queues [OF p])
  have v: "sig_view (s\<lparr>sv_pipe := p\<rparr>) = sig_view s" "db_view (s\<lparr>sv_pipe := p\<rparr>) = (db_view s)\<lparr>w_input := d\<rparr>"
    by (simp_all add: sig_view_def db_view_def d(1))
  have w: "winv db_row wf_snapshot 99 (batch (sv_db_pc s)) (db_view s)" "winv signal_row wf_signal 99 (batch (sv_sig_pc s)) (sig_view s)"
    using service_invD(2) [OF inv] by (simp_all add: sv_writers_def)
  have "sv_writers (s\<lparr>sv_pipe := p\<rparr>)" using w(2) winv_input [OF w(1) d(2,3)] unfolding sv_writers_def v by simp
  moreover have "sv_signals (s\<lparr>sv_pipe := p\<rparr>)" using service_invD(3) [OF inv] unfolding sv_signals_def v by simp
  moreover have "sv_control (s\<lparr>sv_pipe := p\<rparr>)" using service_invD(4) [OF inv] c by (simp add: sv_control_def)
  ultimately show ?thesis using p by (simp add: service_inv_def)
qed

lemma db_step_inv:
  assumes inv: "service_inv s"
  shows "\<exists>s'. service_step (DbStep connect now commit) s = Value s' \<and> service_inv s' \<and> sv_ctl s' = sv_ctl s \<and>
     (1 \<le> sv_ctl s \<and> sv_db_pc s \<noteq> Ended \<longrightarrow> writer_rank (sv_db_pc s') < writer_rank (sv_db_pc s))"
proof -
  note I = service_invD [OF inv]
  obtain d where d: "db_queue (pl_book (sv_pipe s)) = Some d" using upstream_queues [OF I(1)] by blast
  have v: "(sv_db s)\<lparr>w_input := d\<rparr> = db_view s" by (simp add: db_view_def d)
  obtain pc w where m: "writer_micro db_row (wobs (1 \<le> sv_ctl s) connect now commit) (sv_db_pc s) (db_view s) = Value (pc, w)"
    "winv db_row wf_snapshot 99 (batch pc) w" "w_input w = d \<or> w_input w = snd (try_pop d)"
    "pc = Ended \<longrightarrow> sv_db_pc s = Ended \<or> 1 \<le> sv_ctl s" "sv_db_pc s = Ended \<longrightarrow> pc = Ended"
    "1 \<le> sv_ctl s \<and> sv_db_pc s \<noteq> Ended \<longrightarrow> writer_rank pc < writer_rank (sv_db_pc s)"
    using dsw.micro_ok [of "sv_db_pc s" "db_view s" "wobs (1 \<le> sv_ctl s) connect now commit"] I(2)
    by (auto simp: sv_writers_def wobs_def db_view_def d)
  define s' where "s' = s\<lparr>sv_pipe := set_db (w_input w) (sv_pipe s), sv_db_pc := pc, sv_db := w\<rparr>"
  have v': "db_view s' = w" "sig_view s' = sig_view s" by (simp_all add: s'_def db_view_def sig_view_def set_db_def)
  have "sv_upstream (sv_pipe s')" using upstream_db [OF I(1) d m(3)] by (simp add: s'_def)
  moreover have "sv_writers s'" using I(2) m(2) unfolding sv_writers_def v' by (simp add: s'_def)
  moreover have "sv_signals s'" using I(3) unfolding sv_signals_def v' by (simp add: s'_def)
  moreover have "sv_control s'" using I(4) m(4,5) by (auto simp: sv_control_def s'_def set_db_def)
  ultimately have "service_inv s'" by (simp add: service_inv_def)
  then show ?thesis using m(1,6) d v by (simp add: s'_def)
qed

lemma sig_step_inv:
  assumes inv: "service_inv s"
  shows "\<exists>s'. service_step (SigStep connect now commit) s = Value s' \<and> service_inv s' \<and> sv_ctl s' = sv_ctl s \<and>
     (2 \<le> sv_ctl s \<and> sv_sig_pc s \<noteq> Ended \<longrightarrow> writer_rank (sv_sig_pc s') < writer_rank (sv_sig_pc s))"
proof -
  note I = service_invD [OF inv]
  obtain pc w where m: "writer_micro signal_row (wobs (2 \<le> sv_ctl s) connect now commit) (sv_sig_pc s) (sig_view s) = Value (pc, w)"
    "winv signal_row wf_signal 99 (batch pc) w" "stream w = stream (sig_view s)"
    "pc = Ended \<longrightarrow> sv_sig_pc s = Ended \<or> 2 \<le> sv_ctl s" "sv_sig_pc s = Ended \<longrightarrow> pc = Ended"
    "2 \<le> sv_ctl s \<and> sv_sig_pc s \<noteq> Ended \<longrightarrow> writer_rank pc < writer_rank (sv_sig_pc s)"
    using alw.micro_ok [of "sv_sig_pc s" "sig_view s" "wobs (2 \<le> sv_ctl s) connect now commit"] I(2)
    by (auto simp: sv_writers_def wobs_def)
  define s' where "s' = s\<lparr>sv_alert := w_input w, sv_sig_pc := pc, sv_sig := w\<rparr>"
  have v': "db_view s' = db_view s" "sig_view s' = w" by (simp_all add: s'_def db_view_def sig_view_def)
  have "sv_writers s'" using I(2) m(2) unfolding sv_writers_def v' by (simp add: s'_def)
  moreover have "sv_signals s'" using I(3) unfolding sv_signals_def v' m(3) by (simp add: s'_def)
  moreover have "sv_control s'" using I(4) m(4,5) by (auto simp: sv_control_def s'_def)
  ultimately have "service_inv s'" using I(1) by (simp add: service_inv_def s'_def)
  then show ?thesis using m(1,6) by (simp add: s'_def sig_view_def)
qed

lemma engine_step_inv:
  assumes inv: "service_inv s"
  shows "\<exists>s'. service_step EngineStep s = Value s' \<and> service_inv s' \<and> sv_ctl s' = sv_ctl s \<and>
     (3 \<le> sv_ctl s \<and> sv_eng_pc s \<noteq> E_done \<longrightarrow> eng_rank (sv_eng_pc s') < eng_rank (sv_eng_pc s))"
proof -
  note I = service_invD [OF inv]
  obtain g where g: "signal_queue (pl_book (sv_pipe s)) = Some g" "ring_ok g" "\<forall>x \<in> set (ring_items g). wf_snapshot x"
    by (rule upstream_queues [OF I(1)])
  define se where "se = (sv_eng s)\<lparr>se_in := g, se_out := sv_alert s\<rparr>"
  obtain pc se' where m: "engine_micro (3 \<le> sv_ctl s) (sv_eng_pc s) se = (pc, se')" by force
  have ok: "ring_ok (se_in se)" "ring_ok (se_out se)" "\<forall>x \<in> set (ring_items (se_in se)). wf_snapshot x"
    "\<forall>x \<in> set (eng_hand (sv_eng_pc s)). wf_signal x"
    using g I(2,3) by (auto simp: se_def sv_writers_def winv_def sig_view_def sv_signals_def)
  obtain gs where gs: "ring_ok (se_out se')" "ring_items (se_out se') = ring_items (sv_alert s) @ gs" "\<forall>x \<in> set gs. wf_signal x"
    "eng_took (sv_eng_pc s) pc + length (eng_hand (sv_eng_pc s)) = length gs + length (eng_hand pc) + eng_gave_up (sv_eng_pc s) pc"
    and e: "se_in se' = g \<or> se_in se' = snd (try_pop g)" "\<forall>x \<in> set (eng_hand pc). wf_signal x"
    "pc = E_done \<longrightarrow> sv_eng_pc s = E_done \<or> 3 \<le> sv_ctl s" "sv_eng_pc s = E_done \<longrightarrow> pc = E_done"
    "3 \<le> sv_ctl s \<and> sv_eng_pc s \<noteq> E_done \<longrightarrow> eng_rank pc < eng_rank (sv_eng_pc s)"
    using engine_micro_ok [OF ok m] by (auto simp: se_def)
  define s' where "s' = s\<lparr>sv_pipe := set_signal (se_in se') (sv_pipe s), sv_eng_pc := pc, sv_eng := se', sv_alert := se_out se',
    sv_taken := sv_taken s + eng_took (sv_eng_pc s) pc, sv_unsent := sv_unsent s + eng_gave_up (sv_eng_pc s) pc\<rparr>"
  have v: "db_view s' = db_view s" "sig_view s' = (sig_view s)\<lparr>w_input := se_out se'\<rparr>"
    by (simp_all add: s'_def db_view_def sig_view_def set_signal_def)
  have st: "stream (sig_view s') = stream (sig_view s) @ gs" unfolding v(2) stream_def using gs(2) by (simp add: sig_view_def)
  have "sv_upstream (sv_pipe s')" using upstream_signal [OF I(1) g(1) e(1)] by (simp add: s'_def)
  moreover have "sv_writers s'"
  proof -
    have w: "winv db_row wf_snapshot 99 (batch (sv_db_pc s)) (db_view s)" "winv signal_row wf_signal 99 (batch (sv_sig_pc s)) (sig_view s)"
      using I(2) by (simp_all add: sv_writers_def)
    have "\<forall>x \<in> set (ring_items (se_out se')). wf_signal x" using w(2) gs(2,3) by (auto simp: winv_def sig_view_def)
    from winv_input [OF w(2) gs(1) this] show ?thesis using w(1) unfolding sv_writers_def v by (simp add: s'_def)
  qed
  moreover have "sv_signals s'"
  proof -
    have "sv_unsent s' = 0 \<or> sv_unsent s' = 1 \<and> 3 \<le> sv_ctl s' \<and> (pc = E_poll \<or> pc = E_done)"
      using I(3) m by (cases "sv_eng_pc s") (auto simp: sv_signals_def s'_def eng_gave_up_def split: if_splits prod.splits option.splits)
    then show ?thesis using I(3) gs(3,4) e(2) unfolding sv_signals_def st by (auto simp: s'_def)
  qed
  moreover have "sv_control s'" using I(4) e(3,4) by (auto simp: sv_control_def s'_def set_signal_def)
  ultimately have "service_inv s'" by (simp add: service_inv_def)
  then show ?thesis using m g(1) e(5) by (simp add: s'_def se_def)
qed

lemma main_next_inv: assumes inv: "service_inv s" shows "service_inv (service_main s)"
proof (cases "pl_ctl (sv_pipe s) < 5")
  case True
  note I = service_invD [OF inv]
  have "pipe_step MainStep (sv_pipe s) = Value (main_step (sv_pipe s))" by simp
  from upstream_step [OF I(1) this] have "sv_upstream (main_step (sv_pipe s))" using I(1) by (simp add: sv_upstream_def main_step_def)
  from service_pipe_inv [OF inv this] show ?thesis using True I(4) by (simp add: service_main_def sv_control_def)
next
  case False
  note I = service_invD [OF inv]
  have same: "service_inv (s\<lparr>sv_ctl := n\<rparr>)" if "sv_control (s\<lparr>sv_ctl := n\<rparr>)" "sv_ctl s \<le> n" for n
  proof -
    have v: "db_view (s\<lparr>sv_ctl := n\<rparr>) = db_view s" "sig_view (s\<lparr>sv_ctl := n\<rparr>) = sig_view s" by (simp_all add: db_view_def sig_view_def)
    show ?thesis using I(1-3) that unfolding service_inv_def sv_writers_def sv_signals_def v by auto
  qed
  have "pl_ctl (sv_pipe s) = 5" using False I(1) pipe_invD(2) by (force simp: sv_upstream_def pipe_control_def)
  then show ?thesis using inv I(4) same by (auto simp: service_main_def sv_control_def)
qed

lemma service_step_inv:
  assumes inv: "service_inv s" and a: "\<And>t. a = Upstream (FeedPush t) \<Longrightarrow> feedable t \<and> small t"
  shows "\<exists>s'. service_step a s = Value s' \<and> service_inv s'"
proof (cases a)
  case (Upstream x)
  show ?thesis
  proof (cases "x = DbTake \<or> x = SignalTake \<or> x = MainStep")
    case False
    note I = service_invD [OF inv]
    have pi: "pipe_inv (sv_pipe s)" using I(1) by (simp add: sv_upstream_def)
    obtain p where p: "pipe_step x (sv_pipe s) = Value p" using pipe_step_inv [OF pi, of x] a Upstream by blast
    have q: "pl_ctl p = pl_ctl (sv_pipe s)" "db_queue (pl_book p) \<noteq> None" "signal_queue (pl_book p) \<noteq> None"
      using pipe_step_queues [OF pi p] False I(1) by (auto simp: sv_upstream_def)
    have "sv_upstream p" using upstream_step [OF I(1) p] q a Upstream by blast
    then show ?thesis using service_pipe_inv [OF inv] q(1) I(4) p Upstream False by (auto simp: sv_control_def)
  qed (use Upstream inv in auto)
next
  case (DbStep c n k)
  then show ?thesis using db_step_inv [OF inv, of c n k] by blast
next
  case EngineStep
  then show ?thesis using engine_step_inv [OF inv] by blast
next
  case (SigStep c n k)
  then show ?thesis using sig_step_inv [OF inv, of c n k] by blast
next
  case MainNext
  then show ?thesis using main_next_inv [OF inv] by simp
qed

lemma service_run_inv:
  "service_inv s \<Longrightarrow> \<forall>t. Upstream (FeedPush t) \<in> set as \<longrightarrow> feedable t \<and> small t \<Longrightarrow> \<exists>s'. service_run as s = Value s' \<and> service_inv s'"
proof (induction as arbitrary: s)
  case (Cons a as)
  obtain s1 where s1: "service_step a s = Value s1" "service_inv s1" using service_step_inv [OF Cons.prems(1), of a] Cons.prems(2) by auto
  then show ?case using Cons.IH [OF s1(2)] Cons.prems(2) by simp
qed simp

lemma new_service_inv:
  assumes "ring_ok r1" "ring_ok r2" "ring_ok r3" "ring_ok d" "ring_ok g" "ring_ok (se_out se)"
    and "ring_items r1 = []" "ring_items r2 = []" "ring_items r3 = []" "ring_items d = []" "ring_items g = []" "ring_items (se_out se) = []"
  shows "service_inv (new_service (new_pipe r1 r2 r3 (Some d) (Some g)) se)"
proof -
  let ?p = "new_pipe r1 r2 r3 (Some d) (Some g)"
  have "pipe_inv ?p" using assms by (intro new_pipe_inv) (simp_all add: queue_ok_def)
  moreover have "pipe_small ?p"
    using assms by (simp add: pipe_small_def books_small_def queue_all_def new_pipe_def new_book_processor_def)
  ultimately have "sv_upstream ?p" by (simp add: sv_upstream_def new_pipe_def new_book_processor_def)
  then show ?thesis using assms
    by (simp add: service_inv_def new_service_def sv_writers_def sv_signals_def sv_control_def db_view_def sig_view_def winv_def
        new_writer_def stream_def new_pipe_def new_book_processor_def)
qed

lemma processor_service_inv: "\<exists>s. processor_service = Value s \<and> service_inv s"
proof -
  have r: "ring_ok (new_ring 16384 zero_tick)" "ring_ok (new_ring 4096 zero_tick)" "ring_ok (new_ring 4096 zero_snapshot)"
    "ring_ok (new_ring 4096 zero_signal)"
    using ring_new_ok [of 14 zero_tick] ring_new_ok [of 12 zero_tick] ring_new_ok [of 12 zero_snapshot] ring_new_ok [of 12 zero_signal]
    by simp_all
  obtain se where se: "new_signal_engine (new_ring 4096 zero_snapshot) (new_ring 4096 zero_signal) 20 = Value se" "se_out se = new_ring 4096 zero_signal"
    by (simp add: new_signal_engine_def)
  have "service_inv (new_service service_pipe se)"
    unfolding service_pipe_def by (rule new_service_inv) (use r se(2) in simp_all)
  then show ?thesis using se(1) by (simp add: processor_service_def)
qed

lemma processor_service_start: assumes "processor_service = Value s0" shows "service_inv s0"
proof -
  obtain s where "processor_service = Value s" "service_inv s" using processor_service_inv by blast
  then show ?thesis using assms by (metis cpp.inject)
qed

section \<open>Shutdown\<close>

definition service_work :: "service \<Rightarrow> nat" where
  "service_work s =
     (if pl_ctl (sv_pipe s) < 5 then shutdown_work (sv_pipe s)
      else if sv_ctl s = 1 then writer_rank (sv_db_pc s)
      else if sv_ctl s = 2 then writer_rank (sv_sig_pc s)
      else eng_rank (sv_eng_pc s))"

abbreviation service_order :: "(service \<times> service) set" where
  "service_order \<equiv> measures [\<lambda>s. 9 - (pl_ctl (sv_pipe s) + sv_ctl s), service_work]"

text \<open>An action that serves the shutdown: no new tick, and the end of the feed only where \<open>main\<close> waits for it.\<close>

definition stop_act :: "service \<Rightarrow> sv_act \<Rightarrow> bool" where
  "stop_act s a \<longleftrightarrow> (\<forall>x. a = Upstream x \<longrightarrow> x \<in> {ParserStep, NormStep, BookStep} \<or>
     x = FeedExit \<and> pl_ctl (sv_pipe s) = 1 \<and> \<not> pl_feed_done (sv_pipe s))"

lemma stop_act_no_tick: "stop_act s a \<Longrightarrow> a \<noteq> Upstream (FeedPush t)"
  by (auto simp: stop_act_def)

lemma upstream_progress:
  assumes inv: "service_inv s" and c: "pl_ctl (sv_pipe s) < 5"
  shows "\<exists>a s'. stop_act s a \<and> service_step a s = Value s' \<and> (s', s) \<in> service_order"
proof -
  note I = service_invD [OF inv]
  have z: "sv_ctl s = 0" using I(4) c by (auto simp: sv_control_def)
  have pi: "pipe_inv (sv_pipe s)" using I(1) by (simp add: sv_upstream_def)
  obtain p where p: "pipe_step (shutdown_act (sv_pipe s)) (sv_pipe s) = Value p"
    "(p, sv_pipe s) \<in> measures [\<lambda>s. 5 - pl_ctl s, shutdown_work]" using shutdown_progress [OF pi c] .
  have "pipe_inv p" using pipe_step_inv [OF pi, of "shutdown_act (sv_pipe s)"] p(1) by (auto simp: shutdown_act_def split: if_splits)
  then have "pl_ctl p \<le> 5" using pipe_invD(2) by (simp add: pipe_control_def)
  then have o: "(s\<lparr>sv_pipe := p\<rparr>, s) \<in> service_order" using p(2) c z by (auto simp: service_work_def)
  show ?thesis
  proof (cases "shutdown_act (sv_pipe s) = MainStep")
    case True
    then have "service_step MainNext s = Value (s\<lparr>sv_pipe := p\<rparr>)" using p(1) c by (simp add: service_main_def)
    then show ?thesis using o by (intro exI [of _ MainNext] exI [of _ "s\<lparr>sv_pipe := p\<rparr>"]) (simp add: stop_act_def)
  next
    case False
    then have "stop_act s (Upstream (shutdown_act (sv_pipe s)))" "shutdown_act (sv_pipe s) \<noteq> DbTake" "shutdown_act (sv_pipe s) \<noteq> SignalTake"
      by (simp_all add: stop_act_def shutdown_act_def split: if_splits)
    then show ?thesis using p(1) o False
      by (intro exI [of _ "Upstream (shutdown_act (sv_pipe s))"] exI [of _ "s\<lparr>sv_pipe := p\<rparr>"]) simp
  qed
qed

lemma service_progress:
  assumes inv: "service_inv s" and c: "sv_ctl s < 4"
  shows "\<exists>a s'. stop_act s a \<and> service_step a s = Value s' \<and> (s', s) \<in> service_order"
proof (cases "pl_ctl (sv_pipe s) < 5")
  case True
  then show ?thesis using upstream_progress [OF inv] by blast
next
  case False
  note I = service_invD [OF inv]
  have five: "pl_ctl (sv_pipe s) = 5" using False I(1) pipe_invD(2) by (force simp: sv_upstream_def pipe_control_def)
  have main: ?thesis if "sv_ctl s < sv_ctl (service_main s)" "sv_pipe (service_main s) = sv_pipe s"
    using that c five by (intro exI [of _ MainNext] exI [of _ "service_main s"]) (auto simp: stop_act_def)
  have work: ?thesis if "service_step a s = Value s'" "service_inv s'" "sv_ctl s' = sv_ctl s" "service_work s' < service_work s"
    "0 < sv_ctl s" "\<forall>x. a \<noteq> Upstream x" for a s'
    using that five service_invD(4) [OF that(2)] by (intro exI [of _ a] exI [of _ s']) (auto simp: sv_control_def stop_act_def)
  have five': "pl_ctl (sv_pipe s') = 5" if "service_inv s'" "sv_ctl s' = sv_ctl s" "0 < sv_ctl s" for s'
    using service_invD(4) [OF that(1)] that by (simp add: sv_control_def)
  consider "sv_ctl s = 0" | "sv_ctl s = 1" | "sv_ctl s = 2" | "sv_ctl s = 3" using c by linarith
  then show ?thesis
  proof cases
    case 1
    then show ?thesis using main five by (simp add: service_main_def)
  next
    case 2
    then show ?thesis using main work [of "DbStep True 0 True"] db_step_inv [OF inv, of True 0 True] five five'
      by (cases "sv_db_pc s = Ended") (fastforce simp: service_main_def service_work_def simp del: service_step.simps)+
  next
    case 3
    then show ?thesis using main work [of "SigStep True 0 True"] sig_step_inv [OF inv, of True 0 True] five five'
      by (cases "sv_sig_pc s = Ended") (fastforce simp: service_main_def service_work_def simp del: service_step.simps)+
  next
    case 4
    then show ?thesis using main work [of EngineStep] engine_step_inv [OF inv] five five'
      by (cases "sv_eng_pc s = E_done") (fastforce simp: service_main_def service_work_def simp del: service_step.simps)+
  qed
qed

lemma service_reaches_end:
  assumes "service_inv s"
  shows "\<exists>as s'. (\<forall>t. Upstream (FeedPush t) \<notin> set as) \<and> service_run as s = Value s' \<and> sv_ctl s' = 4"
  using assms
proof (induction s rule: wf_induct_rule [OF wf_measures [of "[\<lambda>s. 9 - (pl_ctl (sv_pipe s) + sv_ctl s), service_work]"]])
  case (1 s)
  show ?case
  proof (cases "sv_ctl s < 4")
    case True
    obtain a s1 where a: "\<forall>t. a \<noteq> Upstream (FeedPush t)" "service_step a s = Value s1" "(s1, s) \<in> service_order"
      using service_progress [OF "1.prems" True] stop_act_no_tick by blast
    then have "service_inv s1" using service_step_inv [OF "1.prems", of a] by auto
    from "1.IH" [OF a(3) this] obtain as s' where "\<forall>t. Upstream (FeedPush t) \<notin> set as" "service_run as s1 = Value s'" "sv_ctl s' = 4" by blast
    then show ?thesis using a(1,2) by (intro exI [of _ "a # as"] exI [of _ s']) (auto dest: sym)
  next
    case False
    then have "sv_ctl s = 4" using service_invD(4) [OF "1.prems"] by (simp add: sv_control_def)
    then show ?thesis by (intro exI [of _ "[]"] exI [of _ s]) simp
  qed
qed

lemma service_run_append: "service_run (as @ bs) s = cpp_bind (service_run as s) (service_run bs)"
proof (induction as arbitrary: s)
  case (Cons a as)
  show ?case by (cases "service_step a s") (simp_all add: Cons.IH)
qed simp

section \<open>Properties\<close>

lemma winv_accounts:
  assumes "winv row ok n b w"
  shows "batch_rows row (w_saved w) = Value (concat (w_txns w))" "\<forall>t \<in> set (w_txns w). t \<noteq> [] \<and> length t \<le> 100"
    "mset (w_popped w) = mset (w_saved w) + mset (w_lost w) + mset b" "set (w_saved w) \<union> set (w_lost w) \<subseteq> set (w_popped w)"
proof -
  show m: "mset (w_popped w) = mset (w_saved w) + mset (w_lost w) + mset b" "batch_rows row (w_saved w) = Value (concat (w_txns w))"
    "\<forall>t \<in> set (w_txns w). t \<noteq> [] \<and> length t \<le> 100" using assms by (simp_all add: winv_def)
  show "set (w_saved w) \<union> set (w_lost w) \<subseteq> set (w_popped w)" using arg_cong [OF m(1), of set_mset] by auto
qed

lemma service_accounts:
  assumes "service_inv s"
  shows "batch_rows db_row (w_saved (sv_db s)) = Value (concat (w_txns (sv_db s)))"
    "\<forall>t \<in> set (w_txns (sv_db s)). t \<noteq> [] \<and> length t \<le> 100"
    "mset (w_popped (sv_db s)) = mset (w_saved (sv_db s)) + mset (w_lost (sv_db s)) + mset (batch (sv_db_pc s))"
    "batch_rows signal_row (w_saved (sv_sig s)) = Value (concat (w_txns (sv_sig s)))"
    "mset (w_popped (sv_sig s)) = mset (w_saved (sv_sig s)) + mset (w_lost (sv_sig s)) + mset (batch (sv_sig_pc s))"
    "\<forall>g \<in> set (w_saved (sv_sig s)) \<union> set (ring_items (sv_alert s)). sound_signal g"
    "sv_taken s = length (w_popped (sv_sig s)) + length (ring_items (sv_alert s)) + length (eng_hand (sv_eng_pc s)) + sv_unsent s"
proof -
  have w: "winv db_row wf_snapshot 99 (batch (sv_db_pc s)) (db_view s)" "winv signal_row wf_signal 99 (batch (sv_sig_pc s)) (sig_view s)"
    using service_invD(2) [OF assms] by (simp_all add: sv_writers_def)
  note a = winv_accounts [OF w(1), unfolded db_view_def, simplified] and b = winv_accounts [OF w(2), unfolded sig_view_def, simplified]
  show "batch_rows db_row (w_saved (sv_db s)) = Value (concat (w_txns (sv_db s)))" "\<forall>t \<in> set (w_txns (sv_db s)). t \<noteq> [] \<and> length t \<le> 100"
    "mset (w_popped (sv_db s)) = mset (w_saved (sv_db s)) + mset (w_lost (sv_db s)) + mset (batch (sv_db_pc s))"
    "batch_rows signal_row (w_saved (sv_sig s)) = Value (concat (w_txns (sv_sig s)))"
    "mset (w_popped (sv_sig s)) = mset (w_saved (sv_sig s)) + mset (w_lost (sv_sig s)) + mset (batch (sv_sig_pc s))"
    using a b by simp_all
  show "\<forall>g \<in> set (w_saved (sv_sig s)) \<union> set (ring_items (sv_alert s)). sound_signal g"
    "sv_taken s = length (w_popped (sv_sig s)) + length (ring_items (sv_alert s)) + length (eng_hand (sv_eng_pc s)) + sv_unsent s"
    using service_invD(3) [OF assms] b(4) by (auto simp: sv_signals_def stream_def sig_view_def wf_signal_def)
qed

text \<open>
  C2. The running service, with all its threads: in every interleaving of the feed, the four stages, the signal engine, the two database writers
  and the main thread, whatever the database and the clock answer, no thread has undefined behaviour if the ticks are in range and
  their volumes are below \<open>2 ^ 61\<close>. Every book is sorted, uncrossed and filed under its symbol; the rows committed are those of the saved
  snapshots and signals in order, and every item a writer has popped is saved, lost with a failed transaction or in its batch;
  every signal written or waiting is sound; and every snapshot the engine has taken gave exactly one signal that is with
  the writer, waiting, in hand or was given up.
\<close>

theorem service_safe:
  assumes "\<forall>t. Upstream (FeedPush t) \<in> set acts \<longrightarrow> feedable t \<and> small t"
  shows "\<exists>s0 s. processor_service = Value s0 \<and> service_run acts s0 = Value s \<and>
     (\<forall>k b. book (pl_book (sv_pipe s)) k = Some b \<longrightarrow> book_ok b \<and> book_symbol b = k) \<and>
     batch_rows db_row (w_saved (sv_db s)) = Value (concat (w_txns (sv_db s))) \<and>
     mset (w_popped (sv_db s)) = mset (w_saved (sv_db s)) + mset (w_lost (sv_db s)) + mset (batch (sv_db_pc s)) \<and>
     batch_rows signal_row (w_saved (sv_sig s)) = Value (concat (w_txns (sv_sig s))) \<and>
     mset (w_popped (sv_sig s)) = mset (w_saved (sv_sig s)) + mset (w_lost (sv_sig s)) + mset (batch (sv_sig_pc s)) \<and>
     (\<forall>g \<in> set (w_saved (sv_sig s)) \<union> set (ring_items (sv_alert s)). sound_signal g) \<and>
     sv_taken s = length (w_popped (sv_sig s)) + length (ring_items (sv_alert s)) + length (eng_hand (sv_eng_pc s)) + sv_unsent s"
proof -
  obtain s0 where s0: "processor_service = Value s0" "service_inv s0" using processor_service_inv by blast
  obtain s where s: "service_run acts s0 = Value s" "service_inv s" using service_run_inv [OF s0(2) assms] by blast
  have "\<forall>k b. book (pl_book (sv_pipe s)) k = Some b \<longrightarrow> book_ok b \<and> book_symbol b = k"
    using service_invD(1) [OF s(2)] pipe_goodD(3)
    by (auto simp: sv_upstream_def bp_good_def bp_inv_def book_view_def book_def book_good_def)
  then show ?thesis using s0(1) s(1) service_accounts [OF s(2)] by blast
qed

definition demo_sv_acts :: "sv_act list" where
  "demo_sv_acts = [Upstream (FeedPush (demo_btc 100 5)), DbStep True 0 True, Upstream ParserStep, Upstream ParserStep, Upstream NormStep,
     EngineStep, Upstream NormStep, MainNext, Upstream BookStep, DbStep False 3 True, EngineStep, EngineStep, SigStep True 4 False]"

lemma demo_sv_acts_ok: "\<forall>t. Upstream (FeedPush t) \<in> set demo_sv_acts \<longrightarrow> feedable t \<and> small t"
  using demo_btc_bookable [of 100 5] bookable_feedable by (simp add: demo_sv_acts_def small_def demo_btc_def)

theorem service_safe_witness:
  "\<exists>s0 s. processor_service = Value s0 \<and> service_run demo_sv_acts s0 = Value s \<and>
     (\<forall>g \<in> set (w_saved (sv_sig s)) \<union> set (ring_items (sv_alert s)). sound_signal g)"
  using service_safe [OF demo_sv_acts_ok] by blast

text \<open>
  C6. The end of the service: when \<open>main\<close> has stopped all threads in its order, the tick rings are empty and the book has processed what
  was forwarded; every snapshot the database writer took is saved or was lost with a failed transaction, in transactions of 1 to 100
  rows; and every snapshot the engine took is accounted for as a signal that is saved, was lost with a failed transaction, is
  left in the queue, or is the one signal the engine may have given up.
\<close>

theorem service_shutdown:
  assumes "\<forall>t. Upstream (FeedPush t) \<in> set acts \<longrightarrow> feedable t \<and> small t"
    and "processor_service = Value s0" and "service_run acts s0 = Value s" and "sv_ctl s = 4"
  shows "ring_items (q1 (sv_pipe s)) = [] \<and> ring_items (q2 (sv_pipe s)) = [] \<and> ring_items (q3 (sv_pipe s)) = [] \<and>
     ticks_forwarded (nz_stats (pl_norm (sv_pipe s))) = bp_ticks_processed (pl_book (sv_pipe s)) \<and>
     mset (w_popped (sv_db s)) = mset (w_saved (sv_db s)) + mset (w_lost (sv_db s)) \<and>
     (\<forall>t \<in> set (w_txns (sv_db s)). t \<noteq> [] \<and> length t \<le> 100) \<and>
     sv_taken s = length (w_saved (sv_sig s)) + length (w_lost (sv_sig s)) + length (ring_items (sv_alert s)) + sv_unsent s \<and>
     sv_unsent s \<le> 1"
proof -
  have "service_inv s0" using processor_service_start [OF assms(2)] .
  then have inv: "service_inv s" using service_run_inv [OF _ assms(1), of s0] assms(3) by auto
  note I = service_invD [OF inv] and a = service_accounts [OF inv]
  have e: "sv_db_pc s = Ended" "sv_sig_pc s = Ended" "sv_eng_pc s = E_done" "pl_ctl (sv_pipe s) = 5"
    using I(4) assms(4) by (simp_all add: sv_control_def)
  have "pipe_inv (sv_pipe s)" using I(1) by (simp add: sv_upstream_def)
  note c = stopped_counts [OF this e(4)]
  have "length (w_popped (sv_sig s)) = length (w_saved (sv_sig s)) + length (w_lost (sv_sig s))"
    using arg_cong [OF a(5), of size] by (simp add: e(2))
  moreover have "sv_unsent s \<le> 1" using I(3) by (auto simp: sv_signals_def)
  ultimately show ?thesis using c(3-6) a(2,3,7) by (simp add: e)
qed

text \<open>
  The service can always stop: from every state it can reach there is a continuation without new ticks in which \<open>main\<close> comes to the end of its
  shutdown sequence.
\<close>

theorem service_can_stop:
  assumes "\<forall>t. Upstream (FeedPush t) \<in> set acts \<longrightarrow> feedable t \<and> small t" and "processor_service = Value s0" and "service_run acts s0 = Value s"
  shows "\<exists>acts' s'. (\<forall>t. Upstream (FeedPush t) \<notin> set acts') \<and> service_run acts' s = Value s' \<and> sv_ctl s' = 4"
proof -
  have "service_inv s0" using processor_service_start [OF assms(2)] .
  then have "service_inv s" using service_run_inv [OF _ assms(1), of s0] assms(3) by auto
  then show ?thesis by (rule service_reaches_end)
qed

theorem service_can_stop_witness:
  "\<exists>s0 acts' s'. processor_service = Value s0 \<and> service_run (demo_sv_acts @ acts') s0 = Value s' \<and> sv_ctl s' = 4"
proof -
  obtain s0 where s0: "processor_service = Value s0" "service_inv s0" using processor_service_inv by blast
  obtain s where s: "service_run demo_sv_acts s0 = Value s" using service_run_inv [OF s0(2) demo_sv_acts_ok] by blast
  obtain acts' s' where "service_run acts' s = Value s'" "sv_ctl s' = 4" using service_can_stop [OF demo_sv_acts_ok s0(1) s] by blast
  then show ?thesis using s0(1) s by (intro exI [of _ s0] exI [of _ acts'] exI [of _ s']) (simp add: service_run_append)
qed

theorem service_shutdown_witness:
  "\<exists>s0 acts s. processor_service = Value s0 \<and> service_run acts s0 = Value s \<and> sv_ctl s = 4 \<and> ring_items (q3 (sv_pipe s)) = [] \<and> sv_unsent s \<le> 1"
proof -
  obtain s0 where s0: "processor_service = Value s0" "service_inv s0" using processor_service_inv by blast
  obtain s where s: "service_run demo_sv_acts s0 = Value s" "service_inv s" using service_run_inv [OF s0(2) demo_sv_acts_ok] by blast
  obtain as s' where e: "\<forall>t. Upstream (FeedPush t) \<notin> set as" "service_run as s = Value s'" "sv_ctl s' = 4"
    using service_reaches_end [OF s(2)] by blast
  have r: "service_run (demo_sv_acts @ as) s0 = Value s'" using s(1) e(2) by (simp add: service_run_append)
  have "\<forall>t. Upstream (FeedPush t) \<in> set (demo_sv_acts @ as) \<longrightarrow> feedable t \<and> small t" using e(1) demo_sv_acts_ok by auto
  from service_shutdown [OF this s0(1) r e(3)] show ?thesis using s0(1) r e(3) by blast
qed

end
