(* ===== verification/RowTypes.thy ===== *)
theory RowTypes
  imports Service
begin

text \<open>
  What the service writes. The prepared statements of \<open>infra/DbWriter.cpp\<close> and \<open>infra/SignalDbWriter.cpp\<close> have typed parameters:
  \<open>varchar\<close>, \<open>numeric\<close>, \<open>bigint\<close> and the seconds of \<open>to_timestamp\<close>. Every row that the running service commits has values of these types.
\<close>

section \<open>Typed rows\<close>

definition ticker_typed :: "string \<Rightarrow> bool" where
  "ticker_typed s \<longleftrightarrow> s \<noteq> [] \<and> length s \<le> 7 \<and> NUL \<notin> set s"

definition amount_typed :: "double \<Rightarrow> bool" where
  "amount_typed d \<longleftrightarrow> dle (Fin 0) d \<and> is_double d"

text \<open>Seconds since the epoch: more than 0 and, as the nanoseconds fit 63 bits, less than \<open>2 ^ 34\<close>.\<close>

definition time_typed :: "double \<Rightarrow> bool" where
  "time_typed d \<longleftrightarrow> dlt (Fin 0) d \<and> dle d (Fin (2 ^ 34)) \<and> is_double d"

definition price_row_typed :: "price_row \<Rightarrow> bool" where
  "price_row_typed r \<longleftrightarrow> ticker_typed (pw_symbol r) \<and> amount_typed (pw_price r) \<and> 0 \<le> sint (pw_volume r) \<and> time_typed (pw_recorded_at r)"

definition signal_rec_typed :: "signal_rec \<Rightarrow> bool" where
  "signal_rec_typed r \<longleftrightarrow> ticker_typed (sr_symbol r) \<and> sr_type r \<in> {''BUY'', ''SELL'', ''HOLD''} \<and> amount_typed (sr_price r) \<and>
     time_typed (sr_timestamp r)"

section \<open>The fields\<close>

lemma ticker_of_symbol:
  assumes "length s = 8" "s ! 0 \<noteq> NUL" "s ! 7 = NUL" shows "ticker_typed (sym_string s)"
proof -
  have t: "sym_string s = takeWhile (\<lambda>c. c \<noteq> NUL) s" by (rule sym_string_takeWhile)
  have "s \<noteq> []" using assms(1) by auto
  then have "takeWhile (\<lambda>c. c \<noteq> NUL) s \<noteq> []" using assms(2) by (cases s) auto
  moreover have "length (takeWhile (\<lambda>c. c \<noteq> NUL) s) \<le> 7"
  proof (rule ccontr)
    assume "\<not> ?thesis"
    then have l: "7 < length (takeWhile (\<lambda>c. c \<noteq> NUL) s)" by simp
    show False using nth_mem [OF l] assms(3) unfolding takeWhile_nth [OF l] by (auto dest: set_takeWhileD)
  qed
  ultimately show ?thesis unfolding ticker_typed_def t by (auto dest: set_takeWhileD)
qed

lemma two_powi_representable: "n \<le> 62 \<Longrightarrow> - 62 \<le> n \<Longrightarrow> representable (2 powi n :: rat)"
  unfolding representable_iff using powi2_less_limit [of n] by (intro conjI dyadicI [of _ 1 n]) auto

lemma time_of_nanoseconds:
  assumes "0 < sint (ts :: i64)" shows "time_typed (ddiv (of_i64 ts) (Fin 1000000000))"
proof -
  define n where "n = sint ts"
  have n: "1 \<le> n" "n \<le> 2 ^ 63" using assms sint_lt [of ts] by (simp_all add: n_def)
  have r: "(1 :: rat) \<le> of_int n" "(of_int n :: rat) \<le> 2 ^ 63"
    using n by (simp, metis of_int_le_iff of_int_numeral of_int_power)
  have "representable (2 ^ 63 :: rat)"
    using powi2_less_limit [of 63] unfolding representable_iff by (intro conjI dyadicI [of _ 1 63]) simp_all
  then obtain x where x: "of_i64 ts = Fin x" "1 \<le> x" "x \<le> 2 ^ 63"
    using ieee.rnd_between [of 1 "2 ^ 63" "of_int n"] r by (auto simp: of_i64_def n_def)
  have lo: "representable (2 powi (- 30) :: rat)" and hi: "representable (2 powi 34 :: rat)"
    by (rule two_powi_representable; simp)+
  have "(2 powi (- 30) :: rat) \<le> x / 1000000000" "x / 1000000000 \<le> 2 powi 34"
    using x by (simp_all add: power_int_minus field_simps)
  then obtain y where "round64 (x / 1000000000) = Fin y" "2 powi (- 30) \<le> y" "y \<le> 2 powi 34"
    by (rule ieee.rnd_between [OF lo hi])
  moreover from this have "0 < y" using powi2_pos [of "- 30"] by linarith
  ultimately show ?thesis using x(1) is_double_ddiv [of "Fin x" "Fin 1000000000"] by (simp add: time_typed_def)
qed

lemma to_i64_sign: "to_i64 (Fin x) = Some v \<Longrightarrow> 0 \<le> x \<Longrightarrow> 0 \<le> sint v"
  by (auto simp: trunc_def sint_sbintrunc' signed_take_bit_int_eq_self split: if_splits)

section \<open>The writers\<close>

text \<open>A writer whose rows are typed: what it has committed is typed.\<close>

locale typed_writer = row_writer +
  fixes typed :: "'b \<Rightarrow> bool"
  assumes row_typed: "ok x \<Longrightarrow> row x = Value r \<Longrightarrow> typed r"
begin

lemma batch_typed: "batch_rows row xs = Value rs \<Longrightarrow> \<forall>x \<in> set xs. ok x \<Longrightarrow> r \<in> set rs \<Longrightarrow> typed r"
proof (induction xs arbitrary: rs)
  case (Cons x xs)
  then obtain y ys where "row x = Value y" "batch_rows row xs = Value ys" "rs = y # ys" by (auto elim!: cpp_bind.elims dest!: sym [of "Value rs"])
  then show ?case using Cons row_typed by auto
qed simp

lemma committed_typed: "winv row ok n b w \<Longrightarrow> txn \<in> set (w_txns w) \<Longrightarrow> r \<in> set txn \<Longrightarrow> typed r"
  using batch_typed [of "w_saved w" "concat (w_txns w)" r] by (auto simp: winv_def)

end

interpretation dst: typed_writer db_row wf_snapshot price_row_typed
proof
  fix snap r assume w: "wf_snapshot snap" and "db_row snap = Value r"
  then obtain v where r: "to_i64 (ms_volume snap) = Some v" "r = \<lparr>pw_symbol = sym_string (ms_symbol snap), pw_price = ms_price snap,
      pw_volume = v, pw_recorded_at = ddiv (of_i64 (ms_timestamp_ns snap)) (Fin 1000000000)\<rparr>"
    by (auto simp: db_row_def split: option.splits)
  have "0 \<le> sint v" using w r(1) to_i64_sign by (auto simp: wf_snapshot_def storable_def)
  then show "price_row_typed r" using w ticker_of_symbol time_of_nanoseconds
    by (simp add: r(2) price_row_typed_def wf_snapshot_def quotable_def amount_typed_def)
qed

interpretation ast: typed_writer signal_row wf_signal signal_rec_typed
proof
  fix g r assume "wf_signal g" and "signal_row g = Value r"
  then show "signal_rec_typed r" using ticker_of_symbol time_of_nanoseconds
    by (cases "sg_type g") (auto simp: signal_row_def signal_rec_typed_def wf_signal_def amount_typed_def)
qed

section \<open>Property\<close>

text \<open>
  C13. Everything the service writes is well typed: in every interleaving, every row of every transaction that either writer has
  committed has a ticker of one to seven characters without NUL, a price that is a double and not negative, a volume that is
  not negative or one of the three signal types, and a time in the range of \<open>to_timestamp\<close>.
\<close>

theorem committed_rows_typed:
  assumes "\<forall>t. Upstream (FeedPush t) \<in> set acts \<longrightarrow> feedable t \<and> small t"
    and "processor_service = Value s0" and "service_run acts s0 = Value s"
  shows "(\<forall>txn \<in> set (w_txns (sv_db s)). \<forall>r \<in> set txn. price_row_typed r) \<and>
     (\<forall>txn \<in> set (w_txns (sv_sig s)). \<forall>r \<in> set txn. signal_rec_typed r)"
proof -
  have "service_inv s0" using processor_service_start [OF assms(2)] .
  then have "service_inv s" using service_run_inv [OF _ assms(1), of s0] assms(3) by auto
  then have w: "winv db_row wf_snapshot 99 (batch (sv_db_pc s)) (db_view s)" "winv signal_row wf_signal 99 (batch (sv_sig_pc s)) (sig_view s)"
    using service_invD(2) by (auto simp: sv_writers_def)
  show ?thesis using dst.committed_typed [OF w(1)] ast.committed_typed [OF w(2)] by (simp add: db_view_def sig_view_def)
qed

theorem committed_rows_typed_witness:
  "\<exists>s0 s. processor_service = Value s0 \<and> service_run demo_sv_acts s0 = Value s \<and>
     (\<forall>txn \<in> set (w_txns (sv_db s)). \<forall>r \<in> set txn. price_row_typed r)"
proof -
  obtain s0 s where r: "processor_service = Value s0" "service_run demo_sv_acts s0 = Value s"
    using processor_service_inv service_run_inv [OF _ demo_sv_acts_ok] by blast
  show ?thesis using committed_rows_typed [OF demo_sv_acts_ok r] r by blast
qed

end
