(* ===== verification/Delivery.thy ===== *)
theory Delivery
  imports RowTypes
begin

text \<open>
  From the feed to the database: in the running service a valid tick can travel through all stages, and what is written is the row
  and the signal of that tick. This shows that the safety theorems are not about a service that never writes.
\<close>

section \<open>Queues\<close>

text \<open>A push to an empty ring, and the pop that follows.\<close>

lemma through_ring:
  assumes "ring_ok r" "ring_items r = []" "0 < ring_cap r"
  obtains q q' where "try_push r x = (True, q)" "ring_ok q" "ring_items q = [x]" "try_pop q = (Some x, q')" "ring_ok q'" "ring_items q' = []"
    "ring_cap q' = ring_cap r"
proof -
  obtain q where q: "try_push r x = (True, q)" "ring_ok q" "ring_items q = [x]" "ring_cap q = ring_cap r"
    using rb.push_room [of r x] assms by auto
  then obtain q' where "try_pop q = (Some x, q')" "ring_ok q'" "ring_items q' = []" "ring_cap q' = ring_cap q" using rb.pop_some [of q x "[]"] by auto
  then show thesis using that q by metis
qed

lemma new_ring_room: "k < 64 \<Longrightarrow> 0 < ring_cap (new_ring (2 ^ k) d)"
  by (simp add: ring_cap_def new_ring_def)

section \<open>The first tick of a symbol\<close>

text \<open>The snapshot that a new book publishes for its first tick: the price is that of the tick, the volume that of the level.\<close>

definition first_snapshot :: "MarketTick \<Rightarrow> MarketSnapshot" where
  "first_snapshot t = \<lparr>ms_symbol = mt_symbol t, ms_price = mt_price t, ms_volume = of_u64 (the (to_u64 (mt_volume t))),
     ms_timestamp_ns = mt_timestamp_ns t, ms_sequence = 1\<rparr>"

lemma first_tick:
  assumes inv: "bp_inv bp" and t: "bookable t" and new: "books bp = []" "reference_price bp = []"
    and q: "db_queue bp = Some d" "ring_items d = []" "signal_queue bp = Some g" "ring_items g = []" "0 < ring_cap d" "0 < ring_cap g"
    and v: "to_u64 (mt_volume t) = Some u" "u \<noteq> 0"
  shows "\<exists>bp' d' g'. bp_process_tick t bp = Value bp' \<and> bp_input bp' = bp_input bp \<and>
     db_queue bp' = Some d' \<and> ring_ok d' \<and> ring_items d' = [first_snapshot t] \<and>
     signal_queue bp' = Some g' \<and> ring_ok g' \<and> ring_items g' = [first_snapshot t]"
proof -
  define b b' where "b = fst (book_for (tick_sym t) bp)" and "b' = book_apply (delta_for t bp) b"
  have b: "b = new_book (tick_sym t)" by (simp add: b_def book_for_def new)
  have "bd_side (delta_for t bp) = BID" by (simp add: delta_for_def determine_side_def book_for_def new)
  then have b': "bids b' = [(mt_price t, u)]" "asks b' = []" "bk_updates_applied b' = 1"
    using v by (simp_all add: b'_def b book_apply_def Let_def new_book_def delta_for_def)
  have p: "dlt (Fin 0) (mt_price t)" using t by (auto simp: bookable_def clean_tick_def)
  then have "top_moved b b'" by (auto simp: top_moved_def best_bid_def b b' new_book_def dlt_def)
  moreover have "make_snapshot t (top_of_book 0 b') b' = first_snapshot t"
    using p by (simp add: make_snapshot_def top_of_book_def Let_def b' first_snapshot_def v)
  moreover obtain bp1 where "bp_process_tick t bp = Value bp1" "bp_input bp1 = bp_input bp"
    "top_moved b b' \<Longrightarrow> pushed_to (make_snapshot t (top_of_book 0 b') b') (db_queue bp) (db_queue bp1) \<and>
       pushed_to (make_snapshot t (top_of_book 0 b') b') (signal_queue bp) (signal_queue bp1)"
    using bp_process_tick_effect [OF inv t] unfolding b'_def b_def by metis
  ultimately show ?thesis using q by (auto simp: pushed_to_def)
qed

section \<open>Through the pipeline\<close>

definition stage_acts :: "MarketTick \<Rightarrow> act list" where
  "stage_acts t = [FeedPush t, ParserStep, ParserStep, NormStep, NormStep, BookStep]"

lemma pipe_delivers:
  assumes t: "feedable t" "validate (enrich t)" and v: "to_u64 (mt_volume t) = Some u" "u \<noteq> 0"
  shows "\<exists>p d g. pipe_run (stage_acts t) service_pipe = Value p \<and> pl_ctl p = 0 \<and>
     db_queue (pl_book p) = Some d \<and> ring_ok d \<and> ring_items d = [first_snapshot (enrich t)] \<and>
     signal_queue (pl_book p) = Some g \<and> ring_ok g \<and> ring_items g = [first_snapshot (enrich t)]"
proof -
  have r: "ring_ok (new_ring 16384 zero_tick)" "ring_ok (new_ring 4096 zero_tick)" "ring_ok (new_ring 4096 zero_snapshot)"
    "0 < ring_cap (new_ring 16384 zero_tick)" "0 < ring_cap (new_ring 4096 zero_tick)" "0 < ring_cap (new_ring 4096 zero_snapshot)"
    using ring_new_ok [of 14 zero_tick] ring_new_ok [of 12 zero_tick] ring_new_ok [of 12 zero_snapshot]
      new_ring_room [of 14 zero_tick] new_ring_room [of 12 zero_tick] new_ring_room [of 12 zero_snapshot] by simp_all
  obtain a a' where a: "try_push (new_ring 16384 zero_tick) t = (True, a)" "try_pop a = (Some t, a')"
    by (rule through_ring [OF r(1) _ r(4), of t]) simp_all
  obtain b b' where b: "try_push (new_ring 4096 zero_tick) (enrich t) = (True, b)" "try_pop b = (Some (enrich t), b')" "ring_ok b'" "ring_items b' = []"
    by (rule through_ring [OF r(2) _ r(5), of "enrich t"]) simp_all
  define bp where "bp = (new_book_processor (new_ring 4096 zero_tick) (Some (new_ring 4096 zero_snapshot)) (Some (new_ring 4096 zero_snapshot)))\<lparr>bp_input := b'\<rparr>"
  have "bp_inv bp" using b r by (simp add: bp_inv_def bp_def new_book_processor_def queue_ok_def)
  moreover have "bookable (enrich t)" using feedable_bookable t by blast
  ultimately obtain bp' d g where m: "bp_process_tick (enrich t) bp = Value bp'" "bp_input bp' = b'"
    "db_queue bp' = Some d" "ring_ok d" "ring_items d = [first_snapshot (enrich t)]"
    "signal_queue bp' = Some g" "ring_ok g" "ring_items g = [first_snapshot (enrich t)]"
    using first_tick [of bp "enrich t" "new_ring 4096 zero_snapshot" "new_ring 4096 zero_snapshot" u] r v
    by (auto simp: bp_def new_book_processor_def)
  show ?thesis using a b t(2) m
    by (simp add: stage_acts_def service_pipe_def new_pipe_def parser_view_def norm_view_def book_view_def new_parser_def new_normalizer_def
        is_duplicate_def is_reordered_def update_state_def count_forwarded_def bp_step_def Let_def bp_def new_book_processor_def)
qed

section \<open>Through the service\<close>

lemma upstream_run:
  "\<forall>a \<in> set as. a \<noteq> DbTake \<and> a \<noteq> SignalTake \<and> a \<noteq> MainStep \<Longrightarrow> pipe_run as (sv_pipe s) = Value p \<Longrightarrow>
     service_run (map Upstream as) s = Value (s\<lparr>sv_pipe := p\<rparr>)"
proof (induction as arbitrary: s)
  case (Cons a as)
  then obtain p1 where p1: "pipe_step a (sv_pipe s) = Value p1" "pipe_run as p1 = Value p" by (auto elim!: cpp_bind.elims)
  then show ?case using Cons.IH [of "s\<lparr>sv_pipe := p1\<rparr>"] Cons.prems(1) by simp
qed simp

text \<open>What the two writers make of the tick.\<close>

definition tick_row :: "MarketTick \<Rightarrow> i64 \<Rightarrow> price_row" where
  "tick_row t v = \<lparr>pw_symbol = sym_string (mt_symbol t), pw_price = mt_price t, pw_volume = v,
     pw_recorded_at = ddiv (of_i64 (mt_timestamp_ns t)) (Fin 1000000000)\<rparr>"

definition tick_signal :: "MarketTick \<Rightarrow> signal_rec" where
  "tick_signal t = \<lparr>sr_symbol = sym_string (mt_symbol t), sr_type = ''HOLD'', sr_price = mt_price t,
     sr_timestamp = ddiv (of_i64 (mt_timestamp_ns t)) (Fin 1000000000)\<rparr>"

definition delivery_acts :: "MarketTick \<Rightarrow> sv_act list" where
  "delivery_acts t = map Upstream (stage_acts t) @
     [DbStep True 0 True, DbStep True 10000000 True, EngineStep, EngineStep, SigStep True 0 True, SigStep True 10000000 True]"

lemma volume_exact:
  assumes "mt_volume t = Fin v" "1 \<le> v" "v < 2 ^ 53"
  shows "to_u64 (mt_volume t) = Some (of_int \<lfloor>v\<rfloor>)" "(of_int \<lfloor>v\<rfloor> :: u64) \<noteq> 0" "to_i64 (of_u64 (of_int \<lfloor>v\<rfloor>)) = Some (of_int \<lfloor>v\<rfloor>)"
proof -
  define n where "n = \<lfloor>v\<rfloor>"
  have n: "1 \<le> n" "n < 2 ^ 53" "trunc v = n" using assms by (simp_all add: n_def floor_less_iff le_floor_iff trunc_def)
  have u: "unat (of_int n :: u64) = nat n" using n by (simp add: unat_eq_nat_uint uint_word_of_int_eq take_bit_int_eq_self)
  have "of_u64 (of_int n) = Fin (of_int n)"
    using n u round64_int [of n] by (simp add: of_u64_def)
  moreover have "trunc (of_int n :: rat) = n" using n by (simp add: trunc_def)
  ultimately show "to_u64 (mt_volume t) = Some (of_int \<lfloor>v\<rfloor>)" "(of_int \<lfloor>v\<rfloor> :: u64) \<noteq> 0" "to_i64 (of_u64 (of_int \<lfloor>v\<rfloor>)) = Some (of_int \<lfloor>v\<rfloor>)"
    using n u assms(1) by (auto simp: n_def [symmetric] word_unat_eq_iff)
qed

text \<open>The first signal of a symbol is HOLD, with the price as average.\<close>

definition first_signal :: "MarketTick \<Rightarrow> Signal" where
  "first_signal t = \<lparr>sg_symbol = mt_symbol t, sg_price = mt_price t, sg_ema_value = mt_price t, sg_timestamp_ns = mt_timestamp_ns t, sg_type = HOLD\<rparr>"

lemma signal_row_first: "signal_row (first_signal t) = Value (tick_signal t)"
  by (simp add: signal_row_def first_signal_def tick_signal_def)

lemma first_signal_made:
  assumes "feedable t" "validate (enrich t)" "um_find (ema_map se) (sym_string (mt_symbol (enrich t))) = None"
  shows "fst (make_signal (first_snapshot (enrich t)) se) = first_signal (enrich t)"
proof -
  have "dle (Fin 0) (mt_price t)" "is_double (mt_price t)" using assms by (auto simp: feedable_def validate_iff)
  then have "signal_type (mt_price t) (mt_price t) = HOLD"
    using signal_type_sound [of "mt_price t" "mt_price t"] by (cases "signal_type (mt_price t) (mt_price t)") (auto simp: dlt_def)
  then show ?thesis using assms(3) by (simp add: make_signal_def Let_def first_snapshot_def first_signal_def)
qed

section \<open>Property\<close>

text \<open>
  A valid tick reaches the database: from the start of the service, for every tick in range that passes the validation and has a volume from 1
  to below \<open>2 ^ 53\<close>, there is an execution of the threads after which both writers have committed exactly one row. The one has the
  symbol (cut to seven characters), price, whole volume and time of the tick, the other is the HOLD signal of the same symbol,
  price and time.
\<close>

theorem tick_delivered:
  assumes t: "feedable t" "validate (enrich t)" and v: "mt_volume t = Fin v" "1 \<le> v" "v < 2 ^ 53"
  shows "\<exists>s0 s. processor_service = Value s0 \<and> service_run (delivery_acts t) s0 = Value s \<and>
     w_txns (sv_db s) = [[tick_row (enrich t) (of_int \<lfloor>v\<rfloor>)]] \<and> w_txns (sv_sig s) = [[tick_signal (enrich t)]]"
proof -
  note vol = volume_exact [OF v]
  obtain se where se: "new_signal_engine (new_ring 4096 zero_snapshot) (new_ring 4096 zero_signal) 20 = Value se"
    "se_out se = new_ring 4096 zero_signal" "ema_map se = []" by (simp add: new_signal_engine_def)
  define s0 where "s0 = new_service service_pipe se"
  obtain p d g where p: "pipe_run (stage_acts t) service_pipe = Value p" "pl_ctl p = 0"
    "db_queue (pl_book p) = Some d" "ring_ok d" "ring_items d = [first_snapshot (enrich t)]"
    "signal_queue (pl_book p) = Some g" "ring_ok g" "ring_items g = [first_snapshot (enrich t)]"
    using pipe_delivers [OF t vol(1,2)] by blast
  have up: "service_run (map Upstream (stage_acts t)) s0 = Value (s0\<lparr>sv_pipe := p\<rparr>)"
    using p(1) by (intro upstream_run) (auto simp: stage_acts_def s0_def new_service_def)
  obtain d' where d': "try_pop d = (Some (first_snapshot (enrich t)), d')" using rb.pop_some [OF p(4,5)] by blast
  obtain g' where g': "try_pop g = (Some (first_snapshot (enrich t)), g')" using rb.pop_some [OF p(7,8)] by blast
  obtain q q' where q: "try_push (new_ring 4096 zero_signal) (first_signal (enrich t)) = (True, q)" "try_pop q = (Some (first_signal (enrich t)), q')"
  proof (rule through_ring)
    show "ring_ok (new_ring 4096 zero_signal)" "0 < ring_cap (new_ring 4096 zero_signal)"
      using ring_new_ok [of 12 zero_signal] new_ring_room [of 12 zero_signal] by simp_all
  qed simp_all
  have row: "db_row (first_snapshot (enrich t)) = Value (tick_row (enrich t) (of_int \<lfloor>v\<rfloor>))"
    using vol by (simp add: db_row_def first_snapshot_def tick_row_def)
  have sig: "fst (make_signal (first_snapshot (enrich t)) x) = first_signal (enrich t)" if "ema_map x = []" for x
    using first_signal_made [OF t] that by simp
  have out: "se_out (snd (make_signal snap x)) = se_out x" for snap x by (simp add: make_signal_def Let_def)
  show ?thesis unfolding delivery_acts_def service_run_append
    using up se p(2,3,6) d' g' q row sig out
    by (simp add: processor_service_def s0_def [symmetric])
      (simp add: s0_def new_service_def new_writer_def wobs_def queue_step_def flush_to_db_def signal_row_first set_db_def set_signal_def)
qed

theorem tick_delivered_witness:
  "\<exists>s0 s. processor_service = Value s0 \<and> service_run (delivery_acts (demo_btc 100 5)) s0 = Value s \<and>
     w_txns (sv_db s) = [[tick_row (enrich (demo_btc 100 5)) 5]]"
proof -
  have b: "bookable (demo_btc 100 5)" by (rule demo_btc_bookable) simp_all
  then have "validate (enrich (demo_btc 100 5))" by (auto simp: bookable_def clean_tick_def validate_iff)
  moreover have "mt_volume (demo_btc 100 5) = Fin 5" by (simp add: demo_btc_def)
  ultimately show ?thesis using tick_delivered [OF bookable_feedable [OF b], of 5] by auto
qed

end
