(* ===== verification/Processor.thy ===== *)
theory Processor
  imports FeedSteps RowTypes
begin

text \<open>
  The whole program \<open>tools/processor_main.cpp\<close>: \<open>main\<close> reads the environment, builds the stages, starts the seven threads in its order, waits
  for a signal, and stops the threads in its order. The feed is the \<open>PostgresFeedReader\<close> as a thread of its own, with the database
  as a parameter: a step of the reader is given whether a connection opens and what a query returns.
\<close>

section \<open>The program\<close>

text \<open>
  \<open>pr_started\<close> counts the calls of \<open>start\<close>: \<open>db_writer\<close>, \<open>signal_db_writer\<close>, \<open>signal_engine\<close>, \<open>book\<close>, \<open>norm\<close>, \<open>parser\<close> and \<open>sim\<close>; \<open>pr_running\<close> is the flag that
  the signal handler clears. The stop requests are those of the service.
\<close>

record processor =
  pr_started :: nat
  pr_running :: bool
  pr_reader :: reader_state
  pr_service :: service

datatype pr_act = PR_main | PR_signal int | PR_reader pg_obs | PR_thread sv_act

text \<open>The place of a thread in the order of the calls of \<open>start\<close>; the reader is the seventh.\<close>

fun start_order :: "sv_act \<Rightarrow> nat option" where
  "start_order (DbStep connect now commit) = Some 1"
| "start_order (SigStep connect now commit) = Some 2"
| "start_order EngineStep = Some 3"
| "start_order (Upstream BookStep) = Some 4"
| "start_order (Upstream NormStep) = Some 5"
| "start_order (Upstream ParserStep) = Some 6"
| "start_order _ = None"

definition pr_main :: "processor \<Rightarrow> processor" where
  "pr_main s =
     (if pr_started s < 7 then s\<lparr>pr_started := pr_started s + 1\<rparr>
      else if pr_running s then s
      else s\<lparr>pr_service := service_main (pr_service s)\<rparr>)"

definition pr_feed :: "pg_obs \<Rightarrow> processor \<Rightarrow> processor" where
  "pr_feed ob s =
     (let p = sv_pipe (pr_service s); f = reader_turn ob (1 \<le> pl_ctl p) (reader_with_ring (q1 p) (pr_reader s))
      in s\<lparr>pr_reader := f, pr_service := (pr_service s)\<lparr>sv_pipe :=
           feed_into (reader_ring f) (pg_published (snd (snd f)) \<noteq> pg_published (snd (snd (pr_reader s)))) (fst f = R_done) p\<rparr>\<rparr>)"

fun pr_step :: "pr_act \<Rightarrow> processor \<Rightarrow> processor cpp" where
  "pr_step PR_main s = Value (pr_main s)"
| "pr_step (PR_signal sig) s = Value (s\<lparr>pr_running := signal_handler sig (pr_running s)\<rparr>)"
| "pr_step (PR_reader ob) s = Value (if 7 \<le> pr_started s then pr_feed ob s else s)"
| "pr_step (PR_thread a) s = (case start_order a of
      None \<Rightarrow> Value s
    | Some k \<Rightarrow> if k \<le> pr_started s then cpp_bind (service_step a (pr_service s)) (\<lambda>sv. Value (s\<lparr>pr_service := sv\<rparr>)) else Value s)"

fun pr_run :: "pr_act list \<Rightarrow> processor \<Rightarrow> processor cpp" where
  "pr_run [] s = Value s"
| "pr_run (a # as) s = cpp_bind (pr_step a s) (pr_run as)"

text \<open>The program up to the first \<open>start\<close>: an exit code or the objects, and the exit code at the end.\<close>

definition processor_start :: "(string \<Rightarrow> string option) \<Rightarrow> int + processor cpp" where
  "processor_start getenv = (case main_setup getenv of
      Inl code \<Rightarrow> Inl code
    | Inr (db_conn_str, config) \<Rightarrow> Inr (cpp_bind processor_service (\<lambda>sv.
        Value \<lparr>pr_started = 0, pr_running = True, pr_reader = (R_outer, Fin 0, new_pg_reader config (q1 (sv_pipe sv))), pr_service = sv\<rparr>)))"

definition processor_exit :: "processor \<Rightarrow> int option" where
  "processor_exit s = (if sv_ctl (pr_service s) = 4 then Some 0 else None)"

text \<open>The database only returns rows with a price that is a double and a volume below \<open>2 ^ 61\<close>.\<close>

definition pr_sane :: "pr_act list \<Rightarrow> bool" where
  "pr_sane acts \<longleftrightarrow> (\<forall>ob. PR_reader ob \<in> set acts \<longrightarrow> pg_obs_ok ob)"

section \<open>Every run is a run of the service\<close>

definition pr_inv :: "processor \<Rightarrow> bool" where
  "pr_inv s \<longleftrightarrow> pgf.coupled (pr_reader s) (sv_pipe (pr_service s)) \<and> service_inv (pr_service s) \<and> pr_started s \<le> 7 \<and>
     (pr_started s < 7 \<or> pr_running s \<longrightarrow> pl_ctl (sv_pipe (pr_service s)) = 0)"

definition sv_follows :: "service \<Rightarrow> service \<Rightarrow> bool" where
  "sv_follows s s' \<longleftrightarrow> (\<exists>as. (\<forall>t. Upstream (FeedPush t) \<in> set as \<longrightarrow> feedable t \<and> small t) \<and> service_run as s = Value s')"

lemma sv_follows_refl [simp]: "sv_follows s s"
  unfolding sv_follows_def by (intro exI [of _ "[]"]) simp

lemma sv_follows_step: "service_step a s = Value s' \<Longrightarrow> (\<And>t. a \<noteq> Upstream (FeedPush t)) \<Longrightarrow> sv_follows s s'"
  unfolding sv_follows_def by (intro exI [of _ "[a]"]) auto

lemma sv_follows_trans: "sv_follows s s1 \<Longrightarrow> sv_follows s1 s2 \<Longrightarrow> sv_follows s s2"
proof -
  assume "sv_follows s s1" "sv_follows s1 s2"
  then obtain as bs where "\<forall>t. Upstream (FeedPush t) \<in> set as \<longrightarrow> feedable t \<and> small t" "service_run as s = Value s1"
    "\<forall>t. Upstream (FeedPush t) \<in> set bs \<longrightarrow> feedable t \<and> small t" "service_run bs s1 = Value s2" by (auto simp: sv_follows_def)
  then show ?thesis unfolding sv_follows_def by (intro exI [of _ "as @ bs"]) (auto simp: service_run_append)
qed

lemma sv_follows_inv: "sv_follows s s' \<Longrightarrow> service_inv s \<Longrightarrow> service_inv s'"
  using service_run_inv by (fastforce simp: sv_follows_def)

text \<open>The steps of a feed on the pipeline, seen by the service.\<close>

lemma feed_acts_upstream:
  "feed_acts good as \<Longrightarrow> pipe_run as (sv_pipe s) = Value p \<Longrightarrow> service_run (map Upstream as) s = Value (s\<lparr>sv_pipe := p\<rparr>)"
proof (induction as arbitrary: s)
  case (Cons a as)
  then obtain p1 where p1: "pipe_step a (sv_pipe s) = Value p1" "pipe_run as p1 = Value p" by (auto elim!: cpp_bind.elims)
  have "service_step (Upstream a) s = Value (s\<lparr>sv_pipe := p1\<rparr>)" using p1(1) Cons.prems(1) by (auto simp: feed_acts_def)
  moreover have "feed_acts good as" using Cons.prems(1) by (simp add: feed_acts_def)
  ultimately show ?case using Cons.IH [of "s\<lparr>sv_pipe := p1\<rparr>"] p1(2) by simp
qed simp

lemma thread_quiet:
  assumes "service_step a s = Value s'" "start_order a \<noteq> None"
  shows "pl_feed_done (sv_pipe s') = pl_feed_done (sv_pipe s)" "pl_fed (sv_pipe s') = pl_fed (sv_pipe s)" "pl_ctl (sv_pipe s') = pl_ctl (sv_pipe s)"
proof -
  have "pl_feed_done (sv_pipe s') = pl_feed_done (sv_pipe s) \<and> pl_fed (sv_pipe s') = pl_fed (sv_pipe s) \<and> pl_ctl (sv_pipe s') = pl_ctl (sv_pipe s)"
  proof (cases a)
    case (Upstream x)
    then obtain p where "pipe_step x (sv_pipe s) = Value p" "s' = s\<lparr>sv_pipe := p\<rparr>" "x \<in> {ParserStep, NormStep, BookStep}"
      using assms by (cases x) (auto elim!: cpp_bind.elims)
    then show ?thesis using stage_quiet [of x "sv_pipe s" p] by auto
  qed (use assms in \<open>auto simp: set_db_def set_signal_def split: option.splits prod.splits elim!: cpp_bind.elims\<close>)
  then show "pl_feed_done (sv_pipe s') = pl_feed_done (sv_pipe s)" "pl_fed (sv_pipe s') = pl_fed (sv_pipe s)"
    "pl_ctl (sv_pipe s') = pl_ctl (sv_pipe s)" by auto
qed

lemma main_quiet: "pl_feed_done (sv_pipe (service_main s)) = pl_feed_done (sv_pipe s)" "pl_fed (sv_pipe (service_main s)) = pl_fed (sv_pipe s)"
  by (simp_all add: service_main_def main_step_quiet)

lemma pr_thread_ok:
  assumes inv: "pr_inv s"
  shows "\<exists>s'. pr_step (PR_thread a) s = Value s' \<and> pr_inv s' \<and> sv_follows (pr_service s) (pr_service s')"
proof (cases "\<exists>k. start_order a = Some k \<and> k \<le> pr_started s")
  case True
  then obtain k where k: "start_order a = Some k" "k \<le> pr_started s" by blast
  have nf: "a \<noteq> Upstream (FeedPush t)" for t using k(1) by auto
  have si: "service_inv (pr_service s)" using inv by (simp add: pr_inv_def)
  obtain sv where sv: "service_step a (pr_service s) = Value sv" "service_inv sv" using service_step_inv [OF si, of a] nf by blast
  note q = thread_quiet [OF sv(1)]
  have "pgf.coupled (pr_reader s) (sv_pipe sv)"
    using pgf.coupled_same [OF q(1,2), of "pr_reader s"] k(1) inv by (simp add: pr_inv_def)
  moreover have "sv_follows (pr_service s) sv" using sv_follows_step [OF sv(1) nf] .
  ultimately show ?thesis using k sv inv q(3) by (simp add: pr_inv_def)
next
  case False
  then show ?thesis using inv by (auto split: option.split)
qed

lemma pr_feed_ok:
  assumes inv: "pr_inv s" and ob: "pg_obs_ok ob"
  shows "pr_inv (pr_feed ob s) \<and> sv_follows (pr_service s) (pr_service (pr_feed ob s))"
proof -
  let ?p = "sv_pipe (pr_service s)"
  define f where "f = reader_turn ob (1 \<le> pl_ctl ?p) (reader_with_ring (q1 ?p) (pr_reader s))"
  define p where "p = feed_into (reader_ring f) (pg_published (snd (snd f)) \<noteq> pg_published (snd (snd (pr_reader s)))) (fst f = R_done) ?p"
  have s': "pr_feed ob s = s\<lparr>pr_reader := f, pr_service := (pr_service s)\<lparr>sv_pipe := p\<rparr>\<rparr>" by (simp add: pr_feed_def Let_def f_def p_def)
  have c: "pgf.coupled (pr_reader s) ?p" using inv by (simp add: pr_inv_def)
  obtain as where as: "feed_acts storable_tick as" "pipe_run as ?p = Value p" using pgf.turn_refines [OF c ob f_def] unfolding p_def by blast
  have "\<forall>t. Upstream (FeedPush t) \<in> set (map Upstream as) \<longrightarrow> feedable t \<and> small t" using as(1) by (auto simp: feed_acts_def storable_tick_def)
  then have f: "sv_follows (pr_service s) ((pr_service s)\<lparr>sv_pipe := p\<rparr>)"
    using feed_acts_upstream [OF as] unfolding sv_follows_def by blast
  moreover have "pgf.coupled f p" unfolding p_def by (rule pgf.turn_coupled [OF c ob f_def])
  ultimately show ?thesis using inv sv_follows_inv unfolding s' by (simp add: pr_inv_def) (simp add: p_def)
qed

lemma pr_step_ok:
  assumes inv: "pr_inv s" and a: "\<And>ob. a = PR_reader ob \<Longrightarrow> pg_obs_ok ob"
  shows "\<exists>s'. pr_step a s = Value s' \<and> pr_inv s' \<and> sv_follows (pr_service s) (pr_service s')"
proof (cases a)
  case PR_main
  have m: "service_step MainNext (pr_service s) = Value (service_main (pr_service s))" by simp
  have "pr_inv (s\<lparr>pr_service := service_main (pr_service s)\<rparr>)" if "\<not> pr_running s" "\<not> pr_started s < 7"
    using that inv main_next_inv pgf.coupled_same [OF main_quiet, of "pr_reader s"] by (simp add: pr_inv_def)
  then show ?thesis using PR_main inv sv_follows_step [OF m] by (auto simp: pr_main_def) (auto simp: pr_inv_def)
next
  case (PR_signal sig)
  then show ?thesis using inv by (auto simp: pr_inv_def signal_handler_def)
next
  case (PR_reader ob)
  then show ?thesis using pr_feed_ok [OF inv a] inv by simp
next
  case (PR_thread x)
  then show ?thesis using pr_thread_ok [OF inv] by blast
qed

lemma pr_run_ok:
  "pr_inv s \<Longrightarrow> pr_sane acts \<Longrightarrow> \<exists>s'. pr_run acts s = Value s' \<and> pr_inv s' \<and> sv_follows (pr_service s) (pr_service s')"
proof (induction acts arbitrary: s)
  case (Cons a acts)
  obtain s1 where s1: "pr_step a s = Value s1" "pr_inv s1" "sv_follows (pr_service s) (pr_service s1)"
    using pr_step_ok [OF Cons.prems(1), of a] Cons.prems(2) by (auto simp: pr_sane_def)
  moreover have "pr_sane acts" using Cons.prems(2) by (simp add: pr_sane_def)
  ultimately obtain s' where "pr_run acts s1 = Value s'" "pr_inv s'" "sv_follows (pr_service s1) (pr_service s')" using Cons.IH by blast
  then show ?case using s1 sv_follows_trans by auto
qed simp

lemma pr_run_append: "pr_run (as @ bs) s = cpp_bind (pr_run as s) (pr_run bs)"
proof (induction as arbitrary: s)
  case (Cons a as)
  show ?case by (cases "pr_step a s") (simp_all add: Cons.IH)
qed simp

text \<open>Only the handler clears the flag.\<close>

lemma pr_run_signal:
  "pr_run acts s = Value s' \<Longrightarrow> pr_running s \<Longrightarrow> \<not> pr_running s' \<Longrightarrow> PR_signal 2 \<in> set acts \<or> PR_signal 15 \<in> set acts"
proof (induction acts arbitrary: s)
  case (Cons a acts)
  obtain s1 where s1: "pr_step a s = Value s1" "pr_run acts s1 = Value s'" using Cons.prems(1) by (auto elim!: cpp_bind.elims)
  show ?case
  proof (cases "pr_running s1")
    case False
    then have "a = PR_signal 2 \<or> a = PR_signal 15" using s1(1) Cons.prems(2)
      by (cases a) (auto simp: pr_main_def pr_feed_def Let_def signal_handler_def split: if_splits option.splits elim!: cpp_bind.elims)
    then show ?thesis by auto
  qed (use Cons.IH [OF s1(2)] Cons.prems(3) in auto)
qed simp

lemma processor_start_ok:
  assumes "processor_start env = Inr c"
  shows "\<exists>s. c = Value s \<and> pr_inv s \<and> processor_service = Value (pr_service s) \<and> pr_running s"
proof -
  obtain db config where m: "main_setup env = Inr (db, config)" using assms by (auto simp: processor_start_def split: sum.splits prod.splits)
  obtain sv where sv: "processor_service = Value sv" "service_inv sv" using processor_service_inv by blast
  define s where "s = \<lparr>pr_started = 0, pr_running = True, pr_reader = (R_outer, Fin 0, new_pg_reader config (q1 (sv_pipe sv))), pr_service = sv\<rparr>"
  have "c = Value s" using assms unfolding processor_start_def m sv(1) by (simp add: s_def)
  moreover have "pl_feed_done (sv_pipe sv) = False" "pl_fed (sv_pipe sv) = 0" "pl_ctl (sv_pipe sv) = 0"
    using sv(1) by (auto simp: processor_service_def new_service_def service_pipe_def new_pipe_def elim!: cpp_bind.elims)
  then have "pr_inv s" using sv(2) by (simp add: pr_inv_def s_def pgf.coupled_def reader_ok_def new_pg_reader_def)
  ultimately show ?thesis using sv(1) by (simp add: s_def)
qed

section \<open>The shutdown\<close>

text \<open>How far the reader is from its end once it is asked to stop: it publishes the rest of the rows of a result first.\<close>

fun reader_rank :: "reader_pc \<Rightarrow> nat" where
  "reader_rank R_done = 0"
| "reader_rank R_outer = 1"
| "reader_rank R_inner = 2"
| "reader_rank (R_sleep r back) = 3"
| "reader_rank (R_poll symbs) = 4"
| "reader_rank (R_rows symb rows symbs) = 5 + length rows"

lemma rank_next: "reader_rank (reader_pause r R_inner) \<le> 3" "reader_rank (reader_next symbs) \<le> 4"
  "reader_rank (reader_take symb rows symbs) \<le> 5 + length rows"
  by (simp_all add: reader_pause_def reader_next_def reader_take_def)

lemma reader_micro_rank:
  "held_ok pc \<Longrightarrow> po_stop ob \<Longrightarrow> pc \<noteq> R_done \<Longrightarrow> reader_rank (fst (reader_micro ob pc l pg)) < reader_rank pc"
proof (induction ob pc l pg rule: reader_micro.induct)
  case (7 ob symb row now rows symbs l pg)
  show ?case using rank_next(3) [of symb rows symbs] by simp
qed (use rank_next in \<open>auto simp: less_Suc_eq_le reader_next_def reader_pause_def\<close>)

lemma reader_turn_rank:
  assumes "reader_ok s" "fst s \<noteq> R_done" shows "reader_rank (fst (reader_turn ob True (reader_with_ring q s))) < reader_rank (fst s)"
  using reader_micro_rank [of "fst s" "ob\<lparr>po_stop := True\<rparr>"] assms by (simp add: reader_defs)

text \<open>A database that answers nothing, and the next step of a shutdown.\<close>

definition silent_db :: pg_obs where
  "silent_db = \<lparr>po_stop = False, po_connect = False, po_query = \<lambda>symb l. Rows [], po_pops = 0\<rparr>"

lemma silent_db_ok: "pg_obs_ok silent_db"
  by (simp add: pg_obs_ok_def silent_db_def result_ok_def)

definition pr_work :: "processor \<Rightarrow> nat" where
  "pr_work s = (if pl_ctl (sv_pipe (pr_service s)) = 1 then reader_rank (fst (pr_reader s)) else service_work (pr_service s))"

abbreviation pr_order :: "(processor \<times> processor) set" where
  "pr_order \<equiv> measures [\<lambda>s. 7 - pr_started s, \<lambda>s. of_bool (pr_running s),
     \<lambda>s. 9 - (pl_ctl (sv_pipe (pr_service s)) + sv_ctl (pr_service s)), pr_work]"

text \<open>While \<open>main\<close> waits for the reader, the reader takes a step; otherwise the service has one that brings it closer to the end.\<close>

lemma service_part:
  assumes inv: "pr_inv s" and "pr_started s = 7" "\<not> pr_running s" and c: "sv_ctl (pr_service s) < 4"
    and d: "pl_ctl (sv_pipe (pr_service s)) = 1 \<Longrightarrow> pl_feed_done (sv_pipe (pr_service s))"
  shows "\<exists>a s'. (\<forall>ob. a \<noteq> PR_reader ob) \<and> pr_step a s = Value s' \<and> (s', s) \<in> pr_order"
proof -
  let ?sv = "pr_service s"
  have si: "service_inv ?sv" using inv by (simp add: pr_inv_def)
  obtain a sv where a: "stop_act ?sv a" "service_step a ?sv = Value sv" "(sv, ?sv) \<in> service_order" using service_progress [OF si c] by blast
  have st: "pr_step (if a = MainNext then PR_main else PR_thread a) s = Value (s\<lparr>pr_service := sv\<rparr>)"
  proof (cases a)
    case (Upstream x)
    then have "x \<in> {ParserStep, NormStep, BookStep}" using a(1) d by (auto simp: stop_act_def)
    then show ?thesis using Upstream a(2) assms(2) by (auto simp del: service_step.simps)
  qed (use a(2) assms(2,3) in \<open>auto simp: pr_main_def simp del: service_step.simps(2-4)\<close>)
  have "pl_ctl (sv_pipe ?sv) = 1 \<Longrightarrow> service_work ?sv = 0" using d by (simp add: service_work_def shutdown_work_def)
  moreover have "service_inv sv" using service_step_inv [OF si, of a] a(1,2) stop_act_no_tick by fastforce
  then have "pl_ctl (sv_pipe sv) \<noteq> 1 \<or> sv_ctl sv = 0" "pl_ctl (sv_pipe ?sv) \<noteq> 5 \<longrightarrow> sv_ctl ?sv = 0"
    using service_invD(4) [of sv] service_invD(4) [OF si] by (auto simp: sv_control_def)
  ultimately have "(s\<lparr>pr_service := sv\<rparr>, s) \<in> pr_order" using a(3) assms(2,3) by (auto simp: pr_work_def)
  then show ?thesis using st by (intro exI [of _ "if a = MainNext then PR_main else PR_thread a"] exI [of _ "s\<lparr>pr_service := sv\<rparr>"]) simp
qed

lemma pr_progress:
  assumes inv: "pr_inv s" and c: "sv_ctl (pr_service s) < 4"
  shows "\<exists>a s'. (\<forall>ob. a = PR_reader ob \<longrightarrow> pg_obs_ok ob) \<and> pr_step a s = Value s' \<and> (s', s) \<in> pr_order"
proof -
  let ?p = "sv_pipe (pr_service s)"
  consider "pr_started s < 7" | "pr_started s = 7" "pr_running s" | "pr_started s = 7" "\<not> pr_running s" "pl_ctl ?p = 1" "\<not> pl_feed_done ?p"
    | "pr_started s = 7" "\<not> pr_running s" "pl_ctl ?p = 1 \<Longrightarrow> pl_feed_done ?p"
    using inv by (fastforce simp: pr_inv_def)
  then show ?thesis
  proof cases
    case 1
    then show ?thesis by (intro exI [of _ PR_main] exI [of _ "pr_main s"]) (auto simp: pr_main_def)
  next
    case 2
    then show ?thesis
      by (intro exI [of _ "PR_signal 15"] exI [of _ "s\<lparr>pr_running := False\<rparr>"]) (simp add: signal_handler_def)
  next
    case 3
    have "reader_ok (pr_reader s)" "fst (pr_reader s) \<noteq> R_done" using inv 3(4) by (auto simp: pr_inv_def pgf.coupled_def)
    from reader_turn_rank [OF this, of silent_db "q1 ?p"] have "(pr_feed silent_db s, s) \<in> pr_order"
      using 3 by (simp add: pr_feed_def Let_def pr_work_def)
    then show ?thesis using 3(1) silent_db_ok by (intro exI [of _ "PR_reader silent_db"] exI [of _ "pr_feed silent_db s"]) simp
  next
    case 4
    then show ?thesis using service_part [OF inv 4(1,2) c] by blast
  qed
qed

lemma pr_reaches_end:
  assumes "pr_inv s"
  shows "\<exists>acts s'. pr_sane acts \<and> pr_run acts s = Value s' \<and> processor_exit s' = Some 0"
  using assms
proof (induction s rule: wf_induct_rule [OF wf_measures [of "[\<lambda>s. 7 - pr_started s, \<lambda>s. of_bool (pr_running s),
     \<lambda>s. 9 - (pl_ctl (sv_pipe (pr_service s)) + sv_ctl (pr_service s)), pr_work]"]])
  case (1 s)
  show ?case
  proof (cases "sv_ctl (pr_service s) < 4")
    case True
    obtain a s1 where a: "\<forall>ob. a = PR_reader ob \<longrightarrow> pg_obs_ok ob" "pr_step a s = Value s1" "(s1, s) \<in> pr_order"
      using pr_progress [OF "1.prems" True] by blast
    have "pr_inv s1" using pr_step_ok [OF "1.prems", of a] a(1,2) by auto
    from "1.IH" [OF a(3) this] obtain acts s' where "pr_sane acts" "pr_run acts s1 = Value s'" "processor_exit s' = Some 0" by blast
    then show ?thesis using a(1,2) by (intro exI [of _ "a # acts"] exI [of _ s']) (auto simp: pr_sane_def dest: sym)
  next
    case False
    have "sv_ctl (pr_service s) \<le> 4" using "1.prems" service_invD(4) by (auto simp: pr_inv_def sv_control_def)
    then show ?thesis using False by (intro exI [of _ "[]"] exI [of _ s]) (simp add: pr_sane_def processor_exit_def)
  qed
qed

section \<open>Properties\<close>

definition demo_row_db :: pg_obs where
  "demo_row_db = \<lparr>po_stop = False, po_connect = True, po_query = \<lambda>symb l. Rows [(Some \<lparr>pr_price = Fin 100, pr_volume = Fin 7, pr_epoch = Fin 1\<rparr>, 9)], po_pops = 0\<rparr>"

definition demo_pr_acts :: "pr_act list" where
  "demo_pr_acts = replicate 7 PR_main @ replicate 4 (PR_reader demo_row_db) @ [PR_thread (Upstream ParserStep), PR_signal 15, PR_main, PR_thread (Upstream ParserStep)]"

lemma demo_pr_sane: "pr_sane demo_pr_acts"
  by (simp add: pr_sane_def demo_pr_acts_def pg_obs_ok_def demo_row_db_def result_ok_def row_ok_def)

lemma demo_start: "\<exists>c. processor_start demo_env = Inr c"
  using main_setup_demo by (auto simp: processor_start_def)

text \<open>
  C1. The whole service program is safe, whatever the database does: if the rows it returns have a double as price and a volume below \<open>2 ^ 61\<close>,
  then in every interleaving of \<open>main\<close>, the signal handler, the reader and the six other threads, from the first \<open>start\<close> on, no thread has
  undefined behaviour, every book is sorted, uncrossed and filed under its symbol, the reader has counted as published exactly the ticks that
  have entered the pipeline, and no thread is asked to stop before \<open>SIGINT\<close> or \<open>SIGTERM\<close> was delivered. The program refines the service:
  its run is one of the service that \<open>main\<close> has built, fed with ticks in range.
\<close>

theorem processor_safe:
  assumes "processor_start env = Inr c" and "pr_sane acts"
  shows "\<exists>s0 s as. c = Value s0 \<and> pr_run acts s0 = Value s \<and> processor_service = Value (pr_service s0) \<and>
     (\<forall>t. Upstream (FeedPush t) \<in> set as \<longrightarrow> feedable t \<and> small t) \<and> service_run as (pr_service s0) = Value (pr_service s) \<and>
     pg_published (snd (snd (pr_reader s))) = of_nat (pl_fed (sv_pipe (pr_service s))) \<and>
     (\<forall>k b. book (pl_book (sv_pipe (pr_service s))) k = Some b \<longrightarrow> book_ok b \<and> book_symbol b = k) \<and>
     (0 < pl_ctl (sv_pipe (pr_service s)) \<longrightarrow> PR_signal 2 \<in> set acts \<or> PR_signal 15 \<in> set acts)"
proof -
  obtain s0 where s0: "c = Value s0" "pr_inv s0" "processor_service = Value (pr_service s0)" "pr_running s0"
    using processor_start_ok [OF assms(1)] by blast
  obtain s where s: "pr_run acts s0 = Value s" "pr_inv s" "sv_follows (pr_service s0) (pr_service s)"
    using pr_run_ok [OF s0(2) assms(2)] by blast
  obtain as where as: "\<forall>t. Upstream (FeedPush t) \<in> set as \<longrightarrow> feedable t \<and> small t" "service_run as (pr_service s0) = Value (pr_service s)"
    using s(3) by (auto simp: sv_follows_def)
  have pub: "pg_published (snd (snd (pr_reader s))) = of_nat (pl_fed (sv_pipe (pr_service s)))" using s(2) by (simp add: pr_inv_def pgf.coupled_def)
  have "pipe_inv (sv_pipe (pr_service s))" using s(2) service_invD(1) by (auto simp: pr_inv_def sv_upstream_def)
  note b = pipe_books [OF this]
  have "pr_running s \<longrightarrow> pl_ctl (sv_pipe (pr_service s)) = 0" using s(2) by (simp add: pr_inv_def)
  then have "0 < pl_ctl (sv_pipe (pr_service s)) \<longrightarrow> PR_signal 2 \<in> set acts \<or> PR_signal 15 \<in> set acts"
    using pr_run_signal [OF s(1) s0(4)] by auto
  then show ?thesis using s0(1,3) s(1) as pub b by (intro exI [of _ s0] exI [of _ s] exI [of _ as] conjI) assumption+
qed

theorem processor_safe_witness:
  "\<exists>s0 s. processor_start demo_env = Inr (Value s0) \<and> pr_run demo_pr_acts s0 = Value s \<and>
     (\<forall>k b. book (pl_book (sv_pipe (pr_service s))) k = Some b \<longrightarrow> book_ok b)"
proof -
  obtain c where c: "processor_start demo_env = Inr c" using demo_start by blast
  from processor_safe [OF c demo_pr_sane] c show ?thesis by blast
qed

text \<open>
  C5. The service can always be stopped: from every state of the program there is a continuation of its threads, with a signal if none has
  come yet, after which \<open>main\<close> returns 0; and whenever it returns, the tick rings are empty, the reader has ended, every tick it published
  was processed, rejected or lost at the stop of the parser, every tick processed was forwarded, deduplicated, reordered or lost
  at the stop of the normalizer, and every tick forwarded has reached its book.
\<close>

theorem processor_stops:
  assumes "processor_start env = Inr (Value s0)" and "pr_sane acts" and "pr_run acts s0 = Value s"
  shows "(\<exists>acts' s'. pr_sane acts' \<and> pr_run (acts @ acts') s0 = Value s' \<and> processor_exit s' = Some 0) \<and>
     (processor_exit s = Some 0 \<longrightarrow> (let p = sv_pipe (pr_service s) in
        ring_items (q1 p) = [] \<and> ring_items (q2 p) = [] \<and> ring_items (q3 p) = [] \<and> fst (pr_reader s) = R_done \<and>
        pg_published (snd (snd (pr_reader s))) = tp_processed (pl_parser p) + tp_rejected (pl_parser p) + of_nat (pl_parser_lost p) \<and>
        tp_processed (pl_parser p) = norm_counted (pl_norm p) + of_nat (pl_norm_lost p) \<and>
        ticks_forwarded (nz_stats (pl_norm p)) = bp_ticks_processed (pl_book p)))"
proof
  have inv0: "pr_inv s0" using processor_start_ok [OF assms(1)] by auto
  have inv: "pr_inv s" using pr_run_ok [OF inv0 assms(2)] assms(3) by auto
  from pr_reaches_end [OF inv] show "\<exists>acts' s'. pr_sane acts' \<and> pr_run (acts @ acts') s0 = Value s' \<and> processor_exit s' = Some 0"
    using assms(3) by (fastforce simp: pr_run_append)
  show "processor_exit s = Some 0 \<longrightarrow> (let p = sv_pipe (pr_service s) in
        ring_items (q1 p) = [] \<and> ring_items (q2 p) = [] \<and> ring_items (q3 p) = [] \<and> fst (pr_reader s) = R_done \<and>
        pg_published (snd (snd (pr_reader s))) = tp_processed (pl_parser p) + tp_rejected (pl_parser p) + of_nat (pl_parser_lost p) \<and>
        tp_processed (pl_parser p) = norm_counted (pl_norm p) + of_nat (pl_norm_lost p) \<and>
        ticks_forwarded (nz_stats (pl_norm p)) = bp_ticks_processed (pl_book p))"
  proof
    assume "processor_exit s = Some 0"
    then have "sv_ctl (pr_service s) = 4" by (simp add: processor_exit_def split: if_splits)
    then have five: "pl_ctl (sv_pipe (pr_service s)) = 5" using inv service_invD(4) by (auto simp: pr_inv_def sv_control_def)
    have pinv: "pipe_inv (sv_pipe (pr_service s))" using inv service_invD(1) by (auto simp: pr_inv_def sv_upstream_def)
    then have "pl_feed_done (sv_pipe (pr_service s))" using five pipe_invD(2) by (auto simp: pipe_control_def)
    then have e: "fst (pr_reader s) = R_done" "pg_published (snd (snd (pr_reader s))) = of_nat (pl_fed (sv_pipe (pr_service s)))"
      using inv by (auto simp: pr_inv_def pgf.coupled_def)
    note n = stopped_counts [OF pinv five]
    show "let p = sv_pipe (pr_service s) in
        ring_items (q1 p) = [] \<and> ring_items (q2 p) = [] \<and> ring_items (q3 p) = [] \<and> fst (pr_reader s) = R_done \<and>
        pg_published (snd (snd (pr_reader s))) = tp_processed (pl_parser p) + tp_rejected (pl_parser p) + of_nat (pl_parser_lost p) \<and>
        tp_processed (pl_parser p) = norm_counted (pl_norm p) + of_nat (pl_norm_lost p) \<and>
        ticks_forwarded (nz_stats (pl_norm p)) = bp_ticks_processed (pl_book p)"
      unfolding Let_def using e(1) trans [OF e(2) n(1)] n(2-6) by blast
  qed
qed

theorem processor_stops_witness:
  "\<exists>s0 acts' s'. processor_start demo_env = Inr (Value s0) \<and> pr_run (demo_pr_acts @ acts') s0 = Value s' \<and> processor_exit s' = Some 0"
proof -
  obtain c where c: "processor_start demo_env = Inr c" using demo_start by blast
  then obtain s0 where s0: "processor_start demo_env = Inr (Value s0)" "pr_inv s0" using processor_start_ok by blast
  then obtain s where "pr_run demo_pr_acts s0 = Value s" using pr_run_ok [OF _ demo_pr_sane] by blast
  from processor_stops [OF s0(1) demo_pr_sane this] show ?thesis using s0(1) by blast
qed

end
