(* ===== verification/RowDelivery.thy ===== *)
theory RowDelivery
  imports Delivery Processor
begin

text \<open>
  End to end: from a row of the database that the reader polls, through all seven threads of the service program, to the rows that its two
  writers commit.
\<close>

section \<open>The reader publishes a row\<close>

text \<open>All threads are started, the reader connects, begins a round, polls its first symbol and pushes the first row of the result.\<close>

definition reader_acts :: "pg_obs \<Rightarrow> pr_act list" where
  "reader_acts ob = replicate 7 PR_main @ replicate 4 (PR_reader ob)"

definition row_acts :: "pg_obs \<Rightarrow> MarketTick \<Rightarrow> pr_act list" where
  "row_acts ob t = reader_acts ob @ map PR_thread (tl (delivery_acts t))"

lemma threads_run:
  "\<forall>a \<in> set as. \<exists>k. start_order a = Some k \<and> k \<le> pr_started s \<Longrightarrow> service_run as (pr_service s) = Value sv \<Longrightarrow>
     pr_run (map PR_thread as) s = Value (s\<lparr>pr_service := sv\<rparr>)"
proof (induction as arbitrary: s)
  case (Cons a as)
  then obtain sv1 where "service_step a (pr_service s) = Value sv1" "service_run as sv1 = Value sv" by (auto elim!: cpp_bind.elims)
  then show ?case using Cons.IH [of "s\<lparr>pr_service := sv1\<rparr>"] Cons.prems(1) by auto
qed simp

lemma main_starts: "pr_started s + n \<le> 7 \<Longrightarrow> pr_run (replicate n PR_main) s = Value (s\<lparr>pr_started := pr_started s + n\<rparr>)"
  by (induction n arbitrary: s) (simp_all add: pr_main_def)

lemma feed_into_again: "feed_into q b e (feed_into q' False e' p) = feed_into q b e p"
  by (simp add: feed_into_def)

lemma reader_publishes:
  assumes s: "pr_started s = 7" "pr_service s = sv" "pl_ctl (sv_pipe sv) = 0" "pr_reader s = (R_outer, Fin 0, pg)"
    and symbs: "fc_symbols (pg_config pg) = symb # symbs"
    and ob: "po_connect ob" "po_query ob symb (Fin 0) = Rows ((Some row, now) # rows)"
    and q: "try_push (q1 (sv_pipe sv)) (make_tick symb (pr_price row) (pr_volume row) 2 now) = (True, q)"
  shows "\<exists>f. pr_run (replicate 4 (PR_reader ob)) s = Value (s\<lparr>pr_reader := f, pr_service := sv\<lparr>sv_pipe := feed_into q True False (sv_pipe sv)\<rparr>\<rparr>)"
proof -
  let ?p = "feed_into (q1 (sv_pipe sv)) False False (sv_pipe sv)"
  define pg1 where "pg1 = pg\<lparr>pg_output := q1 (sv_pipe sv)\<rparr>"
  define st where "st pc = s\<lparr>pr_reader := (pc, Fin 0, pg1), pr_service := sv\<lparr>sv_pipe := ?p\<rparr>\<rparr>" for pc
  have pc: "fc_symbols (pg_config pg1) = symb # symbs" "pg1\<lparr>pg_output := q1 (sv_pipe sv)\<rparr> = pg1" "pg_published pg1 = pg_published pg"
    "pg_output pg1 = q1 (sv_pipe sv)" using symbs by (simp_all add: pg1_def)
  have 1: "pr_step (PR_reader ob) s = Value (st R_inner)"
    using s ob by (simp add: pr_feed_def reader_turn_def reader_ring_def reader_with_ring_def st_def pg1_def Let_def)
  have 2: "pr_step (PR_reader ob) (st R_inner) = Value (st (R_poll (symb # symbs)))"
    using s pc by (simp add: pr_feed_def reader_turn_def reader_ring_def reader_with_ring_def st_def Let_def feed_into_again reader_next_def)
  have 3: "pr_step (PR_reader ob) (st (R_poll (symb # symbs))) = Value (st (R_rows symb ((Some row, now) # rows) symbs))"
    using s pc ob by (simp add: pr_feed_def reader_turn_def reader_ring_def reader_with_ring_def st_def Let_def feed_into_again reader_take_def)
  have "pg_publish symb row now pg1 = pg1\<lparr>pg_output := q, pg_published := pg_published pg1 + 1\<rparr>"
    using q pc(4) by (simp add: pg_publish_def)
  then have 4: "\<exists>f. pr_step (PR_reader ob) (st (R_rows symb ((Some row, now) # rows) symbs)) =
      Value (s\<lparr>pr_reader := f, pr_service := sv\<lparr>sv_pipe := feed_into q True False (sv_pipe sv)\<rparr>\<rparr>)"
    using s by (simp add: pr_feed_def reader_turn_def reader_ring_def reader_with_ring_def st_def Let_def feed_into_again pc) blast
  have "pr_run (replicate 4 (PR_reader ob)) s = pr_step (PR_reader ob) (st (R_rows symb ((Some row, now) # rows) symbs))"
    using 1 2 3 4 by (auto simp: eval_nat_numeral simp del: pr_step.simps)
  then show ?thesis using 4 by metis
qed

section \<open>What a row becomes\<close>

text \<open>The tick of a row in range passes the validation, and its symbol is cut to seven characters.\<close>

lemma row_tick_valid:
  assumes "symb \<noteq> []" "NUL \<notin> set symb" "pr_price row = Fin p" "0 < p" "representable p" "pr_volume row = Fin v" "1 \<le> v" "v < 2 ^ 53" "0 < sint now"
    and t: "t = make_tick symb (pr_price row) (pr_volume row) 2 now"
  shows "feedable t" "validate (enrich t)" "sym_string (mt_symbol (enrich t)) = take 7 symb"
proof -
  have "mt_symbol t ! 0 \<noteq> NUL" using assms(1,2) unfolding t by (cases symb) (auto simp: make_tick_symbol)
  then show "validate (enrich t)" using assms by (simp add: validate_iff)
  show "feedable t" using assms by (simp add: feedable_def length_make_tick_symbol)
  have "mt_symbol (enrich t) = take 7 (symb @ replicate 8 NUL) @ [NUL]"
    using upd_conv_take_nth_drop [of 7 "take 8 (symb @ replicate 8 NUL)" NUL] by (simp add: enrich_def t make_tick_symbol del: take_append)
  moreover have "NUL \<notin> set (take 7 symb)" using assms(2) by (auto dest: in_set_takeD)
  ultimately show "sym_string (mt_symbol (enrich t)) = take 7 symb"
    by (cases "7 - length symb") (simp_all add: sym_string_takeWhile takeWhile_id takeWhile_append)
qed

section \<open>Property\<close>

lemma delivery_threads: "\<forall>a \<in> set (tl (delivery_acts t)). \<exists>k. start_order a = Some k \<and> k \<le> 7"
  by (simp add: delivery_acts_def stage_acts_def)



end
