(* ===== verification/Logger.thy ===== *)
theory Logger
  imports Prelude
begin

text \<open>
  \<open>infra/Logger.hpp\<close>: the process-wide logger that \<open>init\<close> keeps in a static pointer, and the named loggers of the components. The library
  spdlog is a parameter (\<open>spdlog\<close>): its registry is the state \<open>'st\<close>, a logger object is an \<open>'lg\<close>, and a call that may throw returns
  the exception or its result. What the code relies on is \<open>spdlog_behaves\<close>, a part of the documented behaviour of the library.
\<close>

section \<open>The library\<close>

datatype log_level = Trace | Debug | Info | Warn | Err | Critical | Off

datatype log_exn = Spdlog_ex | Other_ex

record ('st, 'lg) spdlog =
  stdout_color_mt :: "string \<Rightarrow> 'st \<Rightarrow> (log_exn + 'lg) \<times> 'st"
  spd_get :: "string \<Rightarrow> 'st \<Rightarrow> log_exn + 'lg option"
  spd_default :: "'st \<Rightarrow> log_exn + 'lg option"
  set_default_logger :: "'lg \<Rightarrow> 'st \<Rightarrow> 'st"
  set_global_level :: "log_level \<Rightarrow> 'st \<Rightarrow> 'st"
  clone_logger :: "'lg \<Rightarrow> string \<Rightarrow> 'st \<Rightarrow> (log_exn + 'lg) \<times> 'st"
  logger_level :: "'lg \<Rightarrow> 'st \<Rightarrow> log_level"
  set_logger_level :: "'lg \<Rightarrow> log_level \<Rightarrow> 'st \<Rightarrow> 'st"
  set_logger_pattern :: "'lg \<Rightarrow> string \<Rightarrow> 'st \<Rightarrow> 'st"
  register_logger :: "'lg \<Rightarrow> 'st \<Rightarrow> (log_exn + unit) \<times> 'st"
  make_sink_logger :: "string \<Rightarrow> 'st \<Rightarrow> 'lg \<times> 'st"
  spd_shutdown :: "'st \<Rightarrow> 'st"

section \<open>The class\<close>

definition log_pattern :: string where
  "log_pattern = ''[%Y-%m-%d %H:%M:%S.%e] [%n] [%^%l%$] [thread %t] %v''"

text \<open>The first half of \<open>init\<close>: the logger that the static pointer keeps, created or found under the name if there is none yet.\<close>

definition leaked_logger :: "('st, 'lg) spdlog \<Rightarrow> string \<Rightarrow> 'lg option \<Rightarrow> 'st \<Rightarrow> (log_exn + 'lg option) \<times> 'st" where
  "leaked_logger sp app_name leaked s = (case leaked of
      Some l \<Rightarrow> (Inr (Some l), s)
    | None \<Rightarrow> (case stdout_color_mt sp app_name s of
          (Inr l, s1) \<Rightarrow> (Inr (Some l), s1)
        | (Inl Spdlog_ex, s1) \<Rightarrow> (spd_get sp app_name s1, s1)
        | (Inl Other_ex, s1) \<Rightarrow> (Inl Other_ex, s1)))"

text \<open>\<open>init\<close> on the static pointer and the registry; an exception that is not caught leaves the function.\<close>

definition logger_init :: "('st, 'lg) spdlog \<Rightarrow> string \<Rightarrow> log_level \<Rightarrow> 'lg option \<times> 'st \<Rightarrow> (log_exn + unit) \<times> 'lg option \<times> 'st" where
  "logger_init sp app_name lv g = (case leaked_logger sp app_name (fst g) (snd g) of
      (Inl e, s1) \<Rightarrow> (Inl e, fst g, s1)
    | (Inr None, s1) \<Rightarrow> (Inr (), None, s1)
    | (Inr (Some l), s1) \<Rightarrow> (Inr (), Some l,
        set_global_level sp lv (set_logger_pattern sp l log_pattern (set_logger_level sp l lv (set_default_logger sp l s1)))))"

definition fallback_logger :: "('st, 'lg) spdlog \<Rightarrow> string \<Rightarrow> 'st \<Rightarrow> 'lg \<times> 'st" where
  "fallback_logger sp name s = (case make_sink_logger sp name s of
      (l, s1) \<Rightarrow> (l, set_logger_level sp l Info (set_logger_pattern sp l log_pattern s1)))"

text \<open>The \<open>try\<close> block of \<open>get\<close>: an exception, no logger, or the logger it returns.\<close>

definition component_logger :: "('st, 'lg) spdlog \<Rightarrow> string \<Rightarrow> 'st \<Rightarrow> (log_exn + 'lg option) \<times> 'st" where
  "component_logger sp name s = (case spd_get sp name s of
      Inl e \<Rightarrow> (Inl e, s)
    | Inr (Some l) \<Rightarrow> (Inr (Some l), s)
    | Inr None \<Rightarrow> (case spd_default sp s of
          Inl e \<Rightarrow> (Inl e, s)
        | Inr None \<Rightarrow> (Inr None, s)
        | Inr (Some d) \<Rightarrow> (case clone_logger sp d name s of
              (Inl e, s1) \<Rightarrow> (Inl e, s1)
            | (Inr l, s1) \<Rightarrow> (case register_logger sp l (set_logger_level sp l (logger_level sp d s1) s1) of
                  (Inl e, s2) \<Rightarrow> (Inl e, s2)
                | (Inr _, s2) \<Rightarrow> (Inr (Some l), s2)))))"

definition logger_get :: "('st, 'lg) spdlog \<Rightarrow> string \<Rightarrow> 'st \<Rightarrow> 'lg \<times> 'st" where
  "logger_get sp name s = (case component_logger sp name s of
      (Inr (Some l), s1) \<Rightarrow> (l, s1)
    | (_, s1) \<Rightarrow> fallback_logger sp name s1)"

definition logger_shutdown :: "('st, 'lg) spdlog \<Rightarrow> 'st \<Rightarrow> 'st" where
  "logger_shutdown sp s = spd_shutdown sp s"

section \<open>What the code relies on\<close>

text \<open>The two states have the same registered loggers and the same default logger.\<close>

definition same_registry :: "('st, 'lg) spdlog \<Rightarrow> 'st \<Rightarrow> 'st \<Rightarrow> bool" where
  "same_registry sp s s' \<longleftrightarrow> (\<forall>n. spd_get sp n s' = spd_get sp n s) \<and> spd_default sp s' = spd_default sp s"

text \<open>
  The documented behaviour of the library while it is in use: looking up does not throw; \<open>stdout_color_mt\<close> registers a new logger and
  throws \<open>spdlog_ex\<close> if the name is taken, as does \<open>register_logger\<close>; \<open>clone\<close> makes a logger of the given name without registering it; the
  setters do what they say and leave the registry alone. \<open>nm\<close> is the name of a logger.
\<close>

definition spdlog_behaves :: "('st, 'lg) spdlog \<Rightarrow> ('lg \<Rightarrow> string) \<Rightarrow> bool" where
  "spdlog_behaves sp nm \<longleftrightarrow>
     (\<forall>n s. \<exists>r. spd_get sp n s = Inr r) \<and>
     (\<forall>n s. spd_get sp n s = Inr None \<longrightarrow> (\<exists>l s'. stdout_color_mt sp n s = (Inr l, s') \<and> spd_get sp n s' = Inr (Some l))) \<and>
     (\<forall>n s l. spd_get sp n s = Inr (Some l) \<longrightarrow> stdout_color_mt sp n s = (Inl Spdlog_ex, s)) \<and>
     (\<forall>l s. spd_default sp (set_default_logger sp l s) = Inr (Some l)) \<and>
     (\<forall>lv s. same_registry sp s (set_global_level sp lv s) \<and>
        (\<forall>l. logger_level sp l (set_global_level sp lv s) \<in> {lv, logger_level sp l s})) \<and>
     (\<forall>d n s. \<exists>l s'. clone_logger sp d n s = (Inr l, s') \<and> nm l = n \<and> same_registry sp s s' \<and> logger_level sp d s' = logger_level sp d s) \<and>
     (\<forall>l lv s. same_registry sp s (set_logger_level sp l lv s) \<and> logger_level sp l (set_logger_level sp l lv s) = lv) \<and>
     (\<forall>l p s. same_registry sp s (set_logger_pattern sp l p s) \<and> (\<forall>k. logger_level sp k (set_logger_pattern sp l p s) = logger_level sp k s)) \<and>
     (\<forall>l s. spd_get sp (nm l) s = Inr None \<longrightarrow> (\<exists>s'. register_logger sp l s = (Inr (), s') \<and>
        (\<forall>n. spd_get sp n s' = (if n = nm l then Inr (Some l) else spd_get sp n s)) \<and> spd_default sp s' = spd_default sp s \<and>
        logger_level sp l s' = logger_level sp l s))"

lemma spdlog_behavesD:
  assumes "spdlog_behaves sp nm"
  shows spd_get_returns: "\<exists>r. spd_get sp n s = Inr r"
    and spd_creates: "spd_get sp n s = Inr None \<Longrightarrow> \<exists>l s'. stdout_color_mt sp n s = (Inr l, s') \<and> spd_get sp n s' = Inr (Some l)"
    and spd_taken: "spd_get sp n s = Inr (Some l) \<Longrightarrow> stdout_color_mt sp n s = (Inl Spdlog_ex, s)"
    and spd_sets_default: "spd_default sp (set_default_logger sp l s) = Inr (Some l)"
    and spd_global: "same_registry sp s (set_global_level sp lv s)" "logger_level sp l (set_global_level sp lv s) \<in> {lv, logger_level sp l s}"
    and spd_clones: "\<exists>l s'. clone_logger sp d n s = (Inr l, s') \<and> nm l = n \<and> same_registry sp s s' \<and> logger_level sp d s' = logger_level sp d s"
    and spd_level: "same_registry sp s (set_logger_level sp l lv s)" "logger_level sp l (set_logger_level sp l lv s) = lv"
    and spd_pattern: "same_registry sp s (set_logger_pattern sp l p s)" "logger_level sp k (set_logger_pattern sp l p s) = logger_level sp k s"
    and spd_registers: "spd_get sp (nm l) s = Inr None \<Longrightarrow> \<exists>s'. register_logger sp l s = (Inr (), s') \<and>
        (\<forall>n. spd_get sp n s' = (if n = nm l then Inr (Some l) else spd_get sp n s)) \<and> spd_default sp s' = spd_default sp s \<and>
        logger_level sp l s' = logger_level sp l s"
  by (use assms in \<open>simp_all add: spdlog_behaves_def\<close>)

lemma same_registry_trans: "same_registry sp s s' \<Longrightarrow> same_registry sp s' s'' \<Longrightarrow> same_registry sp s s''"
  by (simp add: same_registry_def)

text \<open>The second half of \<open>init\<close>: the logger becomes the default and has the level.\<close>

lemma init_installs:
  assumes b: "spdlog_behaves sp nm" and l: "leaked_logger sp app (fst g) (snd g) = (Inr (Some l), s1)"
  shows "\<exists>s'. logger_init sp app lv g = (Inr (), Some l, s') \<and> spd_default sp s' = Inr (Some l) \<and> logger_level sp l s' = lv"
proof -
  define s2 where "s2 = set_logger_pattern sp l log_pattern (set_logger_level sp l lv (set_default_logger sp l s1))"
  have "spd_default sp (set_global_level sp lv s2) = Inr (Some l)" "logger_level sp l s2 = lv"
    using spd_sets_default [OF b] spd_global(1) [OF b] spd_level [OF b] spd_pattern [OF b]
    by (simp_all add: s2_def same_registry_def)
  then show ?thesis using l spd_global(2) [OF b, of l lv s2] by (simp add: logger_init_def s2_def)
qed

lemma first_logger:
  assumes b: "spdlog_behaves sp nm"
  shows "\<exists>l s1. leaked_logger sp app None s = (Inr (Some l), s1) \<and> spd_get sp app s1 = Inr (Some l)"
proof -
  obtain r where "spd_get sp app s = Inr r" using spd_get_returns [OF b] by blast
  then show ?thesis using spd_creates [OF b, of app s] spd_taken [OF b, of app s]
    by (cases r) (auto simp: leaked_logger_def)
qed

lemma new_component:
  assumes b: "spdlog_behaves sp nm" and g: "spd_get sp name s = Inr None" and d: "spd_default sp s = Inr (Some d)"
  shows "\<exists>l s'. logger_get sp name s = (l, s') \<and> (\<forall>n. spd_get sp n s' = (if n = name then Inr (Some l) else spd_get sp n s)) \<and>
     spd_default sp s' = Inr (Some d) \<and> logger_level sp l s' = logger_level sp d s"
proof -
  obtain l s1 where c: "clone_logger sp d name s = (Inr l, s1)" "nm l = name" "same_registry sp s s1"
    "logger_level sp d s1 = logger_level sp d s" using spd_clones [OF b] by blast
  define s2 where "s2 = set_logger_level sp l (logger_level sp d s1) s1"
  have s2: "same_registry sp s s2" "logger_level sp l s2 = logger_level sp d s"
    using spd_level [OF b] c(3,4) same_registry_trans [OF c(3)] by (simp_all add: s2_def)
  then have "spd_get sp (nm l) s2 = Inr None" using c(2) g by (simp add: same_registry_def)
  from spd_registers [OF b this] obtain s3 where r: "register_logger sp l s2 = (Inr (), s3)"
    "\<forall>n. spd_get sp n s3 = (if n = nm l then Inr (Some l) else spd_get sp n s2)" "spd_default sp s3 = spd_default sp s2"
    "logger_level sp l s3 = logger_level sp l s2" by blast
  have "logger_get sp name s = (l, s3)" using g d c(1) r(1) by (simp add: logger_get_def component_logger_def s2_def)
  then show ?thesis using r(2-4) s2 c(2) d by (simp add: same_registry_def)
qed

text \<open>
  The logger \<open>l\<close> is the default with level \<open>lv\<close>, and \<open>get\<close> returns, for every name, a logger registered under it; a new one has the
  level \<open>lv\<close>; asking again gives the same logger, and nothing else in the registry changes.
\<close>

definition logger_serves :: "('st, 'lg) spdlog \<Rightarrow> 'lg \<Rightarrow> log_level \<Rightarrow> 'st \<Rightarrow> bool" where
  "logger_serves sp l lv s \<longleftrightarrow> spd_default sp s = Inr (Some l) \<and> logger_level sp l s = lv \<and>
     (\<forall>name. \<exists>k s'. logger_get sp name s = (k, s') \<and> logger_get sp name s' = (k, s') \<and> spd_default sp s' = Inr (Some l) \<and>
        (\<forall>n. spd_get sp n s' = (if n = name then Inr (Some k) else spd_get sp n s)) \<and>
        (spd_get sp name s = Inr None \<longrightarrow> logger_level sp k s' = lv))"

lemma get_registered: "spd_get sp name s = Inr (Some k) \<Longrightarrow> logger_get sp name s = (k, s)"
  by (simp add: logger_get_def component_logger_def)

lemma default_serves:
  assumes b: "spdlog_behaves sp nm" and d: "spd_default sp s = Inr (Some l)" "logger_level sp l s = lv"
  shows "logger_serves sp l lv s"
proof -
  have "\<exists>k s'. logger_get sp name s = (k, s') \<and> logger_get sp name s' = (k, s') \<and> spd_default sp s' = Inr (Some l) \<and>
      (\<forall>n. spd_get sp n s' = (if n = name then Inr (Some k) else spd_get sp n s)) \<and>
      (spd_get sp name s = Inr None \<longrightarrow> logger_level sp k s' = lv)" for name
  proof -
    obtain r where r: "spd_get sp name s = Inr r" using spd_get_returns [OF b] by blast
    show ?thesis
    proof (cases r)
      case None
      obtain k s' where "logger_get sp name s = (k, s')" "\<forall>n. spd_get sp n s' = (if n = name then Inr (Some k) else spd_get sp n s)"
        "spd_default sp s' = Inr (Some l)" "logger_level sp k s' = lv" using new_component [OF b _ d(1), of name] r None d(2) by auto
      then show ?thesis using get_registered [of sp name s' k] by auto
    next
      case (Some k)
      then show ?thesis using get_registered [of sp name s k] r d(1) by (intro exI [of _ k] exI [of _ s]) simp
    qed
  qed
  then show ?thesis using d by (simp add: logger_serves_def)
qed

section \<open>A concrete registry\<close>

text \<open>
  The registry as an association list of names, with the default logger, the levels and the number of logger objects made so far;
  a logger is a number and its name.
\<close>

record registry =
  rg_loggers :: "(string \<times> nat \<times> string) list"
  rg_default :: "(nat \<times> string) option"
  rg_levels :: "((nat \<times> string) \<times> log_level) list"
  rg_next :: nat

definition rg_level :: "nat \<times> string \<Rightarrow> registry \<Rightarrow> log_level" where
  "rg_level l s = (case map_of (rg_levels s) l of None \<Rightarrow> Info | Some lv \<Rightarrow> lv)"

definition rg_register :: "nat \<times> string \<Rightarrow> registry \<Rightarrow> (log_exn + unit) \<times> registry" where
  "rg_register l s = (case map_of (rg_loggers s) (snd l) of
      Some _ \<Rightarrow> (Inl Spdlog_ex, s)
    | None \<Rightarrow> (Inr (), s\<lparr>rg_loggers := (snd l, l) # rg_loggers s\<rparr>))"

definition rg_make :: "string \<Rightarrow> registry \<Rightarrow> (nat \<times> string) \<times> registry" where
  "rg_make n s = ((rg_next s, n), s\<lparr>rg_next := rg_next s + 1\<rparr>)"

definition rg_set_level :: "nat \<times> string \<Rightarrow> log_level \<Rightarrow> registry \<Rightarrow> registry" where
  "rg_set_level l lv s = s\<lparr>rg_levels := (l, lv) # rg_levels s\<rparr>"

definition rg_create :: "string \<Rightarrow> registry \<Rightarrow> (log_exn + nat \<times> string) \<times> registry" where
  "rg_create n s = (case map_of (rg_loggers s) n of
      Some _ \<Rightarrow> (Inl Spdlog_ex, s)
    | None \<Rightarrow> (case rg_make n s of (l, s1) \<Rightarrow> (Inr l, snd (rg_register l s1))))"

definition map_registry :: "(registry, nat \<times> string) spdlog" where
  "map_registry = \<lparr>
     stdout_color_mt = rg_create,
     spd_get = (\<lambda>n s. Inr (map_of (rg_loggers s) n)),
     spd_default = (\<lambda>s. Inr (rg_default s)),
     set_default_logger = (\<lambda>l s. s\<lparr>rg_default := Some l\<rparr>),
     set_global_level = (\<lambda>lv s. s\<lparr>rg_levels := map (\<lambda>(n, l). (l, lv)) (rg_loggers s) @ rg_levels s\<rparr>),
     clone_logger = (\<lambda>d n s. case rg_make n s of (l, s1) \<Rightarrow> (Inr l, s1)),
     logger_level = rg_level,
     set_logger_level = rg_set_level,
     set_logger_pattern = (\<lambda>l p s. s),
     register_logger = rg_register,
     make_sink_logger = rg_make,
     spd_shutdown = (\<lambda>s. s\<lparr>rg_loggers := [], rg_default := None\<rparr>)\<rparr>"

definition empty_registry :: registry where
  "empty_registry = \<lparr>rg_loggers = [], rg_default = None, rg_levels = [], rg_next = 0\<rparr>"

lemma global_levels: "map_of (map (\<lambda>(n, l). (l, lv)) ls) k \<in> {None, Some lv}"
  by (induction ls) auto

lemma map_registry_behaves: "spdlog_behaves map_registry snd"
proof -
  have "rg_level l (s\<lparr>rg_levels := map (\<lambda>(n, l). (l, lv)) (rg_loggers s) @ rg_levels s\<rparr>) \<in> {lv, rg_level l s}" for l lv s
    using global_levels [of lv "rg_loggers s" l] by (auto simp: rg_level_def map_add_def split: option.splits)
  then show ?thesis unfolding spdlog_behaves_def same_registry_def
    by (intro conjI allI impI)
      (auto simp: map_registry_def rg_create_def rg_register_def rg_make_def rg_set_level_def rg_level_def split: option.splits)
qed

section \<open>Properties\<close>

text \<open>
  C33. \<open>Logger::init\<close> and \<open>Logger::get\<close> with a working library: the first \<open>init\<close> succeeds, whether or not the name is taken, and makes its logger
  the default with the requested level. Every later \<open>init\<close>, with any name and from any state of the registry, so also after
  \<open>shutdown\<close>, reuses that logger and creates none. Then \<open>get\<close> returns, for every name, a logger that is registered under it: the
  one that was there, or a new one with the level of the default logger; asking again gives the same logger, and no other name changes.
\<close>

theorem logger_ready:
  assumes b: "spdlog_behaves sp nm"
  shows "\<exists>l s1. logger_init sp app lv (None, s) = (Inr (), Some l, s1) \<and> logger_serves sp l lv s1 \<and>
     (\<forall>app' lv' s'. \<exists>s2. logger_init sp app' lv' (Some l, s') = (Inr (), Some l, s2) \<and> logger_serves sp l lv' s2)"
proof -
  obtain l s0 where f: "leaked_logger sp app None s = (Inr (Some l), s0)" using first_logger [OF b] by blast
  then obtain s1 where i: "logger_init sp app lv (None, s) = (Inr (), Some l, s1)" "logger_serves sp l lv s1"
    using init_installs [OF b, of app "(None, s)" l s0 lv] default_serves [OF b] by auto
  have "\<exists>s2. logger_init sp app' lv' (Some l, s') = (Inr (), Some l, s2) \<and> logger_serves sp l lv' s2" for app' lv' s'
    using init_installs [OF b, of app' "(Some l, s')" l s'] default_serves [OF b] by (force simp: leaked_logger_def)
  then show ?thesis using i by blast
qed

theorem logger_ready_witness:
  "\<exists>l s1. logger_init map_registry ''mdp-processor'' Info (None, empty_registry) = (Inr (), Some l, s1) \<and>
     logger_serves map_registry l Info s1"
  using logger_ready [OF map_registry_behaves, of "''mdp-processor''" Info empty_registry] by blast

text \<open>
  \<open>Logger::get\<close> when the library fails, as during teardown: if looking up, cloning or registering throws, the exception is caught
  and the result is a logger that is made on the spot with the level \<open>info\<close>; it is also the result if there is no default logger.
  If two threads ask for a new name, the one whose registration comes second gets such an unregistered logger.
\<close>

theorem logger_get_fallback:
  assumes "(\<exists>e. spd_get sp name s = Inl e) \<and> s' = s \<or>
      spd_get sp name s = Inr None \<and> ((\<exists>e. spd_default sp s = Inl e) \<or> spd_default sp s = Inr None) \<and> s' = s \<or>
      spd_get sp name s = Inr None \<and> (\<exists>d e. spd_default sp s = Inr (Some d) \<and> clone_logger sp d name s = (Inl e, s')) \<or>
      spd_get sp name s = Inr None \<and> (\<exists>d l s1 e. spd_default sp s = Inr (Some d) \<and> clone_logger sp d name s = (Inr l, s1) \<and>
         register_logger sp l (set_logger_level sp l (logger_level sp d s1) s1) = (Inl e, s'))"
  shows "logger_get sp name s = (case make_sink_logger sp name s' of
      (l, s1) \<Rightarrow> (l, set_logger_level sp l Info (set_logger_pattern sp l log_pattern s1)))"
  using assms by (auto simp: logger_get_def component_logger_def fallback_logger_def)

theorem logger_get_fallback_witness:
  "logger_get map_registry ''Main'' empty_registry =
     ((0, ''Main''), empty_registry\<lparr>rg_next := 1, rg_levels := [((0, ''Main''), Info)]\<rparr>)"
proof -
  have "spd_get map_registry ''Main'' empty_registry = Inr None" "spd_default map_registry empty_registry = Inr None"
    by (simp_all add: map_registry_def empty_registry_def)
  then show ?thesis using logger_get_fallback [of map_registry "''Main''" empty_registry empty_registry]
    by (simp add: map_registry_def rg_make_def rg_set_level_def empty_registry_def)
qed

end
