(* ===== verification/Spec2Isabelle.thy ===== *)
theory Spec2Isabelle
  imports SpscLinear ThreadBase HealthCheck RowDelivery Logger
begin

text \<open>
  A verification development for the market data processor, a C++ service that turns market ticks into order books,
  snapshots and trading signals. The sources are under \<open>src/src\<close>.

  \<^bold>\<open>The program.\<close> Every stage runs on its own thread (\<open>core/ThreadBase.hpp\<close>) and hands its results to the next through a
  lock-free ring with one producer and one consumer (\<open>core/RingBuffer.hpp\<close>). Stage 1 makes ticks, either simulated (\<open>feed/FeedSimulator\<close>)
  or read from a database (\<open>feed/PostgresFeedReader\<close>); stage 2 validates them (\<open>processing/TickParser\<close>); stage 3 removes repetitions and
  ticks that come out of order (\<open>processing/Normalizer\<close>); stage 4 keeps one order book per symbol and publishes a snapshot whenever
  the top of a book moves (\<open>book/BookProcessor\<close>, \<open>book/OrderBook\<close>). Snapshots go to a database writer (\<open>infra/DbWriter\<close>) and to a
  moving-average strategy (\<open>strategy/SignalEngine\<close>), whose signals go to a second writer (\<open>infra/SignalDbWriter\<close>).
  \<open>tools/processor_main.cpp\<close> is the service: it starts the threads, waits for a signal and stops them; \<open>tools/health_check.cpp\<close> runs stages 1 to 4 for half a second and
  judges the counters collected by \<open>infra/MetricsCollector.hpp\<close>.

  \<^bold>\<open>Representation.\<close> \<open>Prelude\<close> has the integer types (64 bit words, whose arithmetic wraps), undefined behaviour as a value
  (\<open>cpp\<close>, with \<open>Undefined\<close> for a cast or an overflow that the language leaves undefined) and unordered maps; \<open>Double\<close> has IEEE binary64 with its
  rounding to nearest even, infinities and NaN, so that every price and rate is computed as the program computes it (signed
  zeros are identified), and conversions that may be undefined are partial. \<open>MarketTick\<close> has the messages.

  \<^bold>\<open>Threads.\<close> A thread function is a sequential definition that is given, for each time it reads its stop flag, an
  observation: the flag, and what the neighbouring threads did to the shared rings in between (\<open>Stage\<close>). A schedule is a list of
  observations; a function that is still running when it is used up returns \<open>None\<close>. The schedule is the only bound; the
  theorems that a thread returns say how often the set flag must be seen (two to four times), and every schedule in which the
  flag stays set is long enough. The ring itself is treated at the level of single loads and stores in \<open>Spsc\<close>; \<open>SpscLinear\<close> shows that
  it refines the sequential ring, which justifies to treat its operations as atomic elsewhere. A load that returns an old index can
  make a call fail that need not; outside of \<open>Spsc\<close> and \<open>SpscLinear\<close> loads are fresh. A pop that fails this way is
  repeated, a push is repeated or counted as a drop; and when a stage drains its input its producer has been joined, after which the
  consumer cannot read an old index. \<open>StageSteps\<close> breaks the thread functions of stages 2 to 4 into steps and shows
  that the steps are these functions, \<open>WriterSteps\<close> does so for the writers and the signal engine, \<open>FeedSteps\<close> for the two feeds; \<open>Pipeline\<close> and \<open>Service\<close>
  let the steps of the threads interleave for any feed, \<open>HealthCheck\<close> and \<open>Processor\<close> add the feed thread and the calls of \<open>start\<close> and make the two whole programs.
  That the readings of a stop flag persist, which the theorems on single thread functions assume, is shown in \<open>ThreadBase\<close>.

  \<^bold>\<open>Theories and what they show.\<close>
  \<^item> \<open>RingBuffer\<close> (\<open>RingBuffer.hpp\<close>): the operations on the array and the two wrapping counters implement a bounded queue
    (locale \<open>bounded_fifo\<close>, interpreted as \<open>rb\<close>), from any position of the counters.
  \<^item> \<open>Spsc\<close> (\<open>RingBuffer.hpp\<close>): each load, store and slot access of the two threads is a step; an acquire load may return any
    value not older than the last one seen. In every interleaving the elements come out in order, no slot is accessed by both
    threads at once, and every access is ordered by a release and acquire pair.
  \<^item> \<open>SpscLinear\<close>: the effects of the concurrent calls, replayed on the sequential ring, give the results that the calls return.
  \<^item> \<open>ThreadBase\<close> (\<open>ThreadBase.hpp\<close>): start, stop, the worker and the destructor as steps; at most one worker, a persistent stop
    request, what a worker reads from its stop token, a stop that can complete, and the contract on destructors of subclasses.
  \<^item> \<open>FeedSimulator\<close>, \<open>PostgresFeedReader\<close>: the random walk with its clamps and rounding, the accounting of generated ticks; the polling
    loops, their completeness for one symbol and the loss of rows for several.
  \<^item> \<open>TickParser\<close>, \<open>Normalizer\<close>: what is accepted, dropped and counted, in the loop and in the final drain, with reference filters.
  \<^item> \<open>OrderBook\<close>: refinement of an abstract book, sortedness, no crossed book, exact counters, snapshots.
  \<^item> \<open>BookProcessor\<close>: the side heuristic, the effect of a tick, absence of undefined behaviour, return after a stop.
  \<^item> \<open>SignalEngine\<close>, \<open>DbWriter\<close>: soundness of the signals; the batches of both writers, what is saved and what is lost.
  \<^item> \<open>TickFormat\<close> (\<open>MarketTick::to_string\<close>), \<open>HealthReport\<close> (\<open>MetricsCollector.hpp\<close>, \<open>health_check.cpp\<close>): the text of a tick, the
    JSON form, the log line and the report of the metrics; readers show that the printed text gives back what it was made from.
  \<^item> \<open>Metrics\<close>, \<open>ProcessorMain\<close>: rates and verdict of the health check; symbols, configuration and exit codes of the service.
  \<^item> \<open>StageSteps\<close>, \<open>Pipeline\<close>: the wired pipeline under every interleaving: safety, accounting for every tick from the feed to
    the book, and the shutdown in the order of \<open>main\<close>. Each stage fulfils the contract \<open>pipe_stage\<close>, from which the system is proved.
  \<^item> \<open>WriterSteps\<close>, \<open>PipelineData\<close>, \<open>Service\<close>: the whole service, with the signal engine and both database writers behind the pipeline: no undefined
    behaviour for volumes below \<open>2 ^ 61\<close>, accounting for every snapshot and signal, the complete shutdown, and that it can always complete. \<open>RowTypes\<close>: every
    row that the service commits has values of the types of the prepared statements (locale \<open>typed_writer\<close> over \<open>row_writer\<close>).
    \<open>Delivery\<close>: a valid tick can travel from the feed to both tables, and which rows it gives.
  \<^item> \<open>FeedSteps\<close>: the thread functions of both feeds as steps. Both fulfil one contract (locale \<open>feed_thread\<close>, interpreted as \<open>simf\<close> and \<open>pgf\<close>), from which
    every step of a feed on the first ring is a sequence of pushes of ticks that the pipeline can take.
  \<^item> \<open>HealthCheck\<close> (\<open>health_check.cpp\<close>): the whole program, from the first \<open>start\<close> to the exit code; it refines the pipeline, can always complete, and the counters
    it prints satisfy the balance of the pipeline.
  \<^item> \<open>Processor\<close> (\<open>processor_main.cpp\<close>): the whole service program with the reader, the environment and the signals; it refines the service, does not stop
    without a signal, and can always be stopped. \<open>RowDelivery\<close>: a row of the database can travel through all threads of the program to both tables.
  \<^item> \<open>Logger\<close> (\<open>Logger.hpp\<close>): the static logger, the named loggers of the components and the fallback when the library fails; spdlog is a
    parameter with a part of its documented behaviour as a hypothesis (\<open>spdlog_behaves\<close>), which a registry of names fulfils.
  \<^item> This theory: the wirings of the repository with any ticks of the kind the feeds make, the counters of the pipeline after a shutdown; volumes for which
    a cast is undefined; and how signals are lost.

  \<^bold>\<open>Not modelled.\<close> The calls of the logger in the stages, which only output, so that the threads and \<open>Logger\<close> are separate models. The libraries for
  JSON and logging are parameters. \<open>MarketTick::to_json\<close> is declared but has no definition in the sources. The database and its driver are parameters: whether a connection or a
  transaction succeeds and what a query returns is part of the schedule. Random samples and clocks are arguments. Sleeping, yielding
  and spinning for time have no effect on the state; the arithmetic of the rate control is modelled. Allocation failure is not
  considered.
\<close>

section \<open>The simulated feed and the pipeline\<close>

lemma row_feedable:
  assumes "is_double (pr_price row)" and "\<exists>v. pr_volume row = Fin v \<and> v < 2 ^ 64"
  shows "feedable (make_tick symb (pr_price row) (pr_volume row) 2 now)"
  using assms by (auto simp: feedable_def length_make_tick_symbol)

text \<open>
  Both wirings of the repository are safe with their feeds, in every interleaving of the threads: the health check, if every tick
  the feed offers was generated by \<open>FeedSimulator::generate_tick\<close> in some good state of the simulator from finite random samples;
  and the service, if every tick was made of a database row with a price that is a double and a volume below \<open>2 ^ 64\<close>. No
  thread has undefined behaviour, and every book is sorted, uncrossed and filed under its symbol.
\<close>

theorem feeds_keep_pipeline_safe:
  assumes "\<forall>t. FeedPush t \<in> set acts \<longrightarrow>
      (\<exists>n now i fs. feed_inv fs \<and> sane_noise n \<and> i < length (symbol_states fs) \<and> t = fst (generate_tick n now i fs))"
    and "\<forall>t. FeedPush t \<in> set acts' \<longrightarrow> (\<exists>symb (row :: pg_row) now. t = make_tick symb (pr_price row) (pr_volume row) 2 now \<and>
      is_double (pr_price row) \<and> (\<exists>v. pr_volume row = Fin v \<and> v < 2 ^ 64))"
  shows "(\<exists>s. pipe_run acts health_pipe = Value s \<and> (\<forall>k b. book (pl_book s) k = Some b \<longrightarrow> book_ok b \<and> book_symbol b = k)) \<and>
     (\<exists>s. pipe_run acts' service_pipe = Value s \<and> (\<forall>k b. book (pl_book s) k = Some b \<longrightarrow> book_ok b \<and> book_symbol b = k))"
proof -
  have "\<forall>t. FeedPush t \<in> set acts \<longrightarrow> feedable t"
  proof (intro allI impI)
    fix t assume "FeedPush t \<in> set acts"
    then obtain n now i fs where g: "feed_inv fs" "sane_noise n" "i < length (symbol_states fs)" "t = fst (generate_tick n now i fs)" using assms(1) by blast
    then have "sane_state (symbol_states fs ! i)" by (simp add: feed_inv_def)
    then show "feedable t" using generated_feedable g(2,4) by simp
  qed
  moreover have "\<forall>t. FeedPush t \<in> set acts' \<longrightarrow> feedable t" using assms(2) row_feedable by blast
  ultimately show ?thesis
    using pipe_run_inv [OF wirings_inv(2), of acts] pipe_run_inv [OF wirings_inv(1), of acts'] pipe_books by meson
qed

definition demo_db_row :: pg_row where
  "demo_db_row = \<lparr>pr_price = Fin 100, pr_volume = Fin 7, pr_epoch = Fin 1\<rparr>"

lemma demo_db_row_ok: "is_double (pr_price demo_db_row)" "\<exists>v. pr_volume demo_db_row = Fin v \<and> v < 2 ^ 64"
  by (simp_all add: demo_db_row_def)

theorem feeds_keep_pipeline_safe_witness:
  "\<exists>s. pipe_run [FeedPush (fst (generate_tick calm 5 0 demo_feed)), ParserStep, ParserStep, NormStep, NormStep, BookStep] health_pipe = Value s \<and>
     (\<forall>k b. book (pl_book s) k = Some b \<longrightarrow> book_ok b \<and> book_symbol b = k)"
proof -
  have "0 < length (symbol_states demo_feed)" by (simp add: demo_feed_def new_feed_simulator_def default_config_def)
  then have "\<forall>t. FeedPush t \<in> set [FeedPush (fst (generate_tick calm 5 0 demo_feed)), ParserStep, ParserStep, NormStep, NormStep, BookStep] \<longrightarrow>
      (\<exists>n now i fs. feed_inv fs \<and> sane_noise n \<and> i < length (symbol_states fs) \<and> t = fst (generate_tick n now i fs))"
    using demo_feed_inv calm_ok(1) by (auto intro!: exI [of _ calm] exI [of _ "5 :: i64"] exI [of _ "0 :: nat"] exI [of _ demo_feed])
  moreover have "\<forall>t. FeedPush t \<in> set [FeedPush (make_tick ''BTC'' (pr_price demo_db_row) (pr_volume demo_db_row) 2 9), ParserStep] \<longrightarrow>
      (\<exists>symb (row :: pg_row) now. t = make_tick symb (pr_price row) (pr_volume row) 2 now \<and>
      is_double (pr_price row) \<and> (\<exists>v. pr_volume row = Fin v \<and> v < 2 ^ 64))"
  proof (intro allI impI)
    fix t assume "FeedPush t \<in> set [FeedPush (make_tick ''BTC'' (pr_price demo_db_row) (pr_volume demo_db_row) 2 9), ParserStep]"
    then have "t = make_tick ''BTC'' (pr_price demo_db_row) (pr_volume demo_db_row) 2 9" by simp
    then show "\<exists>symb (row :: pg_row) now. t = make_tick symb (pr_price row) (pr_volume row) 2 now \<and>
      is_double (pr_price row) \<and> (\<exists>v. pr_volume row = Fin v \<and> v < 2 ^ 64)" using demo_db_row_ok by blast
  qed
  ultimately show ?thesis by (rule conjunct1 [OF feeds_keep_pipeline_safe])
qed

section \<open>The health check after the shutdown\<close>

text \<open>
  What the health check reads after it has stopped the stages is consistent: the book has processed exactly what the normalizer
  forwarded, so that it is never silent while the normalizer is not; and the ticks published are those processed, rejected or
  lost when the parser was stopped.
\<close>

theorem health_check_consistent:
  assumes "ring_ok r1" "ring_ok r2" "ring_ok r3" "queue_ok d" "queue_ok g" "ring_items r1 = []" "ring_items r2 = []" "ring_items r3 = []"
    and "\<forall>t. FeedPush t \<in> set acts \<longrightarrow> feedable t" and "pipe_run acts (new_pipe r1 r2 r3 d g) = Value s" and "pl_ctl s = 5"
    and "fs_published feed = of_nat (pl_fed s)"
    and m: "m = metrics_snapshot feed (pl_parser s) (pl_norm s) (pl_book s) now"
  shows "book_ticks_processed m = norm_ticks_forwarded m \<and>
     (BookSilent \<in> set (health_failures m) \<longleftrightarrow> NormSilent \<in> set (health_failures m)) \<and>
     feed_ticks_published m = parser_ticks_processed m + parser_ticks_rejected m + of_nat (pl_parser_lost s)"
proof -
  have inv: "pipe_inv s" using pipe_run_inv [OF new_pipe_inv [OF assms(1-8)] assms(9)] assms(10) by auto
  note c = stopped_counts [OF inv assms(11)]
  have "book_ticks_processed m = norm_ticks_forwarded m" using c(3) by (simp add: m metrics_snapshot_def)
  moreover have "feed_ticks_published m = parser_ticks_processed m + parser_ticks_rejected m + of_nat (pl_parser_lost s)"
    unfolding m metrics_snapshot_def assms(12) using c(1) by simp
  ultimately show ?thesis by (auto simp: health_failures_def Let_def)
qed

theorem health_check_consistent_witness:
  "\<exists>acts s. pipe_run acts demo_pipe = Value s \<and> pl_ctl s = 5 \<and>
     (let m = metrics_snapshot (demo_feed\<lparr>fs_published := of_nat (pl_fed s)\<rparr>) (pl_parser s) (pl_norm s) (pl_book s) 1
      in book_ticks_processed m = norm_ticks_forwarded m)"
proof -
  obtain s1 where s1: "pipe_run demo_acts demo_pipe = Value s1" "pipe_inv s1"
    using pipe_run_inv [OF demo_pipe_inv demo_acts_ok] by blast
  then obtain acts' s where a: "\<forall>t. FeedPush t \<notin> set acts'" "pipe_run acts' s1 = Value s" "pl_ctl s = 5"
    using shutdown_reaches_end by blast
  then have r: "pipe_run (demo_acts @ acts') demo_pipe = Value s" using s1(1) by (simp add: pipe_run_append)
  have "\<forall>t. FeedPush t \<in> set (demo_acts @ acts') \<longrightarrow> feedable t" using a(1) demo_acts_ok by auto
  from health_check_consistent [OF _ _ _ _ _ _ _ _ this r [unfolded demo_pipe_def] a(3), of "demo_feed\<lparr>fs_published := of_nat (pl_fed s)\<rparr>" _ 1]
  show ?thesis using r a(3) by (auto simp: queue_ok_def Let_def)
qed

section \<open>Volumes\<close>

lemma to_u64_ge:
  assumes "2 ^ 63 \<le> v" "v < 2 ^ 64"
  obtains u where "to_u64 (Fin v) = Some u" "2 ^ 63 \<le> unat u"
proof -
  have f: "2 ^ 63 \<le> \<lfloor>v\<rfloor>" "\<lfloor>v\<rfloor> < 2 ^ 64" using assms by (simp_all add: le_floor_iff floor_less_iff)
  then have t: "trunc v = \<lfloor>v\<rfloor>" using assms(1) by (simp add: trunc_def)
  have "unat (of_int \<lfloor>v\<rfloor> :: u64) = nat \<lfloor>v\<rfloor>" using f by (simp add: unat_eq_nat_uint uint_word_of_int_eq take_bit_int_eq_self)
  then show thesis using that [of "of_int \<lfloor>v\<rfloor>"] f t by (simp add: le_nat_iff)
qed

lemma db_row_huge:
  assumes "2 ^ 63 \<le> unat u" and "ms_volume snap = of_u64 u"
  shows "db_row snap = Undefined"
proof -
  have rep: "representable (2 ^ 63 :: rat)"
    using powi2_less_limit [of 63] unfolding representable_iff by (intro conjI dyadicI [of _ 1 63]) simp_all
  have "of_nat (2 ^ 63) \<le> (of_nat (unat u) :: rat)" using assms(1) by (rule of_nat_mono)
  then have "Fin (2 ^ 63) \<le> of_u64 u" unfolding of_u64_def by (intro ieee.rnd_ge [OF rep]) (simp only: of_nat_power of_nat_numeral)
  then have "to_i64 (of_u64 u) = None" by (cases "of_u64 u") (auto simp: trunc_def floor_less_iff not_less le_floor_iff)
  then show ?thesis using assms(2) by (simp add: db_row_def)
qed

text \<open>
  C40. Two casts of volumes are undefined for ticks that pass the validation: an infinite volume has no \<open>uint64_t\<close>, so that processing
  it is undefined in every state of the book processor; and a volume from \<open>2 ^ 63\<close> on passes the book as well, but the first
  snapshot it causes is queued for the database writer, whose cast of the volume to \<open>int64_t\<close> is then undefined.
\<close>

theorem volume_casts_undefined:
  assumes "bookable t" and "mt_volume t = Fin v" and "2 ^ 63 \<le> v" and "ring_ok inq" and "ring_items inq = []" and "ring_ok q"
    and "length (ring_items q) < ring_cap q"
  shows "validate (make_tick ''BTC'' (Fin 100) PInf 0 1) \<and> bp_process_tick (make_tick ''BTC'' (Fin 100) PInf 0 1) bp = Undefined \<and>
     validate t \<and> (\<exists>bp' q' snap. bp_process_tick t (new_book_processor inq (Some q) None) = Value bp' \<and> db_queue bp' = Some q' \<and>
       ring_items q' = ring_items q @ [snap] \<and> db_row snap = Undefined)"
proof -
  let ?bp = "new_book_processor inq (Some q) None"
  have inv: "bp_inv ?bp" using assms(4-6) by (simp add: bp_inv_def new_book_processor_def queue_ok_def)
  define b' where "b' = book_apply (delta_for t ?bp) (fst (book_for (tick_sym t) ?bp))"
  define snap where "snap = make_snapshot t (top_of_book 0 b') b'"
  obtain u where u: "to_u64 (mt_volume t) = Some u" "2 ^ 63 \<le> unat u"
    using to_u64_ge [OF assms(3)] assms(1,2) by (auto simp: bookable_def)
  have p: "mt_price t \<noteq> Fin 0" "pos_price (mt_price t)" using bookable_price [OF assms(1)] by (auto simp: good_price_def)
  have f: "fst (book_for (tick_sym t) ?bp) = new_book (tick_sym t)" by (simp add: book_for_def new_book_processor_def)
  have d: "bd_side (delta_for t ?bp) = BID" "bd_price (delta_for t ?bp) = mt_price t" "bd_volume (delta_for t ?bp) = u"
    using u(1) by (simp_all add: delta_for_def determine_side_def book_for_def new_book_processor_def)
  have "u \<noteq> 0" using u(2) by auto
  then have b': "bids b' = [(mt_price t, u)]" "asks b' = []"
    by (simp_all add: b'_def f book_apply_def d new_book_def Let_def word_gt_0)
  then have moved: "top_moved (fst (book_for (tick_sym t) ?bp)) b'"
    using p by (simp add: f top_moved_def best_bid_def new_book_def)
  have "ms_volume snap = of_u64 u" by (simp add: snap_def make_snapshot_def top_of_book_def b' Let_def)
  then have undef: "db_row snap = Undefined" using db_row_huge u(2) by blast
  obtain bp' where "bp_process_tick t ?bp = Value bp'" "pushed_to snap (db_queue ?bp) (db_queue bp')"
    using bp_process_tick_effect [OF inv assms(1)] moved unfolding b'_def snap_def by metis
  then have "\<exists>q'. bp_process_tick t ?bp = Value bp' \<and> db_queue bp' = Some q' \<and> ring_items q' = ring_items q @ [snap]"
    using assms(7) by (auto simp: pushed_to_def new_book_processor_def simp del: length_ring_items)
  moreover have "validate t" using assms(1) clean_valid by (simp add: bookable_def)
  ultimately show ?thesis using undef
    by (auto simp: validate_iff make_tick_symbol bp_process_tick_def tick_to_delta_def Let_def)
qed

theorem volume_casts_undefined_witness:
  "\<exists>bp' q' snap. bp_process_tick (make_tick ''BTC'' (Fin 100) (Fin (2 ^ 63)) 0 1)
       (new_book_processor (filled_ring 1 zero_tick []) (Some (filled_ring 1 zero_snapshot [])) None) = Value bp' \<and>
     db_queue bp' = Some q' \<and> ring_items q' = [snap] \<and> db_row snap = Undefined"
proof -
  have "bookable (make_tick ''BTC'' (Fin 100) (Fin (2 ^ 63)) 0 1)"
    by (simp add: bookable_def clean_tick_def length_make_tick_symbol make_tick_symbol)
  from volume_casts_undefined [OF this, of "2 ^ 63" "filled_ring 1 zero_tick []" "filled_ring 1 zero_snapshot []"]
  show ?thesis by (simp del: length_ring_items)
qed

section \<open>Signals\<close>


end
